(* ===== verification/Prelude.thy ===== *)
theory Prelude
  imports Main "HOL-Library.Word"
begin

unbundle bit_operations_syntax

section \<open>Shared types, byte encodings and lemma collections\<close>

text \<open>
  What every component of the development shares: names for the machine types of the kernel
  (\<open>uint8_t\<close> to \<open>uint64_t\<close>), little-endian and big-endian reads of byte lists (the packed
  structs the kernel overlays on disk sectors and network packets), the
  error numbers of \<open>kernel/proc/syscall.h\<close>, and lemmas on lists and words that the library of
  Isabelle does not have in the shape the components need.

  Conventions. A pointer that may be \<open>NULL\<close> is an \<open>option\<close> where the code only tests and follows
  it, and a \<open>64 word\<close> with \<open>0\<close> for \<open>NULL\<close> where the code computes with it. A fixed-size array
  whose index the code reduces into range is a function from \<open>nat\<close>; the theorems then state that
  the indices used are in range. A read outside an object, which is undefined in C, is the value
  \<open>None\<close>.
\<close>

type_synonym u8 = "8 word"
type_synonym u16 = "16 word"
type_synonym u32 = "32 word"
type_synonym u64 = "64 word"

type_synonym bytes = "u8 list"

named_theorems kernel_simps \<open>unfolding rules shared by the proofs of the components\<close>
named_theorems inv_intros \<open>an operation keeps the invariant of its component\<close>

abbreviation (input) PAGE_SIZE :: "'a::len word" where
  "PAGE_SIZE \<equiv> 4096"

subsection \<open>Error numbers\<close>

abbreviation (input) EPERM :: int where "EPERM \<equiv> 1"
abbreviation (input) ENOENT :: int where "ENOENT \<equiv> 2"
abbreviation (input) EIO :: int where "EIO \<equiv> 5"
abbreviation (input) EBADF :: int where "EBADF \<equiv> 9"
abbreviation (input) EAGAIN :: int where "EAGAIN \<equiv> 11"
abbreviation (input) ENOMEM :: int where "ENOMEM \<equiv> 12"
abbreviation (input) EFAULT :: int where "EFAULT \<equiv> 14"
abbreviation (input) EEXIST :: int where "EEXIST \<equiv> 17"
abbreviation (input) EINVAL :: int where "EINVAL \<equiv> 22"
abbreviation (input) EMFILE :: int where "EMFILE \<equiv> 24"
abbreviation (input) ENOSPC :: int where "ENOSPC \<equiv> 28"
abbreviation (input) EPIPE :: int where "EPIPE \<equiv> 32"
abbreviation (input) ECONNABORTED :: int where "ECONNABORTED \<equiv> 103"
abbreviation (input) EISCONN :: int where "EISCONN \<equiv> 106"
abbreviation (input) ECONNREFUSED :: int where "ECONNREFUSED \<equiv> 111"

subsection \<open>Lists\<close>

lemma take_Suc_nth: "i < length xs \<Longrightarrow> take (Suc i) xs = take i xs @ [xs ! i]"
  by (rule take_Suc_conv_app_nth)

lemma upt_snoc: "i \<le> j \<Longrightarrow> [i..<Suc j] = [i..<j] @ [j]"
  by simp

lemma map_upt_shift: "map f [Suc i..<Suc j] = map (\<lambda>k. f (Suc k)) [i..<j]"
  by (simp add: map_Suc_upt [symmetric] comp_def del: upt_Suc)

lemma in_set_split: "x \<in> set xs \<Longrightarrow> \<exists>pre post. xs = pre @ x # post"
  by (rule split_list)

lemma remove1_middle: "x \<notin> set pre \<Longrightarrow> remove1 x (pre @ x # post) = pre @ post"
  by (induction pre) auto

lemma list_all2_member: "list_all2 P xs ys \<Longrightarrow> x \<in> set xs \<Longrightarrow> \<exists>y \<in> set ys. P x y"
  by (induction rule: list_all2_induct) auto

lemma mod_less_self: "0 < n \<Longrightarrow> (a::nat) mod n < n"
  by simp

subsection \<open>Machine words\<close>

lemma unat_less: "unat (w :: 'a::len word) < 2 ^ LENGTH('a)"
  by (rule unsigned_less)

lemma unat_add_no_wrap:
  fixes a b :: "'a::len word"
  shows "unat a + unat b < 2 ^ LENGTH('a) \<Longrightarrow> unat (a + b) = unat a + unat b"
  by (simp add: unat_word_ariths)

lemma unat_diff_le:
  fixes a b :: "'a::len word"
  shows "b \<le> a \<Longrightarrow> unat (a - b) = unat a - unat b"
  by (rule unat_sub)

lemma unat_of_nat_lt:
  "n < 2 ^ LENGTH('a::len) \<Longrightarrow> unat (of_nat n :: 'a word) = n"
  by (simp add: unat_of_nat take_bit_nat_eq_self)

subsection \<open>Packed structs: integers inside byte lists\<close>

text \<open>
  \<open>rd8 bs i\<close> is the byte at offset \<open>i\<close>; reading past the end of the object is \<open>None\<close>.
  The multi-byte reads are the little-endian reads of the target machine (x86-64) and the
  big-endian reads that the network code writes out by hand.
\<close>

definition rd8 :: "bytes \<Rightarrow> nat \<Rightarrow> u8 option" where
  "rd8 bs i = (if i < length bs then Some (bs ! i) else None)"

definition rd16le :: "bytes \<Rightarrow> nat \<Rightarrow> u16 option" where
  "rd16le bs i = (if i + 2 \<le> length bs
     then Some (ucast (bs ! i) OR push_bit 8 (ucast (bs ! (i + 1)))) else None)"

definition rd32le :: "bytes \<Rightarrow> nat \<Rightarrow> u32 option" where
  "rd32le bs i = (if i + 4 \<le> length bs
     then Some (ucast (bs ! i) OR push_bit 8 (ucast (bs ! (i + 1)))
             OR push_bit 16 (ucast (bs ! (i + 2))) OR push_bit 24 (ucast (bs ! (i + 3)))) else None)"

definition rd64le :: "bytes \<Rightarrow> nat \<Rightarrow> u64 option" where
  "rd64le bs i = (case (rd32le bs i, rd32le bs (i + 4)) of
     (Some lo, Some hi) \<Rightarrow> Some (ucast lo OR push_bit 32 (ucast hi)) | _ \<Rightarrow> None)"

definition le16 :: "u16 \<Rightarrow> bytes" where
  "le16 w = [ucast w, ucast (drop_bit 8 w)]"

definition le32 :: "u32 \<Rightarrow> bytes" where
  "le32 w = [ucast w, ucast (drop_bit 8 w), ucast (drop_bit 16 w), ucast (drop_bit 24 w)]"

definition be16 :: "u16 \<Rightarrow> bytes" where
  "be16 w = [ucast (drop_bit 8 w), ucast w]"

definition be32 :: "u32 \<Rightarrow> bytes" where
  "be32 w = [ucast (drop_bit 24 w), ucast (drop_bit 16 w), ucast (drop_bit 8 w), ucast w]"

lemma length_le16 [simp]: "length (le16 w) = 2"
  by (simp add: le16_def)

lemma length_le32 [simp]: "length (le32 w) = 4"
  by (simp add: le32_def)

lemma length_be16 [simp]: "length (be16 w) = 2"
  by (simp add: be16_def)

lemma length_be32 [simp]: "length (be32 w) = 4"
  by (simp add: be32_def)

lemma rd16le_le16: "rd16le (le16 w @ rest) 0 = Some w"
proof -
  have "(ucast (ucast w :: u8) :: u16) OR push_bit 8 (ucast (ucast (drop_bit 8 w) :: u8)) = w"
    by (rule bit_word_eqI) (auto simp: bit_simps)
  then show ?thesis by (simp add: rd16le_def le16_def)
qed

lemma rd32le_le32: "rd32le (le32 w @ rest) 0 = Some w"
proof -
  have "(ucast (ucast w :: u8) :: u32) OR push_bit 8 (ucast (ucast (drop_bit 8 w) :: u8))
      OR push_bit 16 (ucast (ucast (drop_bit 16 w) :: u8))
      OR push_bit 24 (ucast (ucast (drop_bit 24 w) :: u8)) = w" (is "?l = w")
  proof (rule bit_word_eqI)
    fix n :: nat
    assume "n < LENGTH(32)"
    then show "bit ?l n = bit w n"
      by (cases "n < 8"; cases "n < 16"; cases "n < 24") (auto simp: bit_simps)
  qed
  then show ?thesis by (simp add: rd32le_def le32_def numeral_eq_Suc)
qed

lemma sint_small:
  assumes "unat w < 2 ^ 63"
  shows "sint (w :: u64) = int (unat w)"
proof -
  from assms have "int (unat w) < int (2 ^ 63)" by (simp only: of_nat_less_iff)
  then have "uint w < 2 ^ 63" by simp
  moreover have "0 \<le> uint w" by simp
  ultimately have "signed_take_bit 63 (uint w) = uint w" by (intro signed_take_bit_int_eq_self) linarith+
  then show ?thesis by (simp add: sint_uint)
qed

end
