(* ===== verification/Dll.thy ===== *)
theory Dll
  imports Prelude
begin

section \<open>Intrusive doubly linked lists\<close>

text \<open>
  The free lists of the page allocator, the run queues of the scheduler and the LRU list of the
  page cache are doubly linked lists threaded through the objects themselves (\<open>next\<close>/\<open>prev\<close>
  fields). This theory relates such a list to the HOL list of its members: \<open>links nxt prv b xs a\<close>
  says that the objects \<open>xs\<close> are chained in this order, that the first has predecessor \<open>b\<close> and
  the last has successor \<open>a\<close>. The lemmas give the effect of the three pointer updates the kernel
  uses (push at the head, append at the tail, unlink), and the frame rule that lists are not
  disturbed by writes to other objects.
\<close>

fun first_or :: "'a option \<Rightarrow> 'a list \<Rightarrow> 'a option" where
  "first_or a [] = a"
| "first_or a (x # xs) = Some x"

fun last_or :: "'a option \<Rightarrow> 'a list \<Rightarrow> 'a option" where
  "last_or b [] = b"
| "last_or b (x # xs) = last_or (Some x) xs"

fun links :: "('a \<Rightarrow> 'a option) \<Rightarrow> ('a \<Rightarrow> 'a option) \<Rightarrow> 'a option \<Rightarrow> 'a list \<Rightarrow> 'a option \<Rightarrow> bool" where
  "links nxt prv b [] a = True"
| "links nxt prv b (x # xs) a =
     (prv x = b \<and> nxt x = first_or a xs \<and> links nxt prv (Some x) xs a)"

lemma last_or_snoc [simp]: "last_or b (xs @ [x]) = Some x"
  by (induction xs arbitrary: b) auto

lemma last_or_conv: "last_or b xs = (if xs = [] then b else Some (last xs))"
  by (induction xs arbitrary: b) auto

lemma first_or_conv: "first_or a xs = (if xs = [] then a else Some (hd xs))"
  by (cases xs) auto

lemma last_or_in: "last_or None xs = Some x \<Longrightarrow> x \<in> set xs"
  by (auto simp: last_or_conv split: if_splits)

lemma first_or_in: "first_or None xs = Some x \<Longrightarrow> x \<in> set xs"
  by (cases xs) auto

lemma first_or_append: "first_or a (xs @ ys) = first_or (first_or a ys) xs"
  by (cases xs) auto

lemma last_or_append: "last_or b (xs @ ys) = last_or (last_or b xs) ys"
  by (induction xs arbitrary: b) auto

lemma links_append:
  "links nxt prv b (xs @ ys) a \<longleftrightarrow>
     links nxt prv b xs (first_or a ys) \<and> links nxt prv (last_or b xs) ys a"
  by (induction xs arbitrary: b) (auto simp: first_or_append)

lemma links_cong:
  assumes "\<And>y. y \<in> set xs \<Longrightarrow> nxt' y = nxt y" and "\<And>y. y \<in> set xs \<Longrightarrow> prv' y = prv y"
  shows "links nxt' prv' b xs a = links nxt prv b xs a"
  using assms by (induction xs arbitrary: b) auto

text \<open>Only the first object stores its predecessor, only the last its successor.\<close>

lemma links_change_after:
  assumes "links nxt prv b (xs @ [x]) a" and "x \<notin> set xs"
    and "\<And>y. y \<in> set xs \<Longrightarrow> nxt' y = nxt y" and "nxt' x = a'"
    and "\<And>y. y \<in> set (xs @ [x]) \<Longrightarrow> prv' y = prv y"
  shows "links nxt' prv' b (xs @ [x]) a'"
proof -
  have "links nxt' prv' b xs (Some x)"
    using assms by (simp add: links_append links_cong [where nxt' = nxt' and prv' = prv' and nxt = nxt and prv = prv])
  then show ?thesis
    using assms by (simp add: links_append)
qed

lemma links_change_before:
  assumes "links nxt prv b (x # xs) a"
    and "\<And>y. y \<in> set (x # xs) \<Longrightarrow> nxt' y = nxt y"
    and "prv' x = b'" and "\<And>y. y \<in> set xs \<Longrightarrow> prv' y = prv y"
  shows "links nxt' prv' b' (x # xs) a"
  using assms links_cong [of xs nxt' nxt prv' prv "Some x" a] by simp

text \<open>Unlinking an object from the middle of a list.\<close>

lemma links_unlink:
  assumes l: "links nxt prv None (pre @ x # post) None"
    and d: "distinct (pre @ x # post)"
    and n1: "\<And>y. y \<in> set pre \<union> set post \<Longrightarrow> prv x \<noteq> Some y \<Longrightarrow> nxt' y = nxt y"
    and n2: "\<And>y. prv x = Some y \<Longrightarrow> nxt' y = nxt x"
    and p1: "\<And>y. y \<in> set pre \<union> set post \<Longrightarrow> nxt x \<noteq> Some y \<Longrightarrow> prv' y = prv y"
    and p2: "\<And>y. nxt x = Some y \<Longrightarrow> prv' y = prv x"
  shows "links nxt' prv' None (pre @ post) None"
proof -
  have px: "prv x = last_or None pre" and nx: "nxt x = first_or None post"
    and lpre: "links nxt prv None pre (Some x)" and lpost: "links nxt prv (Some x) post None"
    using l by (simp_all add: links_append)
  have A: "links nxt' prv' None pre (first_or None post)"
  proof (cases pre rule: rev_cases)
    case Nil
    then show ?thesis by simp
  next
    case (snoc ys y)
    have yp: "prv x = Some y" using px snoc by simp
    have "links nxt prv None (ys @ [y]) (Some x)" using lpre snoc by simp
    then have "links nxt' prv' None (ys @ [y]) (first_or None post)"
    proof (rule links_change_after)
      show "y \<notin> set ys" using d snoc by simp
      show "nxt' z = nxt z" if "z \<in> set ys" for z
        using n1 [of z] that snoc yp d by auto
      show "nxt' y = first_or None post" using n2 [OF yp] nx by simp
      show "prv' z = prv z" if "z \<in> set (ys @ [y])" for z
        using that snoc d nx by (intro p1) (cases post; auto)+
    qed
    then show ?thesis using snoc by simp
  qed
  have B: "links nxt' prv' (last_or None pre) post None"
  proof (cases post)
    case Nil
    then show ?thesis by simp
  next
    case (Cons z zs)
    have zn: "nxt x = Some z" using nx Cons by simp
    have "links nxt prv (Some x) (z # zs) None" using lpost Cons by simp
    then have "links nxt' prv' (last_or None pre) (z # zs) None"
    proof (rule links_change_before)
      show "prv' z = last_or None pre" using p2 [OF zn] px by simp
      show "nxt' w = nxt w" if "w \<in> set (z # zs)" for w
        using that Cons d px by (intro n1) (cases pre rule: rev_cases; auto)+
      show "prv' w = prv w" if "w \<in> set zs" for w
        using p1 [of w] that Cons zn d by auto
    qed
    then show ?thesis using Cons by simp
  qed
  show ?thesis using A B by (simp add: links_append)
qed

text \<open>Pushing an object in front of a list.\<close>

lemma links_push:
  assumes l: "links nxt prv None xs None" and x: "x \<notin> set xs"
    and "nxt' x = first_or None xs" and "prv' x = None"
    and n: "\<And>y. y \<in> set xs \<Longrightarrow> nxt' y = nxt y"
    and p1: "\<And>y. y \<in> set xs \<Longrightarrow> first_or None xs \<noteq> Some y \<Longrightarrow> prv' y = prv y"
    and p2: "\<And>y. first_or None xs = Some y \<Longrightarrow> prv' y = Some x"
    and d: "distinct xs"
  shows "links nxt' prv' None (x # xs) None"
proof -
  have "links nxt' prv' (Some x) xs None"
  proof (cases xs)
    case Nil
    then show ?thesis by simp
  next
    case (Cons z zs)
    have "links nxt prv None (z # zs) None" using l Cons by simp
    then have "links nxt' prv' (Some x) (z # zs) None"
      by (rule links_change_before) (use n p1 p2 Cons d in auto)
    then show ?thesis using Cons by simp
  qed
  with assms show ?thesis by simp
qed

text \<open>Appending an object behind a list.\<close>

lemma links_snoc:
  assumes l: "links nxt prv None xs None" and x: "x \<notin> set xs"
    and "nxt' x = None" and "prv' x = last_or None xs"
    and n1: "\<And>y. y \<in> set xs \<Longrightarrow> last_or None xs \<noteq> Some y \<Longrightarrow> nxt' y = nxt y"
    and n2: "\<And>y. last_or None xs = Some y \<Longrightarrow> nxt' y = Some x"
    and p: "\<And>y. y \<in> set xs \<Longrightarrow> prv' y = prv y"
    and d: "distinct xs"
  shows "links nxt' prv' None (xs @ [x]) None"
proof -
  have "links nxt' prv' None xs (Some x)"
  proof (cases xs rule: rev_cases)
    case Nil
    then show ?thesis by simp
  next
    case (snoc ys y)
    have "links nxt prv None (ys @ [y]) None" using l snoc by simp
    then have "links nxt' prv' None (ys @ [y]) (Some x)"
      by (rule links_change_after) (use n1 n2 p snoc d in auto)
    then show ?thesis using snoc by simp
  qed
  with assms show ?thesis by (simp add: links_append)
qed

text \<open>The neighbours of a member.\<close>

lemma links_neighbours:
  assumes "links nxt prv None xs None" and "x \<in> set xs"
  obtains pre post where "xs = pre @ x # post" and "prv x = last_or None pre"
    and "nxt x = first_or None post"
proof -
  obtain pre post where "xs = pre @ x # post"
    using in_set_split [OF assms(2)] by blast
  with assms(1) that show thesis by (simp add: links_append)
qed

lemma links_member_alone:
  assumes "links nxt prv None xs None" and "x \<in> set xs" and "nxt x = None" and "prv x = None"
  shows "xs = [x]"
proof -
  from assms(1,2) obtain pre post where xs: "xs = pre @ x # post"
    and p: "prv x = last_or None pre" and n: "nxt x = first_or None post"
    by (rule links_neighbours)
  have "pre = []" using p assms(4) by (cases pre rule: rev_cases) auto
  moreover have "post = []" using n assms(3) by (cases post) auto
  ultimately show ?thesis using xs by simp
qed

lemma links_nxt_in:
  assumes "links nxt prv None xs None" and "x \<in> set xs" and "nxt x = Some y"
  shows "y \<in> set xs"
proof -
  from assms(1,2) obtain pre post where "xs = pre @ x # post" and "nxt x = first_or None post"
    by (rule links_neighbours)
  with assms(3) show ?thesis by (cases post) auto
qed

lemma links_prv_in:
  assumes "links nxt prv None xs None" and "x \<in> set xs" and "prv x = Some y"
  shows "y \<in> set xs"
proof -
  from assms(1,2) obtain pre post where "xs = pre @ x # post" and "prv x = last_or None pre"
    by (rule links_neighbours)
  with assms(3) show ?thesis by (cases pre rule: rev_cases) auto
qed

end
