(* ===== verification/Sched.thy ===== *)
theory Sched
  imports Dll
begin

section \<open>The scheduler (\<open>kernel/proc/sched.c\<close>)\<close>

text \<open>
  The \<open>O(1)\<close> priority scheduler: 32 doubly linked run queues with a bitmap of the non-empty ones,
  the sleep queue ordered by deadline, the table of I/O waiters and the context switch.
  Tasks are numbered; \<open>None\<close> is the \<open>NULL\<close> task. The run queues are modelled with their
  \<open>sched_next\<close>/\<open>sched_prev\<close> pointers, because the guards of \<open>sched_enqueue\<close> and
  \<open>sched_dequeue\<close> look at them. The sleep queue is singly linked and only walked from its head,
  and the waiter table is only used up to its count: both are lists. The registers that the
  context switch saves and restores with inline assembly are fields of the state (\<open>cpu_*\<close>).
\<close>

subsection \<open>Data\<close>

datatype task_state =
  TASK_STATE_RUNNABLE | TASK_STATE_SLEEPING | TASK_STATE_BLOCKED | TASK_STATE_ZOMBIE

record task =
  rsp :: u64
  kstack_at_bottom :: u64
  tstate :: task_state
  running :: bool
  priority :: u8
  time_slice :: u64
  sleep_until :: u64
  fs_base :: u64
  process_cr3 :: "u64 option"
  fpu_state :: nat
  sched_next :: "nat option"
  sched_prev :: "nat option"

record sched =
  tasks :: "nat \<Rightarrow> task"
  run_queues :: "nat \<Rightarrow> nat option"
  run_queues_tail :: "nat \<Rightarrow> nat option"
  active_priority_bitmap :: u32
  sleep_queue :: "nat list"
  io_waiters :: "nat list"
  current_task :: "nat option"
  idle_task :: "nat option"
  kernel_cr3 :: u64
  cpu_cr3 :: u64
  cpu_fpu :: nat
  cpu_tss_stack :: u64
  cpu_fs_base :: u64

abbreviation (input) NUM_PRIORITIES :: nat where "NUM_PRIORITIES \<equiv> 32"
abbreviation (input) PRIO_INTERACTIVE :: u8 where "PRIO_INTERACTIVE \<equiv> 8"
abbreviation (input) PRIO_NORMAL :: nat where "PRIO_NORMAL \<equiv> 16"
abbreviation (input) MAX_IO_WAITERS :: nat where "MAX_IO_WAITERS \<equiv> 64"

definition upd_task :: "nat \<Rightarrow> (task \<Rightarrow> task) \<Rightarrow> sched \<Rightarrow> sched" where
  "upd_task t f s = s\<lparr>tasks := (tasks s)(t := f (tasks s t))\<rparr>"

subsection \<open>Run queues\<close>

definition queue_prio :: "sched \<Rightarrow> nat \<Rightarrow> nat" where
  "queue_prio s t = (let prio = unat (priority (tasks s t)) in
     if prio \<ge> NUM_PRIORITIES then PRIO_NORMAL else prio)"

fun sched_enqueue :: "nat option \<Rightarrow> sched \<Rightarrow> sched" where
  "sched_enqueue None s = s"
| "sched_enqueue (Some t) s =
     (let prio = queue_prio s t in
      if sched_next (tasks s t) \<noteq> None \<or> sched_prev (tasks s t) \<noteq> None \<or> run_queues s prio = Some t
      then s
      else
        let tl = run_queues_tail s prio;
            s1 = upd_task t (\<lambda>k. k\<lparr>tstate := TASK_STATE_RUNNABLE, running := True,
                                    sched_next := None, sched_prev := tl\<rparr>) s;
            s2 = (case tl of
                    Some l \<Rightarrow> upd_task l (\<lambda>k. k\<lparr>sched_next := Some t\<rparr>) s1
                  | None \<Rightarrow> s1\<lparr>run_queues := (run_queues s1)(prio := Some t)\<rparr>)
        in s2\<lparr>run_queues_tail := (run_queues_tail s2)(prio := Some t),
              active_priority_bitmap := active_priority_bitmap s2 OR push_bit prio 1\<rparr>)"

fun sched_dequeue :: "nat option \<Rightarrow> sched \<Rightarrow> sched" where
  "sched_dequeue None s = s"
| "sched_dequeue (Some t) s =
     (let prio = queue_prio s t in
      if sched_prev (tasks s t) = None \<and> sched_next (tasks s t) = None \<and> run_queues s prio \<noteq> Some t
      then s
      else
        let nx = sched_next (tasks s t); pv = sched_prev (tasks s t);
            s1 = (case pv of
                    Some q \<Rightarrow> upd_task q (\<lambda>k. k\<lparr>sched_next := nx\<rparr>) s
                  | None \<Rightarrow> s\<lparr>run_queues := (run_queues s)(prio := nx)\<rparr>);
            s2 = (case nx of
                    Some q \<Rightarrow> upd_task q (\<lambda>k. k\<lparr>sched_prev := pv\<rparr>) s1
                  | None \<Rightarrow> s1\<lparr>run_queues_tail := (run_queues_tail s1)(prio := pv)\<rparr>);
            s3 = upd_task t (\<lambda>k. k\<lparr>sched_next := None, sched_prev := None\<rparr>) s2
        in if run_queues s3 prio = None
           then s3\<lparr>active_priority_bitmap := active_priority_bitmap s3 AND NOT (push_bit prio 1)\<rparr>
           else s3)"

fun sched_block :: "nat option \<Rightarrow> sched \<Rightarrow> sched" where
  "sched_block None s = s"
| "sched_block (Some t) s =
     upd_task t (\<lambda>k. k\<lparr>tstate := TASK_STATE_BLOCKED, running := False\<rparr>) (sched_dequeue (Some t) s)"

definition sched_unblock :: "nat option \<Rightarrow> sched \<Rightarrow> sched" where
  "sched_unblock task s = sched_enqueue task s"

definition sched_init :: "u64 \<Rightarrow> nat \<Rightarrow> sched \<Rightarrow> sched" where
  "sched_init cr3 t s =
     (let s1 = s\<lparr>kernel_cr3 := cr3\<rparr>;
          s2 = upd_task t (\<lambda>k. k\<lparr>tstate := TASK_STATE_RUNNABLE, running := True,
                 priority := PRIO_INTERACTIVE, time_slice := 10, sched_next := None, sched_prev := None\<rparr>) s1
      in sched_enqueue (Some t) (s2\<lparr>current_task := Some t\<rparr>))"

subsection \<open>The sleep queue\<close>

text \<open>
  The walk of \<open>sched_make_sleep\<close> to the last sleeper that is not due later. The list view assumes
  that the task is not in the queue yet (a running task puts itself to sleep): for a queued one the
  assignment \<open>task->sleep_next = NULL\<close> would cut the chain.
\<close>

fun sleep_insert :: "(nat \<Rightarrow> u64) \<Rightarrow> nat \<Rightarrow> u64 \<Rightarrow> nat list \<Rightarrow> nat list" where
  "sleep_insert due t until [] = [t]"
| "sleep_insert due t until (q # qs) =
     (if until < due q then t # q # qs else q # sleep_insert due t until qs)"

fun sched_make_sleep :: "nat option \<Rightarrow> u64 \<Rightarrow> sched \<Rightarrow> sched" where
  "sched_make_sleep None until s = s"
| "sched_make_sleep (Some t) until s =
     (let s1 = upd_task t (\<lambda>k. k\<lparr>tstate := TASK_STATE_SLEEPING, running := False,
                                  sleep_until := until\<rparr>) s
      in s1\<lparr>sleep_queue := sleep_insert (\<lambda>q. sleep_until (tasks s1 q)) t until (sleep_queue s1)\<rparr>)"

fun sched_wake :: "nat option \<Rightarrow> sched \<Rightarrow> sched" where
  "sched_wake None s = s"
| "sched_wake (Some t) s =
     (if tstate (tasks s t) \<noteq> TASK_STATE_SLEEPING then s
      else sched_enqueue (Some t)
             (upd_task t (\<lambda>k. k\<lparr>sleep_until := 0\<rparr>)
               (s\<lparr>sleep_queue := remove1 t (sleep_queue s)\<rparr>)))"

function (sequential) sched_timer_tick :: "u32 \<Rightarrow> sched \<Rightarrow> sched" where
  "sched_timer_tick now s =
     (case sleep_queue s of
        [] \<Rightarrow> s
      | t # rest \<Rightarrow>
          if ucast now \<ge> sleep_until (tasks s t)
          then sched_timer_tick now
                 (sched_enqueue (Some t)
                   (upd_task t (\<lambda>k. k\<lparr>sleep_until := 0\<rparr>) (s\<lparr>sleep_queue := rest\<rparr>)))
          else s)"
  by pat_completeness auto

lemma sleep_queue_upd_task [simp]: "sleep_queue (upd_task t f s) = sleep_queue s"
  by (simp add: upd_task_def)

lemma sleep_queue_enqueue [simp]: "sleep_queue (sched_enqueue t s) = sleep_queue s"
  by (cases t) (auto simp: Let_def split: option.split)

declare sched_enqueue.simps [simp del] sched_dequeue.simps [simp del]

termination sched_timer_tick
  by (relation "measure (\<lambda>(now, s). length (sleep_queue s))") auto

declare sched_timer_tick.simps [simp del]

subsection \<open>I/O waiters\<close>

text \<open>Removing slot \<open>i\<close> moves the last waiter into it.\<close>

fun waiter_remove :: "nat \<Rightarrow> nat list \<Rightarrow> nat list" where
  "waiter_remove t [] = []"
| "waiter_remove t (w # ws) =
     (if w = t then (if ws = [] then [] else last ws # butlast ws) else w # waiter_remove t ws)"

fun sched_forget :: "nat option \<Rightarrow> sched \<Rightarrow> sched" where
  "sched_forget None s = s"
| "sched_forget (Some t) s =
     (let s1 = sched_dequeue (Some t) s
      in s1\<lparr>sleep_queue := remove1 t (sleep_queue s1), io_waiters := waiter_remove t (io_waiters s1)\<rparr>)"

definition io_wait_prepare :: "sched \<Rightarrow> sched" where
  "io_wait_prepare s =
     (case current_task s of
        None \<Rightarrow> s
      | Some t \<Rightarrow>
          if t \<in> set (io_waiters s) then s
          else if length (io_waiters s) < MAX_IO_WAITERS
          then s\<lparr>io_waiters := io_waiters s @ [t]\<rparr> else s)"

definition io_wait_done :: "sched \<Rightarrow> sched" where
  "io_wait_done s =
     (case current_task s of
        None \<Rightarrow> s
      | Some t \<Rightarrow> s\<lparr>io_waiters := waiter_remove t (io_waiters s)\<rparr>)"

definition io_wake_all :: "sched \<Rightarrow> sched" where
  "io_wake_all s = (fold (\<lambda>t. sched_wake (Some t)) (io_waiters s) s)\<lparr>io_waiters := []\<rparr>"

subsection \<open>The context switch\<close>

text \<open>\<open>__builtin_ctz\<close>: the number of trailing zero bits (the code calls it on a non-zero bitmap).\<close>

definition ctz32 :: "u32 \<Rightarrow> nat" where
  "ctz32 w = length (takeWhile (\<lambda>i. \<not> bit w i) [0..<32])"

text \<open>
  The part of \<open>sched_switch\<close> behind \<open>if (current_task != prev_task)\<close>: the FPU registers are saved
  into the old task and loaded from the new one, then the address space, the kernel stack of the
  TSS and the FS base are switched.
\<close>

definition switch_hw :: "nat \<Rightarrow> nat \<Rightarrow> sched \<Rightarrow> sched" where
  "switch_hw prev cur s =
     (let s1 = upd_task prev (\<lambda>k. k\<lparr>fpu_state := cpu_fpu s\<rparr>) s;
          s2 = s1\<lparr>cpu_fpu := fpu_state (tasks s1 cur)\<rparr>;
          new_cr3 = (case process_cr3 (tasks s2 cur) of
                       Some c \<Rightarrow> if c \<noteq> 0 then c else kernel_cr3 s2
                     | None \<Rightarrow> kernel_cr3 s2);
          s3 = (if cpu_cr3 s2 \<noteq> new_cr3 then s2\<lparr>cpu_cr3 := new_cr3\<rparr> else s2);
          s4 = s3\<lparr>cpu_tss_stack := kstack_at_bottom (tasks s3 cur)\<rparr>
      in if fs_base (tasks s4 cur) \<noteq> 0 then s4\<lparr>cpu_fs_base := fs_base (tasks s4 cur)\<rparr> else s4)"

definition sched_switch :: "u64 \<Rightarrow> sched \<Rightarrow> u64 \<times> sched" where
  "sched_switch current_rsp s =
     (case current_task s of
        None \<Rightarrow> (current_rsp, s)
      | Some prev \<Rightarrow>
          let s1 = upd_task prev (\<lambda>k. k\<lparr>rsp := current_rsp\<rparr>) s;
              s2 = (if Some prev \<noteq> idle_task s1 then
                      let d = sched_dequeue (Some prev) s1
                      in if tstate (tasks d prev) = TASK_STATE_RUNNABLE
                         then sched_enqueue (Some prev) d else d
                    else s1)
          in if active_priority_bitmap s2 = 0 \<and> idle_task s2 = None then (current_rsp, s2)
             else
               let s3 = s2\<lparr>current_task :=
                          (if active_priority_bitmap s2 = 0 then idle_task s2
                           else run_queues s2 (ctz32 (active_priority_bitmap s2)))\<rparr>
               in (case current_task s3 of
                     None \<Rightarrow> (current_rsp, s3)
                   | Some cur \<Rightarrow>
                       let s4 = (if cur \<noteq> prev then switch_hw prev cur s3 else s3)
                       in (rsp (tasks s4 cur), s4)))"


subsection \<open>Correctness of the run queues\<close>

lemma upd_task_sel [simp]:
  "tasks (upd_task t f s) = (tasks s)(t := f (tasks s t))"
  "run_queues (upd_task t f s) = run_queues s"
  "run_queues_tail (upd_task t f s) = run_queues_tail s"
  "active_priority_bitmap (upd_task t f s) = active_priority_bitmap s"
  "io_waiters (upd_task t f s) = io_waiters s"
  "current_task (upd_task t f s) = current_task s"
  "idle_task (upd_task t f s) = idle_task s"
  by (simp_all add: upd_task_def)

lemma queue_prio_less: "queue_prio s t < NUM_PRIORITIES"
  by (simp add: queue_prio_def Let_def)

abbreviation snext :: "sched \<Rightarrow> nat \<Rightarrow> nat option" where
  "snext s t \<equiv> sched_next (tasks s t)"
abbreviation sprev :: "sched \<Rightarrow> nat \<Rightarrow> nat option" where
  "sprev s t \<equiv> sched_prev (tasks s t)"

text \<open>
  The scheduler state \<open>s\<close> represents the priority queues \<open>Q\<close>: every queue is a well-linked list
  with its head and tail pointers, holds the tasks of its priority only, the bitmap has exactly the
  bits of the non-empty queues, and tasks outside all queues have clean links.
\<close>

definition rq_queue :: "sched \<Rightarrow> nat \<Rightarrow> nat list \<Rightarrow> bool" where
  "rq_queue s p xs \<longleftrightarrow>
     links (snext s) (sprev s) None xs None \<and> distinct xs \<and>
     run_queues s p = first_or None xs \<and> run_queues_tail s p = last_or None xs \<and>
     (\<forall>t \<in> set xs. queue_prio s t = p) \<and> bit (active_priority_bitmap s) p = (xs \<noteq> [])"

definition rq_inv :: "sched \<Rightarrow> (nat \<Rightarrow> nat list) \<Rightarrow> bool" where
  "rq_inv s Q \<longleftrightarrow>
     (\<forall>p < NUM_PRIORITIES. rq_queue s p (Q p)) \<and>
     (\<forall>t. t \<notin> set (Q (queue_prio s t)) \<longrightarrow> snext s t = None \<and> sprev s t = None)"

lemma rq_invI:
  assumes "\<And>p. p < NUM_PRIORITIES \<Longrightarrow> rq_queue s p (Q p)"
    and "\<And>t. t \<notin> set (Q (queue_prio s t)) \<Longrightarrow> snext s t = None \<and> sprev s t = None"
  shows "rq_inv s Q"
  using assms by (simp add: rq_inv_def)

lemma rq_inv_queue: "rq_inv s Q \<Longrightarrow> p < NUM_PRIORITIES \<Longrightarrow> rq_queue s p (Q p)"
  by (simp add: rq_inv_def)

lemma rq_inv_prio:
  "rq_inv s Q \<Longrightarrow> p < NUM_PRIORITIES \<Longrightarrow> t \<in> set (Q p) \<Longrightarrow> queue_prio s t = p"
  by (auto simp: rq_inv_def rq_queue_def)

text \<open>The facts of \<open>rq_queue\<close> that are safe as rewrite rules.\<close>

lemma rq_queueD:
  assumes "rq_queue s p xs"
  shows "links (snext s) (sprev s) None xs None" and "distinct xs"
    and "run_queues s p = first_or None xs" and "run_queues_tail s p = last_or None xs"
    and "bit (active_priority_bitmap s) p = (xs \<noteq> [])"
  using assms by (simp_all add: rq_queue_def)

lemma rq_queue_guard:
  assumes "rq_inv s Q"
  shows "(snext s t = None \<and> sprev s t = None \<and> run_queues s (queue_prio s t) \<noteq> Some t)
     \<longleftrightarrow> t \<notin> set (Q (queue_prio s t))"
proof -
  let ?xs = "Q (queue_prio s t)"
  have q: "rq_queue s (queue_prio s t) ?xs"
    using assms queue_prio_less by (rule rq_inv_queue)
  note q = rq_queueD [OF q]
  show ?thesis
  proof (cases "t \<in> set ?xs")
    case True
    then have "?xs = [t]" if "snext s t = None" and "sprev s t = None"
      using links_member_alone [OF q(1) _ that] by simp
    then have "run_queues s (queue_prio s t) = Some t"
      if "snext s t = None" and "sprev s t = None"
      using q(3) that by simp
    with True show ?thesis by blast
  next
    case False
    then have "snext s t = None" and "sprev s t = None"
      using assms by (simp_all add: rq_inv_def)
    moreover have "run_queues s (queue_prio s t) \<noteq> Some t"
      using q(3) False by (cases ?xs) auto
    ultimately show ?thesis using False by simp
  qed
qed

text \<open>Enqueueing a task that is already queued does nothing, otherwise it becomes the last.\<close>

lemma enqueue_member:
  "rq_inv s Q \<Longrightarrow> t \<in> set (Q (queue_prio s t)) \<Longrightarrow> sched_enqueue (Some t) s = s"
  using rq_queue_guard [of s Q t] by (auto simp: sched_enqueue.simps Let_def)

lemma enqueue_eq:
  assumes "rq_inv s Q" and "t \<notin> set (Q (queue_prio s t))"
  defines "p \<equiv> queue_prio s t"
  defines "ts1 \<equiv> (tasks s)(t := tasks s t\<lparr>tstate := TASK_STATE_RUNNABLE, running := True,
                     sched_next := None, sched_prev := last_or None (Q p)\<rparr>)"
  shows "sched_enqueue (Some t) s = s\<lparr>
           tasks := (case last_or None (Q p) of None \<Rightarrow> ts1
                     | Some l \<Rightarrow> ts1(l := tasks s l\<lparr>sched_next := Some t\<rparr>)),
           run_queues := (run_queues s)(p := first_or None (Q p @ [t])),
           run_queues_tail := (run_queues_tail s)(p := Some t),
           active_priority_bitmap := active_priority_bitmap s OR push_bit p 1\<rparr>"
proof -
  have q: "rq_queue s p (Q p)"
    unfolding p_def using assms(1) queue_prio_less by (rule rq_inv_queue)
  have g: "snext s t = None" "sprev s t = None" "run_queues s p \<noteq> Some t"
    using rq_queue_guard [OF assms(1), of t] assms(2) by (simp_all add: p_def)
  have tl: "run_queues_tail s p = last_or None (Q p)" and hd: "run_queues s p = first_or None (Q p)"
    using rq_queueD [OF q] by simp_all
  show ?thesis
  proof (cases "Q p")
    case Nil
    with g tl show ?thesis
      by (simp add: sched_enqueue.simps Let_def p_def [symmetric] ts1_def upd_task_def)
  next
    case (Cons x xs)
    then obtain l where l: "last_or None (Q p) = Some l" and lin: "l \<in> set (Q p)"
      by (metis last_in_set last_or_conv list.discI)
    then have "l \<noteq> t" using assms(2) by (auto simp: p_def)
    moreover have "(run_queues s)(p := Some x) = run_queues s"
      using hd Cons by (auto simp: fun_eq_iff)
    ultimately show ?thesis using g tl l Cons
      by (simp add: sched_enqueue.simps Let_def p_def [symmetric] ts1_def upd_task_def)
  qed
qed


lemma queue_prio_cong:
  "priority (tasks s' t) = priority (tasks s t) \<Longrightarrow> queue_prio s' t = queue_prio s t"
  by (simp add: queue_prio_def)

text \<open>A change that touches only tasks outside a queue, and none of its pointers, keeps it.\<close>

lemma rq_queue_frame:
  assumes "rq_queue s p xs"
    and "\<And>t. t \<in> set xs \<Longrightarrow> tasks s' t = tasks s t"
    and "run_queues s' p = run_queues s p" and "run_queues_tail s' p = run_queues_tail s p"
    and "bit (active_priority_bitmap s') p = bit (active_priority_bitmap s) p"
  shows "rq_queue s' p xs"
proof -
  have "queue_prio s' t = p" if "t \<in> set xs" for t
    using assms(1,2) that queue_prio_cong [of s' t s] by (simp add: rq_queue_def)
  then show ?thesis
    using assms links_cong [of xs "snext s'" "snext s" "sprev s'" "sprev s" None None]
    by (simp add: rq_queue_def)
qed

lemma rq_inv_disjoint:
  assumes "rq_inv s Q" and "p < NUM_PRIORITIES" and "r < NUM_PRIORITIES" and "p \<noteq> r"
    and "t \<in> set (Q p)"
  shows "t \<notin> set (Q r)"
  using assms rq_inv_prio by blast

definition abs_enqueue :: "nat \<Rightarrow> nat \<Rightarrow> (nat \<Rightarrow> nat list) \<Rightarrow> nat \<Rightarrow> nat list" where
  "abs_enqueue p t Q = (if t \<in> set (Q p) then Q else Q(p := Q p @ [t]))"

definition abs_dequeue :: "nat \<Rightarrow> nat \<Rightarrow> (nat \<Rightarrow> nat list) \<Rightarrow> nat \<Rightarrow> nat list" where
  "abs_dequeue p t Q = Q(p := remove1 t (Q p))"

lemma sched_enqueue_priority [simp]:
  "priority (tasks (sched_enqueue t s) u) = priority (tasks s u)"
  by (cases t) (auto simp: sched_enqueue.simps Let_def split: option.split)

lemma sched_dequeue_priority [simp]:
  "priority (tasks (sched_dequeue t s) u) = priority (tasks s u)"
  by (cases t) (auto simp: sched_dequeue.simps Let_def split: option.split)

lemma queue_prio_ops [simp]:
  "queue_prio (sched_enqueue t s) u = queue_prio s u"
  "queue_prio (sched_dequeue t s) u = queue_prio s u"
  by (rule queue_prio_cong, simp)+

lemma rq_enqueue_new:
  assumes inv: "rq_inv s Q" and new: "t \<notin> set (Q (queue_prio s t))"
  shows "rq_inv (sched_enqueue (Some t) s) (Q(queue_prio s t := Q (queue_prio s t) @ [t]))"
proof -
  define p where "p = queue_prio s t"
  let ?s = "sched_enqueue (Some t) s"
  let ?ts1 = "(tasks s)(t := tasks s t\<lparr>tstate := TASK_STATE_RUNNABLE, running := True,
                     sched_next := None, sched_prev := last_or None (Q p)\<rparr>)"
  note eq = enqueue_eq [OF inv new, folded p_def]
  have p: "p < NUM_PRIORITIES" by (simp add: p_def queue_prio_less)
  note q = rq_queueD [OF rq_inv_queue [OF inv p]]
  have new': "t \<notin> set (Q p)" using new by (simp add: p_def)
  have lin: "l \<in> set (Q p)" if "last_or None (Q p) = Some l" for l
    using that by (auto simp: last_or_conv split: if_splits)
  have other: "tasks ?s u = tasks s u" if "u \<noteq> t" "last_or None (Q p) \<noteq> Some u" for u
    using that by (simp add: eq split: option.split)
  have nx: "snext ?s u = (if u = t then None else if last_or None (Q p) = Some u then Some t else snext s u)"
    for u using lin new' by (auto simp: eq split: option.split)
  have pv: "sprev ?s u = (if u = t then last_or None (Q p) else sprev s u)" for u
    using lin new' by (auto simp: eq split: option.split)
  have "links (snext ?s) (sprev ?s) None (Q p @ [t]) None"
    by (rule links_snoc [OF q(1) new']) (use q(2) new' lin in \<open>auto simp: nx pv\<close>)
  moreover have "bit (active_priority_bitmap ?s) p"
    using p by (simp add: eq bit_simps)
  moreover have "\<forall>u \<in> set (Q p @ [t]). queue_prio ?s u = p"
    using rq_inv_prio [OF inv p] by (auto simp: p_def)
  ultimately have A: "rq_queue ?s p (Q p @ [t])"
    using q(2) new' by (simp add: rq_queue_def) (simp add: eq)
  have B: "rq_queue ?s r (Q r)" if r: "r < NUM_PRIORITIES" and "r \<noteq> p" for r
  proof (rule rq_queue_frame [OF rq_inv_queue [OF inv r]])
    fix u assume u: "u \<in> set (Q r)"
    have "u \<noteq> t" using rq_inv_prio [OF inv r u] \<open>r \<noteq> p\<close> by (auto simp: p_def)
    moreover have "last_or None (Q p) \<noteq> Some u"
      using lin rq_inv_disjoint [OF inv r p \<open>r \<noteq> p\<close> u] by blast
    ultimately show "tasks ?s u = tasks s u" by (rule other)
  qed (use \<open>r \<noteq> p\<close> in \<open>auto simp: eq bit_simps\<close>)
  have C: "snext ?s u = None \<and> sprev ?s u = None" if "u \<notin> set ((Q(p := Q p @ [t])) (queue_prio ?s u))" for u
  proof -
    have "u \<noteq> t" using that by (auto simp: p_def)
    moreover have "u \<notin> set (Q (queue_prio s u))"
      using that by (auto split: if_splits)
    moreover have "last_or None (Q p) \<noteq> Some u"
      using lin rq_inv_prio [OF inv p] calculation(2) by blast
    ultimately show ?thesis using inv nx pv by (simp add: rq_inv_def)
  qed
  show ?thesis
    unfolding p_def [symmetric]
  proof (rule rq_invI)
    show "rq_queue ?s r ((Q(p := Q p @ [t])) r)" if "r < NUM_PRIORITIES" for r
      using A B that by (cases "r = p") simp_all
  qed (rule C)
qed

lemma rq_enqueue [inv_intros]:
  assumes "rq_inv s Q"
  shows "rq_inv (sched_enqueue (Some t) s) (abs_enqueue (queue_prio s t) t Q)"
  using assms rq_enqueue_new enqueue_member by (simp add: abs_enqueue_def)


text \<open>Dequeueing a task that is in no queue does nothing, otherwise it is unlinked.\<close>

lemma dequeue_not_member:
  "rq_inv s Q \<Longrightarrow> t \<notin> set (Q (queue_prio s t)) \<Longrightarrow> sched_dequeue (Some t) s = s"
  using rq_queue_guard [of s Q t] by (auto simp: sched_dequeue.simps Let_def)

lemma dequeue_member_sel:
  assumes inv: "rq_inv s Q" and t: "t \<in> set (Q (queue_prio s t))"
  defines "p \<equiv> queue_prio s t" and "s' \<equiv> sched_dequeue (Some t) s"
  shows "\<And>u. snext s' u = (if u = t then None else if sprev s t = Some u then snext s t else snext s u)"
    and "\<And>u. sprev s' u = (if u = t then None else if snext s t = Some u then sprev s t else sprev s u)"
    and "run_queues s' = (if sprev s t = None then (run_queues s)(p := snext s t) else run_queues s)"
    and "run_queues_tail s' = (if snext s t = None then (run_queues_tail s)(p := sprev s t) else run_queues_tail s)"
    and "active_priority_bitmap s' = (if run_queues s' p = None
           then active_priority_bitmap s AND NOT (push_bit p 1) else active_priority_bitmap s)"
proof -
  have q: "rq_queue s p (Q p)"
    unfolding p_def using inv queue_prio_less by (rule rq_inv_queue)
  have g: "\<not> (sprev s t = None \<and> snext s t = None \<and> run_queues s p \<noteq> Some t)"
    using rq_queue_guard [OF inv, of t] t by (auto simp: p_def)
  from t obtain pre post where sp: "Q p = pre @ t # post"
    and pv: "sprev s t = last_or None pre" and nx: "snext s t = first_or None post"
    using rq_queueD(1) [OF q] by (auto simp: p_def elim: links_neighbours)
  have neq: "snext s t \<noteq> Some t" "sprev s t \<noteq> Some t"
    using rq_queueD(2) [OF q] sp pv nx by (auto simp: first_or_conv last_or_conv)
  note defs = s'_def sched_dequeue.simps Let_def p_def [symmetric]
  show "snext s' u = (if u = t then None else if sprev s t = Some u then snext s t else snext s u)" for u
    using g neq by (auto simp: defs split: option.split)
  show "sprev s' u = (if u = t then None else if snext s t = Some u then sprev s t else sprev s u)" for u
    using g neq by (auto simp: defs split: option.split)
  show "run_queues s' = (if sprev s t = None then (run_queues s)(p := snext s t) else run_queues s)"
    using g by (auto simp: defs split: option.split)
  show "run_queues_tail s' = (if snext s t = None then (run_queues_tail s)(p := sprev s t) else run_queues_tail s)"
    using g by (auto simp: defs split: option.split)
  show "active_priority_bitmap s' = (if run_queues s' p = None
           then active_priority_bitmap s AND NOT (push_bit p 1) else active_priority_bitmap s)"
    using g by (auto simp: defs split: option.split)
qed

lemma rq_dequeue_member:
  assumes inv: "rq_inv s Q" and t: "t \<in> set (Q (queue_prio s t))"
  shows "rq_inv (sched_dequeue (Some t) s) (abs_dequeue (queue_prio s t) t Q)"
proof -
  define p where "p = queue_prio s t"
  let ?s = "sched_dequeue (Some t) s"
  have p: "p < NUM_PRIORITIES" by (simp add: p_def queue_prio_less)
  note q = rq_queueD [OF rq_inv_queue [OF inv p]]
  note sel = dequeue_member_sel [OF inv t, folded p_def]
  from t obtain pre post where sp: "Q p = pre @ t # post"
    and pv: "sprev s t = last_or None pre" and nx: "snext s t = first_or None post"
    using q(1) by (auto simp: p_def elim: links_neighbours)
  have d: "distinct (pre @ t # post)" using q(2) sp by simp
  have Q': "abs_dequeue p t Q = Q(p := pre @ post)"
    using d sp by (simp add: abs_dequeue_def remove1_middle)
  have nxin: "u \<in> set post" if "snext s t = Some u" for u
    using that nx by (cases post) auto
  have pvin: "u \<in> set pre" if "sprev s t = Some u" for u
    using that pv by (cases pre rule: rev_cases) auto
  have links': "links (snext ?s) (sprev ?s) None (pre @ post) None"
    by (rule links_unlink [of "snext s" "sprev s" pre t post])
      (use q(1) sp d nxin pvin in \<open>auto simp: sel(1,2)\<close>)
  have rq: "run_queues ?s p = first_or None (pre @ post)"
    using q(3) sp pv nx by (cases pre) (auto simp: sel(3) last_or_conv)
  have tl: "run_queues_tail ?s p = last_or None (pre @ post)"
    using q(4) sp pv nx by (cases post) (auto simp: sel(4) last_or_append)
  have "bit (active_priority_bitmap ?s) p = (pre @ post \<noteq> [])"
    using q(5) sp rq p by (auto simp: sel(5) bit_simps first_or_conv)
  moreover have "\<forall>u \<in> set (pre @ post). queue_prio ?s u = p"
    using rq_inv_prio [OF inv p] sp by auto
  ultimately have A: "rq_queue ?s p (pre @ post)"
    using links' d rq tl by (simp add: rq_queue_def)
  have B: "rq_queue ?s r (Q r)" if r: "r < NUM_PRIORITIES" and "r \<noteq> p" for r
  proof -
    have out: "u \<noteq> t \<and> sprev s t \<noteq> Some u \<and> snext s t \<noteq> Some u" if "u \<in> set (Q r)" for u
      using rq_inv_disjoint [OF inv r p \<open>r \<noteq> p\<close> that] sp nxin pvin by auto
    have "links (snext ?s) (sprev ?s) None (Q r) None"
      using rq_queueD(1) [OF rq_inv_queue [OF inv r]] out
        links_cong [of "Q r" "snext ?s" "snext s" "sprev ?s" "sprev s" None None]
      by (simp add: sel(1,2))
    moreover have "bit (active_priority_bitmap ?s) r = bit (active_priority_bitmap s) r"
      using \<open>r \<noteq> p\<close> r by (simp add: sel(5) bit_simps)
    ultimately show ?thesis
      using rq_inv_queue [OF inv r] \<open>r \<noteq> p\<close> by (simp add: rq_queue_def sel(3,4))
  qed
  have C: "snext ?s u = None \<and> sprev ?s u = None" if u: "u \<notin> set ((Q(p := pre @ post)) (queue_prio ?s u))" for u
  proof (cases "u = t")
    case True
    then show ?thesis by (simp add: sel(1,2))
  next
    case False
    then have out: "u \<notin> set (Q (queue_prio s u))"
      using u sp by (auto split: if_splits)
    then have "u \<notin> set (Q p)" using rq_inv_prio [OF inv p] by blast
    then have "sprev s t \<noteq> Some u" "snext s t \<noteq> Some u"
      using sp nxin pvin by auto
    with False out inv show ?thesis by (simp add: sel(1,2) rq_inv_def)
  qed
  show ?thesis
    unfolding p_def [symmetric] Q'
  proof (rule rq_invI)
    show "rq_queue ?s r ((Q(p := pre @ post)) r)" if "r < NUM_PRIORITIES" for r
      using A B that by (cases "r = p") simp_all
  qed (rule C)
qed

lemma rq_dequeue [inv_intros]:
  assumes "rq_inv s Q"
  shows "rq_inv (sched_dequeue (Some t) s) (abs_dequeue (queue_prio s t) t Q)"
proof (cases "t \<in> set (Q (queue_prio s t))")
  case True
  then show ?thesis by (rule rq_dequeue_member [OF assms])
next
  case False
  then have "abs_dequeue (queue_prio s t) t Q = Q"
    by (simp add: abs_dequeue_def remove1_idem)
  then show ?thesis using dequeue_not_member [OF assms False] assms by simp
qed


text \<open>
  The interface the rest of the scheduler and the blocking primitives rely on: a representation
  relation between the state and the priority queues, and the effect of the two operations on it.
\<close>

locale prio_queues =
  fixes rel :: "'s \<Rightarrow> (nat \<Rightarrow> nat list) \<Rightarrow> bool"
    and prio :: "'s \<Rightarrow> nat \<Rightarrow> nat"
    and enq :: "nat option \<Rightarrow> 's \<Rightarrow> 's"
    and deq :: "nat option \<Rightarrow> 's \<Rightarrow> 's"
  assumes enq_rel: "rel s Q \<Longrightarrow> rel (enq (Some t) s) (abs_enqueue (prio s t) t Q)"
    and deq_rel: "rel s Q \<Longrightarrow> rel (deq (Some t) s) (abs_dequeue (prio s t) t Q)"
    and prio_enq: "prio (enq x s) u = prio s u"
    and prio_deq: "prio (deq x s) u = prio s u"
    and rel_distinct: "rel s Q \<Longrightarrow> distinct (Q (prio s t))"
begin

lemma requeue:
  assumes "rel s Q"
  shows "rel (enq (Some t) (deq (Some t) s)) (Q(prio s t := remove1 t (Q (prio s t)) @ [t]))"
  using enq_rel [OF deq_rel [OF assms, of t], of t] rel_distinct [OF assms, of t]
  by (simp add: prio_deq abs_enqueue_def abs_dequeue_def)

lemma deq_leaves:
  assumes "rel s Q"
  shows "\<exists>Q'. rel (deq (Some t) s) Q' \<and> t \<notin> set (Q' (prio (deq (Some t) s) t))"
  using deq_rel [OF assms, of t] rel_distinct [OF assms, of t]
  by (auto simp: prio_deq abs_dequeue_def)

lemma enq_member:
  assumes "rel s Q"
  shows "\<exists>Q'. rel (enq (Some t) s) Q' \<and> t \<in> set (Q' (prio (enq (Some t) s) t))"
proof -
  have "t \<in> set (abs_enqueue (prio s t) t Q (prio s t))"
    by (simp add: abs_enqueue_def)
  then show ?thesis using enq_rel [OF assms, of t] by (auto simp: prio_enq)
qed

end

interpretation rq: prio_queues rq_inv queue_prio sched_enqueue sched_dequeue
proof unfold_locales
  show "distinct (Q (queue_prio s t))" if "rq_inv s Q" for s Q t
    using rq_queueD(2) [OF rq_inv_queue [OF that queue_prio_less]] .
qed (simp_all add: rq_enqueue rq_dequeue)

text \<open>The queues depend on the links, the priorities, the queue pointers and the bitmap only.\<close>

lemma rq_inv_cong:
  assumes "\<And>t. snext s' t = snext s t" and "\<And>t. sprev s' t = sprev s t"
    and "\<And>t. priority (tasks s' t) = priority (tasks s t)"
    and "run_queues s' = run_queues s" and "run_queues_tail s' = run_queues_tail s"
    and "active_priority_bitmap s' = active_priority_bitmap s"
  shows "rq_inv s' Q = rq_inv s Q"
proof -
  have "queue_prio s' = queue_prio s"
    by (rule ext, rule queue_prio_cong) (rule assms)
  moreover have "snext s' = snext s" and "sprev s' = sprev s"
    using assms(1,2) by auto
  ultimately show ?thesis
    using assms(4-6) unfolding rq_inv_def rq_queue_def by (simp only: assms(1,2))
qed

lemma rq_inv_upd_task:
  assumes "\<And>k. sched_next (f k) = sched_next k" and "\<And>k. sched_prev (f k) = sched_prev k"
    and "\<And>k. priority (f k) = priority k"
  shows "rq_inv (upd_task t f s) Q = rq_inv s Q"
  by (rule rq_inv_cong) (use assms in auto)

lemma queue_prio_upd_task [simp]:
  "(\<And>k. priority (f k) = priority k) \<Longrightarrow> queue_prio (upd_task t f s) u = queue_prio s u"
  by (rule queue_prio_cong) auto

lemma sched_dequeue_other_fields [simp]:
  "tstate (tasks (sched_dequeue t s) u) = tstate (tasks s u)"
  "rsp (tasks (sched_dequeue t s) u) = rsp (tasks s u)"
  "fpu_state (tasks (sched_dequeue t s) u) = fpu_state (tasks s u)"
  "kstack_at_bottom (tasks (sched_dequeue t s) u) = kstack_at_bottom (tasks s u)"
  "sleep_until (tasks (sched_dequeue t s) u) = sleep_until (tasks s u)"
  "idle_task (sched_dequeue t s) = idle_task s"
  "current_task (sched_dequeue t s) = current_task s"
  "sleep_queue (sched_dequeue t s) = sleep_queue s"
  "io_waiters (sched_dequeue t s) = io_waiters s"
  "cpu_fpu (sched_dequeue t s) = cpu_fpu s"
  by (cases t; auto simp: sched_dequeue.simps upd_task_def Let_def split: option.split)+

lemma sched_enqueue_other_fields [simp]:
  "rsp (tasks (sched_enqueue t s) u) = rsp (tasks s u)"
  "fpu_state (tasks (sched_enqueue t s) u) = fpu_state (tasks s u)"
  "kstack_at_bottom (tasks (sched_enqueue t s) u) = kstack_at_bottom (tasks s u)"
  "sleep_until (tasks (sched_enqueue t s) u) = sleep_until (tasks s u)"
  "idle_task (sched_enqueue t s) = idle_task s"
  "current_task (sched_enqueue t s) = current_task s"
  "io_waiters (sched_enqueue t s) = io_waiters s"
  "cpu_fpu (sched_enqueue t s) = cpu_fpu s"
  by (cases t; auto simp: sched_enqueue.simps upd_task_def Let_def split: option.split)+

lemma enqueue_new_state:
  assumes "rq_inv s Q" and "t \<notin> set (Q (queue_prio s t))"
  shows "tstate (tasks (sched_enqueue (Some t) s) u) =
     (if u = t then TASK_STATE_RUNNABLE else tstate (tasks s u))"
proof -
  have "last_or None (Q (queue_prio s t)) \<noteq> Some t"
    using assms(2) by (auto dest: last_or_in)
  then show ?thesis
    by (auto simp: enqueue_eq [OF assms] split: option.split)
qed

lemma ctz32_eq:
  assumes "bit w p" and "\<And>r. r < p \<Longrightarrow> \<not> bit w r" and "p < 32"
  shows "ctz32 w = p"
proof -
  have "[0..<32] = [0..<p] @ p # [Suc p..<32]"
    using \<open>p < 32\<close> upt_add_eq_append [of 0 p "32 - p"] upt_conv_Cons [of p 32] by simp
  then have "takeWhile (\<lambda>i. \<not> bit w i) [0..<32] = [0..<p]"
    using assms(1,2) by (subst \<open>[0..<32] = _\<close>) (subst takeWhile_append2; simp)
  then show ?thesis by (simp add: ctz32_def)
qed

lemma rq_bitmap_zero:
  assumes "rq_inv s Q"
  shows "active_priority_bitmap s = 0 \<longleftrightarrow> (\<forall>p < NUM_PRIORITIES. Q p = [])"
proof -
  have b: "bit (active_priority_bitmap s) p = (Q p \<noteq> [])" if "p < NUM_PRIORITIES" for p
    using rq_queueD(5) [OF rq_inv_queue [OF assms that]] .
  have "active_priority_bitmap s = 0" if "\<forall>p < NUM_PRIORITIES. Q p = []"
    by (rule bit_word_eqI) (use b that in simp)
  then show ?thesis using b by auto
qed


text \<open>What the switch does to the queues, and which task it chooses.\<close>

definition abs_requeue :: "bool \<Rightarrow> nat \<Rightarrow> nat \<Rightarrow> (nat \<Rightarrow> nat list) \<Rightarrow> nat \<Rightarrow> nat list" where
  "abs_requeue runnable p t Q =
     (if runnable then Q(p := remove1 t (Q p) @ [t]) else Q(p := remove1 t (Q p)))"

lemma rq_inv_switch_hw: "rq_inv (switch_hw a b s) Q = rq_inv s Q"
  by (rule rq_inv_cong) (auto simp: switch_hw_def Let_def)

lemma current_task_switch_hw [simp]: "current_task (switch_hw a b s) = current_task s"
  by (auto simp: switch_hw_def Let_def)

text \<open>The first half of the switch: the outgoing task goes to the back of its queue, or leaves it.\<close>

definition switch_out :: "u64 \<Rightarrow> nat \<Rightarrow> sched \<Rightarrow> sched" where
  "switch_out current_rsp prev s =
     (let s1 = upd_task prev (\<lambda>k. k\<lparr>rsp := current_rsp\<rparr>) s
      in if Some prev \<noteq> idle_task s1 then
           let d = sched_dequeue (Some prev) s1
           in if tstate (tasks d prev) = TASK_STATE_RUNNABLE then sched_enqueue (Some prev) d else d
         else s1)"

lemma rq_inv_switch_out:
  assumes inv: "rq_inv s Q" and "Some c \<noteq> idle_task s"
  shows "rq_inv (switch_out r c s)
           (abs_requeue (tstate (tasks s c) = TASK_STATE_RUNNABLE) (queue_prio s c) c Q)"
proof -
  let ?s1 = "upd_task c (\<lambda>k. k\<lparr>rsp := r\<rparr>) s"
  let ?p = "queue_prio s c"
  have inv1: "rq_inv ?s1 Q" using inv by (simp add: rq_inv_upd_task)
  have d: "rq_inv (sched_dequeue (Some c) ?s1) (Q(?p := remove1 c (Q ?p)))"
    using rq_dequeue [OF inv1, of c] by (simp add: abs_dequeue_def)
  have e: "rq_inv (sched_enqueue (Some c) (sched_dequeue (Some c) ?s1))
        (Q(?p := remove1 c (Q ?p) @ [c]))"
    using rq.requeue [OF inv1, of c] by simp
  show ?thesis
    using assms(2) d e by (simp add: switch_out_def Let_def abs_requeue_def)
qed

lemma sched_switch_eq:
  "current_task s = Some c \<Longrightarrow>
   sched_switch r s =
     (let s2 = switch_out r c s
      in if active_priority_bitmap s2 = 0 \<and> idle_task s2 = None then (r, s2)
         else
           let s3 = s2\<lparr>current_task :=
                      (if active_priority_bitmap s2 = 0 then idle_task s2
                       else run_queues s2 (ctz32 (active_priority_bitmap s2)))\<rparr>
           in (case current_task s3 of
                 None \<Rightarrow> (r, s3)
               | Some cur \<Rightarrow>
                   let s4 = (if cur \<noteq> c then switch_hw c cur s3 else s3)
                   in (rsp (tasks s4 cur), s4)))"
  by (simp add: sched_switch_def switch_out_def Let_def)

lemma sched_switch_result:
  assumes inv: "rq_inv s Q" and c: "current_task s = Some c" "Some c \<noteq> idle_task s"
    and Q': "Q' = abs_requeue (tstate (tasks s c) = TASK_STATE_RUNNABLE) (queue_prio s c) c Q"
    and p: "p < NUM_PRIORITIES" "Q' p \<noteq> []" "\<And>r. r < p \<Longrightarrow> Q' r = []"
  shows "current_task (snd (sched_switch r s)) = Some (hd (Q' p))"
    and "rq_inv (snd (sched_switch r s)) Q'"
proof -
  let ?s2 = "switch_out r c s"
  have inv2: "rq_inv ?s2 Q'" using rq_inv_switch_out [OF inv c(2)] Q' by simp
  have bm: "bit (active_priority_bitmap ?s2) q = (Q' q \<noteq> [])" if "q < NUM_PRIORITIES" for q
    using rq_queueD(5) [OF rq_inv_queue [OF inv2 that]] .
  have nz: "active_priority_bitmap ?s2 \<noteq> 0"
    using rq_bitmap_zero [OF inv2] p(1,2) by blast
  have "ctz32 (active_priority_bitmap ?s2) = p"
    using p bm by (intro ctz32_eq) auto
  then have "run_queues ?s2 (ctz32 (active_priority_bitmap ?s2)) = Some (hd (Q' p))"
    using rq_queueD(3) [OF rq_inv_queue [OF inv2 p(1)]] p(2) by (simp add: first_or_conv)
  then have eq: "snd (sched_switch r s) =
      (let s3 = ?s2\<lparr>current_task := Some (hd (Q' p))\<rparr>
       in if hd (Q' p) \<noteq> c then switch_hw c (hd (Q' p)) s3 else s3)"
    using nz by (simp add: sched_switch_eq [OF c(1)] Let_def)
  then show "current_task (snd (sched_switch r s)) = Some (hd (Q' p))"
    by (simp add: Let_def)
  have "rq_inv (?s2\<lparr>current_task := Some (hd (Q' p))\<rparr>) Q'"
    using inv2 rq_inv_cong [of "?s2\<lparr>current_task := Some (hd (Q' p))\<rparr>" ?s2] by simp
  then show "rq_inv (snd (sched_switch r s)) Q'"
    by (auto simp: eq Let_def rq_inv_switch_hw)
qed


text \<open>A switch changes no task's state, and keeps the idle task.\<close>

lemma enqueue_runnable_state:
  "tstate (tasks s t) = TASK_STATE_RUNNABLE \<Longrightarrow>
   tstate (tasks (sched_enqueue (Some t) s) u) = tstate (tasks s u)"
  by (auto simp: sched_enqueue.simps Let_def split: option.split)

lemma switch_out_fields [simp]:
  "tstate (tasks (switch_out r c s) u) = tstate (tasks s u)"
  "idle_task (switch_out r c s) = idle_task s"
  "cpu_fpu (switch_out r c s) = cpu_fpu s"
  "rsp (tasks (switch_out r c s) u) = (if u = c then r else rsp (tasks s u))"
  "fpu_state (tasks (switch_out r c s) u) = fpu_state (tasks s u)"
  by (auto simp: switch_out_def Let_def enqueue_runnable_state) (simp_all add: upd_task_def)

lemma switch_hw_fields [simp]:
  "tstate (tasks (switch_hw a b s) u) = tstate (tasks s u)"
  "idle_task (switch_hw a b s) = idle_task s"
  "rsp (tasks (switch_hw a b s) u) = rsp (tasks s u)"
  by (auto simp: switch_hw_def Let_def)

lemma sched_switch_fields:
  "tstate (tasks (snd (sched_switch r s)) u) = tstate (tasks s u)"
  "idle_task (snd (sched_switch r s)) = idle_task s"
proof -
  have "tstate (tasks (snd (sched_switch r s)) u) = tstate (tasks s u) \<and>
        idle_task (snd (sched_switch r s)) = idle_task s"
  proof (cases "current_task s")
    case None
    then show ?thesis by (simp add: sched_switch_def)
  next
    case (Some c)
    then show ?thesis by (simp add: sched_switch_eq Let_def split: option.split)
  qed
  then show "tstate (tasks (snd (sched_switch r s)) u) = tstate (tasks s u)"
    and "idle_task (snd (sched_switch r s)) = idle_task s" by auto
qed

fun run_switches :: "u64 list \<Rightarrow> sched \<Rightarrow> sched" where
  "run_switches [] s = s"
| "run_switches (r # rs) s = run_switches rs (snd (sched_switch r s))"

lemma round_robin_step:
  assumes "rq_inv s Q" and "p < NUM_PRIORITIES" and "\<And>r. r < p \<Longrightarrow> Q r = []"
    and "Q p = c # ts" and "current_task s = Some c"
    and "\<And>t. t \<in> set (Q p) \<Longrightarrow> tstate (tasks s t) = TASK_STATE_RUNNABLE"
    and "\<And>t. t \<in> set (Q p) \<Longrightarrow> idle_task s \<noteq> Some t"
  shows "rq_inv (snd (sched_switch r s)) (Q(p := ts @ [c]))"
    and "current_task (snd (sched_switch r s)) = Some (hd (ts @ [c]))"
proof -
  have qp: "queue_prio s c = p" using rq_inv_prio [OF assms(1,2), of c] assms(4) by simp
  have run: "tstate (tasks s c) = TASK_STATE_RUNNABLE" using assms(4,6) by simp
  have Q': "Q(p := ts @ [c]) = abs_requeue (tstate (tasks s c) = TASK_STATE_RUNNABLE) (queue_prio s c) c Q"
    using assms(4) run qp by (simp add: abs_requeue_def)
  have idle: "Some c \<noteq> idle_task s" using assms(4,7) by fastforce
  note res = sched_switch_result [OF assms(1,5) idle Q' assms(2), of r]
  show "rq_inv (snd (sched_switch r s)) (Q(p := ts @ [c]))"
    by (rule res(2)) (use assms(3) in auto)
  show "current_task (snd (sched_switch r s)) = Some (hd (ts @ [c]))"
    using res(1) assms(3) by simp
qed

lemma round_robin:
  assumes "rq_inv s Q" and "p < NUM_PRIORITIES" and "\<And>r. r < p \<Longrightarrow> Q r = []"
    and "Q p \<noteq> []" and "current_task s = Some (hd (Q p))"
    and "\<And>t. t \<in> set (Q p) \<Longrightarrow> tstate (tasks s t) = TASK_STATE_RUNNABLE"
    and "\<And>t. t \<in> set (Q p) \<Longrightarrow> idle_task s \<noteq> Some t"
  shows "current_task (run_switches rs s) = Some (Q p ! (length rs mod length (Q p)))"
  using assms
proof (induction rs arbitrary: s Q)
  case Nil
  then show ?case by (simp add: hd_conv_nth)
next
  case (Cons r rs)
  from Cons.prems(4) obtain c ts where ct: "Q p = c # ts" by (cases "Q p") auto
  have cur: "current_task s = Some c" using Cons.prems(5) ct by simp
  let ?Q = "Q(p := ts @ [c])" and ?s = "snd (sched_switch r s)"
  note step = round_robin_step [OF Cons.prems(1,2,3) ct cur Cons.prems(6,7), of r]
  have "current_task (run_switches rs ?s) = Some (?Q p ! (length rs mod length (?Q p)))"
  proof (rule Cons.IH [OF step(1) Cons.prems(2)])
    show "tstate (tasks ?s t) = TASK_STATE_RUNNABLE" if "t \<in> set (?Q p)" for t
      using that Cons.prems(6) [of t] ct by (auto simp: sched_switch_fields)
    show "idle_task ?s \<noteq> Some t" if "t \<in> set (?Q p)" for t
      using that Cons.prems(7) [of t] ct by (auto simp: sched_switch_fields)
  qed (use Cons.prems(3) step(2) in auto)
  also have "?Q p = rotate1 (Q p)" using ct by simp
  also have "rotate1 (Q p) ! (length rs mod length (rotate1 (Q p))) = Q p ! (length (r # rs) mod length (Q p))"
    using Cons.prems(4) by (simp add: nth_rotate1 mod_Suc_eq)
  finally show ?case by simp
qed


subsection \<open>Correctness of the sleep queue\<close>

abbreviation due :: "sched \<Rightarrow> nat \<Rightarrow> u64" where
  "due s t \<equiv> sleep_until (tasks s t)"

definition sleep_inv :: "sched \<Rightarrow> bool" where
  "sleep_inv s \<longleftrightarrow> sorted (map (due s) (sleep_queue s)) \<and> distinct (sleep_queue s)"

lemma set_sleep_insert: "set (sleep_insert d t until qs) = insert t (set qs)"
  by (induction qs) auto

lemma distinct_sleep_insert: "distinct qs \<Longrightarrow> t \<notin> set qs \<Longrightarrow> distinct (sleep_insert d t until qs)"
  by (induction qs) (auto simp: set_sleep_insert)

lemma sorted_sleep_insert:
  "sorted (map d qs) \<Longrightarrow> d t = until \<Longrightarrow> sorted (map d (sleep_insert d t until qs))"
proof (induction qs)
  case (Cons q qs)
  then show ?case by (cases "until < d q") (auto simp: set_sleep_insert not_less)
qed simp

lemma make_sleep_inv [inv_intros]:
  assumes "sleep_inv s" and "t \<notin> set (sleep_queue s)"
  shows "sleep_inv (sched_make_sleep (Some t) until s)"
    and "set (sleep_queue (sched_make_sleep (Some t) until s)) = insert t (set (sleep_queue s))"
proof -
  let ?s1 = "upd_task t (\<lambda>k. k\<lparr>tstate := TASK_STATE_SLEEPING, running := False, sleep_until := until\<rparr>) s"
  have "map (due ?s1) (sleep_queue s) = map (due s) (sleep_queue s)"
    using assms(2) by auto
  then have "sorted (map (due ?s1) (sleep_queue s))"
    using assms(1) by (simp only: sleep_inv_def)
  then have "sorted (map (due ?s1) (sleep_insert (due ?s1) t until (sleep_queue s)))"
    by (rule sorted_sleep_insert) simp
  with assms show "sleep_inv (sched_make_sleep (Some t) until s)"
    by (simp add: sleep_inv_def Let_def distinct_sleep_insert)
  show "set (sleep_queue (sched_make_sleep (Some t) until s)) = insert t (set (sleep_queue s))"
    by (simp add: Let_def set_sleep_insert)
qed

lemma sorted_dropWhile_filter:
  fixes d :: "'a \<Rightarrow> 'b::linorder"
  shows "sorted (map d xs) \<Longrightarrow> dropWhile (\<lambda>t. d t \<le> n) xs = filter (\<lambda>t. n < d t) xs"
proof (induction xs)
  case (Cons x xs)
  show ?case
  proof (cases "d x \<le> n")
    case True
    with Cons show ?thesis by auto
  next
    case False
    with Cons.prems have "\<forall>t \<in> set (x # xs). n < d t" by auto
    with False show ?thesis by simp
  qed
qed simp

lemma sorted_takeWhile_filter:
  fixes d :: "'a \<Rightarrow> 'b::linorder"
  shows "sorted (map d xs) \<Longrightarrow> takeWhile (\<lambda>t. d t \<le> n) xs = filter (\<lambda>t. d t \<le> n) xs"
proof (induction xs)
  case (Cons x xs)
  show ?case
  proof (cases "d x \<le> n")
    case True
    with Cons show ?thesis by auto
  next
    case False
    with Cons.prems have "\<forall>t \<in> set xs. \<not> d t \<le> n" by auto
    with False show ?thesis by simp
  qed
qed simp

text \<open>The queues after the due sleepers have been appended, in the order of their deadlines.\<close>

fun abs_wake :: "(nat \<Rightarrow> nat) \<Rightarrow> nat list \<Rightarrow> (nat \<Rightarrow> nat list) \<Rightarrow> nat \<Rightarrow> nat list" where
  "abs_wake pr [] Q = Q"
| "abs_wake pr (t # ts) Q = abs_wake pr ts (Q(pr t := Q (pr t) @ [t]))"

lemma timer_tick_wakes:
  fixes now :: u32
  assumes "rq_inv s Q" and "distinct (sleep_queue s)"
    and "\<And>t. t \<in> set (sleep_queue s) \<Longrightarrow> t \<notin> set (Q (queue_prio s t))"
  defines "late \<equiv> takeWhile (\<lambda>t. due s t \<le> ucast now) (sleep_queue s)"
  shows "sleep_queue (sched_timer_tick now s) = dropWhile (\<lambda>t. due s t \<le> ucast now) (sleep_queue s)
     \<and> rq_inv (sched_timer_tick now s) (abs_wake (queue_prio s) late Q)
     \<and> (\<forall>u. tstate (tasks (sched_timer_tick now s) u) =
             (if u \<in> set late then TASK_STATE_RUNNABLE else tstate (tasks s u)))"
  using assms(1-3) unfolding late_def
proof (induction now s arbitrary: Q rule: sched_timer_tick.induct)
  case (1 now s)
  show ?case
  proof (cases "sleep_queue s")
    case Nil
    with "1.prems"(1) show ?thesis by (simp add: sched_timer_tick.simps [of now s])
  next
    case (Cons t rest)
    show ?thesis
    proof (cases "due s t \<le> ucast now")
      case False
      with Cons "1.prems"(1) show ?thesis by (simp add: sched_timer_tick.simps [of now s])
    next
      case True
      define s1 where "s1 = upd_task t (\<lambda>k. k\<lparr>sleep_until := 0\<rparr>) (s\<lparr>sleep_queue := rest\<rparr>)"
      define s2 where "s2 = sched_enqueue (Some t) s1"
      define Q2 where "Q2 = Q(queue_prio s t := Q (queue_prio s t) @ [t])"
      have qp: "queue_prio s1 = queue_prio s"
        by (rule ext, rule queue_prio_cong) (simp add: s1_def)
      have new: "t \<notin> set (Q (queue_prio s1 t))"
        using "1.prems"(3) [of t] Cons qp by simp
      have inv1: "rq_inv s1 Q"
        using "1.prems"(1) rq_inv_cong [of s1 s] by (simp add: s1_def)
      have inv2: "rq_inv s2 Q2"
        using rq_enqueue_new [OF inv1 new] qp by (simp add: s2_def Q2_def)
      have st2: "tstate (tasks s2 u) = (if u = t then TASK_STATE_RUNNABLE else tstate (tasks s u))" for u
        using enqueue_new_state [OF inv1 new, of u] by (simp add: s2_def s1_def)
      have sq2: "sleep_queue s2 = rest" by (simp add: s2_def s1_def)
      have due2: "due s2 u = due s u" if "u \<in> set rest" for u
        using that "1.prems"(2) Cons by (auto simp: s2_def s1_def)
      have qp2: "queue_prio s2 = queue_prio s" using qp by (auto simp: s2_def)
      have tk: "takeWhile (\<lambda>t. due s2 t \<le> ucast now) rest = takeWhile (\<lambda>t. due s t \<le> ucast now) rest"
        and dr: "dropWhile (\<lambda>t. due s2 t \<le> ucast now) rest = dropWhile (\<lambda>t. due s t \<le> ucast now) rest"
        using due2 by (auto intro: takeWhile_cong dropWhile_cong)
      have unq: "u \<notin> set (Q2 (queue_prio s2 u))"
        if "u \<in> set (sleep_queue s2)" for u
        using that "1.prems"(2) "1.prems"(3) [of u] Cons sq2 qp2 by (auto simp: Q2_def split: if_splits)
      have "sched_timer_tick now s = sched_timer_tick now s2"
        using Cons True by (simp add: sched_timer_tick.simps [of now s] s2_def s1_def)
      moreover have "sleep_queue (sched_timer_tick now s2) = dropWhile (\<lambda>t. due s2 t \<le> ucast now) (sleep_queue s2)
          \<and> rq_inv (sched_timer_tick now s2) (abs_wake (queue_prio s2)
               (takeWhile (\<lambda>t. due s2 t \<le> ucast now) (sleep_queue s2))
               Q2)
          \<and> (\<forall>u. tstate (tasks (sched_timer_tick now s2) u) =
              (if u \<in> set (takeWhile (\<lambda>t. due s2 t \<le> ucast now) (sleep_queue s2))
               then TASK_STATE_RUNNABLE else tstate (tasks s2 u)))"
        using "1.IH" [OF Cons True, folded s1_def, folded s2_def, OF inv2 _ unq] "1.prems"(2) Cons sq2
        by simp
      ultimately show ?thesis
        using Cons True sq2 qp2 tk dr st2 by (simp add: Q2_def)
    qed
  qed
qed


subsection \<open>Properties\<close>

text \<open>A scheduler state with no queued task, for the concrete instances below.\<close>

definition blank_task :: task where
  "blank_task = \<lparr>rsp = 0, kstack_at_bottom = 0, tstate = TASK_STATE_BLOCKED, running = False,
     priority = 16, time_slice = 0, sleep_until = 0, fs_base = 0, process_cr3 = None, fpu_state = 0,
     sched_next = None, sched_prev = None\<rparr>"

definition blank_sched :: sched where
  "blank_sched = \<lparr>tasks = (\<lambda>_. blank_task), run_queues = (\<lambda>_. None), run_queues_tail = (\<lambda>_. None),
     active_priority_bitmap = 0, sleep_queue = [], io_waiters = [], current_task = None,
     idle_task = None, kernel_cr3 = 0, cpu_cr3 = 0, cpu_fpu = 0, cpu_tss_stack = 0, cpu_fs_base = 0\<rparr>"

lemma rq_inv_blank: "rq_inv blank_sched (\<lambda>_. [])"
  by (rule rq_invI) (simp_all add: blank_sched_def blank_task_def rq_queue_def)

lemma queue_prio_blank: "queue_prio blank_sched t = 16"
  by (simp add: queue_prio_def blank_sched_def blank_task_def)

definition two_tasks :: sched where
  "two_tasks = (sched_enqueue (Some 2) (sched_enqueue (Some 1) blank_sched))\<lparr>current_task := Some 1\<rparr>"

lemma two_tasks_inv: "rq_inv two_tasks ((\<lambda>_. [])(16 := [1, 2]))"
proof -
  have "rq_inv (sched_enqueue (Some 2) (sched_enqueue (Some 1) blank_sched)) ((\<lambda>_. [])(16 := [1, 2]))"
    using rq_enqueue [OF rq_enqueue [OF rq_inv_blank, of 1], of 2]
    by (simp add: abs_enqueue_def queue_prio_blank)
  then show ?thesis
    by (subst rq_inv_cong [of two_tasks "sched_enqueue (Some 2) (sched_enqueue (Some 1) blank_sched)"])
      (simp_all add: two_tasks_def)
qed

lemma two_tasks_state: "tstate (tasks two_tasks t) = (if t = 1 \<or> t = 2 then TASK_STATE_RUNNABLE else TASK_STATE_BLOCKED)"
proof -
  have i1: "rq_inv (sched_enqueue (Some 1) blank_sched) ((\<lambda>_. [])(16 := [1]))"
    using rq_enqueue [OF rq_inv_blank, of 1] by (simp add: abs_enqueue_def queue_prio_blank)
  show ?thesis
    using enqueue_new_state [OF i1, of 2] enqueue_new_state [OF rq_inv_blank, of 1]
    by (simp add: two_tasks_def queue_prio_blank) (simp add: blank_sched_def blank_task_def)
qed

text \<open>
  C1. Queue refinement. The pointer manipulations of \<open>sched_enqueue\<close> and \<open>sched_dequeue\<close> implement
  32 first-in-first-out queues: enqueueing a task appends it to the queue of its priority, or does
  nothing when it is already queued; dequeueing removes it, or does nothing when it is not queued
  (the double-dequeue guard). All links, head and tail pointers and the bitmap stay consistent.
\<close>

theorem sched_queues_refine:
  assumes "rq_inv s Q"
  shows "rq_inv (sched_enqueue (Some t) s) (abs_enqueue (queue_prio s t) t Q)
    \<and> rq_inv (sched_dequeue (Some t) s) (abs_dequeue (queue_prio s t) t Q)"
  using assms by (simp_all add: rq.enq_rel rq.deq_rel)

theorem sched_queues_refine_witness:
  "rq_inv (sched_dequeue (Some 1) two_tasks) ((\<lambda>_. [])(16 := [2]))"
proof -
  have "queue_prio two_tasks 1 = 16"
    using rq_inv_prio [OF two_tasks_inv, of 16 1] by simp
  then show ?thesis
    using sched_queues_refine [OF two_tasks_inv, of 1] by (simp add: abs_dequeue_def)
qed

text \<open>
  C2. Round-robin fairness. While the tasks of the best non-empty priority \<open>p\<close> stay runnable and
  no task is added, after \<open>k\<close> switches the task at position \<open>k mod n\<close> of the \<open>n\<close> queued tasks is
  running: the queue is served in turn, so every task of it gets the CPU within \<open>n\<close> switches.
\<close>

theorem sched_round_robin:
  assumes "rq_inv s Q" and "p < NUM_PRIORITIES" and "\<And>r. r < p \<Longrightarrow> Q r = []"
    and "Q p \<noteq> []" and "current_task s = Some (hd (Q p))"
    and "\<And>t. t \<in> set (Q p) \<Longrightarrow> tstate (tasks s t) = TASK_STATE_RUNNABLE \<and> idle_task s \<noteq> Some t"
  shows "current_task (run_switches rs s) = Some (Q p ! (length rs mod length (Q p)))"
  using assms by (intro round_robin) blast+

theorem sched_round_robin_witness:
  "current_task (run_switches [0x1000, 0x2000, 0x3000] two_tasks) = Some 2"
proof -
  have "current_task (run_switches [0x1000, 0x2000, 0x3000] two_tasks)
      = Some (((\<lambda>_. [])(16 := [1, 2])) (16::nat) ! (length [0x1000, 0x2000, 0x3000 :: u64]
          mod length (((\<lambda>_. [])(16 := [1, 2 :: nat])) (16::nat))))"
  proof (rule sched_round_robin [OF two_tasks_inv])
    fix t :: nat assume "t \<in> set (((\<lambda>_. [])(16 := [1, 2])) (16::nat))"
    then show "tstate (tasks two_tasks t) = TASK_STATE_RUNNABLE \<and> idle_task two_tasks \<noteq> Some t"
      by (auto simp: two_tasks_state) (simp_all add: two_tasks_def blank_sched_def)
  qed (simp_all add: two_tasks_def)
  then show ?thesis by (simp add: mod_Suc)
qed

text \<open>
  C3. Timer wake-up. On a sleep queue ordered by deadline, \<open>sched_timer_tick\<close> removes exactly the
  sleepers whose deadline has passed, appends them to their run queues in the order of their
  deadlines and makes them runnable; all other sleepers stay.
\<close>

theorem sched_timer_tick_exact:
  assumes "rq_inv s Q" and "sleep_inv s"
    and "\<forall>t \<in> set (sleep_queue s). t \<notin> set (Q (queue_prio s t))"
  shows "sleep_queue (sched_timer_tick now s) = filter (\<lambda>t. ucast now < due s t) (sleep_queue s)
    \<and> rq_inv (sched_timer_tick now s)
         (abs_wake (queue_prio s) (filter (\<lambda>t. due s t \<le> ucast now) (sleep_queue s)) Q)
    \<and> (\<forall>u. tstate (tasks (sched_timer_tick now s) u) =
           (if u \<in> set (sleep_queue s) \<and> due s u \<le> ucast now
            then TASK_STATE_RUNNABLE else tstate (tasks s u)))"
  using timer_tick_wakes [of s Q now] assms sorted_dropWhile_filter [of "due s" "sleep_queue s" "ucast now"]
    sorted_takeWhile_filter [of "due s" "sleep_queue s" "ucast now"]
  by (simp add: sleep_inv_def)

theorem sched_timer_tick_exact_witness:
  "sleep_queue (sched_timer_tick 7 (sched_make_sleep (Some 4) 9 (sched_make_sleep (Some 3) 5 blank_sched)))
     = [4]"
proof -
  let ?a = "sched_make_sleep (Some 3) 5 blank_sched"
  let ?s = "sched_make_sleep (Some 4) 9 ?a"
  have "sleep_inv blank_sched" by (simp add: sleep_inv_def blank_sched_def)
  then have "sleep_inv ?s"
    by (intro make_sleep_inv) (simp_all add: make_sleep_inv(2) blank_sched_def)
  moreover have "rq_inv ?s (\<lambda>_. [])"
    by (subst rq_inv_cong [of ?s blank_sched]) (simp_all add: rq_inv_blank Let_def)
  ultimately have "sleep_queue (sched_timer_tick 7 ?s) = filter (\<lambda>t. ucast (7::u32) < due ?s t) (sleep_queue ?s)"
    using sched_timer_tick_exact [of ?s "\<lambda>_. []" 7] by simp
  then show ?thesis by (simp add: Let_def blank_sched_def)
qed

end
