(* ===== verification/Pmm.thy ===== *)
theory Pmm
  imports Dll
begin

section \<open>The physical page allocator (\<open>kernel/core/mem/pmm.c\<close>)\<close>

text \<open>
  The buddy allocator: one doubly linked free list per order, threaded through the array of page
  descriptors. A page frame number is a \<open>nat\<close> (an index into \<open>page_array\<close>, below
  \<open>total_phys_pages\<close>, itself a 64-bit address divided by 4096); the pointer to a descriptor is its
  index. Counters that the code adds to and subtracts from are 64-bit words, an address returned to
  or passed by a client is a 64-bit word with \<open>0\<close> for \<open>NULL\<close>. The field \<open>order\<close> of a descriptor is an
  \<open>uint8_t\<close> that only ever receives values below \<open>PMM_MAX_ORDER\<close>, so it is a \<open>nat\<close> here.
  \<open>pmm_alloc_pages\<close> calls \<open>oom_killer\<close> when it finds no block; what that does to the allocator is
  the parameter \<open>oom\<close>, because the killer works on the process table, which is not modelled.

  The invariant \<open>buddy_inv s F A\<close> says that the state represents the free lists \<open>F\<close> beside the
  allocated blocks \<open>A\<close>. It holds after \<open>pmm_init\<close> and is kept by allocation and release. The
  descriptors of pages inside a block carry stale \<open>is_free\<close> flags that the code never clears; the
  invariant states exactly how stale they may be.
\<close>

subsection \<open>Data\<close>

record pmm_page =
  pg_flags :: u32
  pg_order :: nat
  is_free :: bool
  pg_next :: "nat option"
  pg_prev :: "nat option"

record pmm =
  freelist :: "nat \<Rightarrow> nat option"
  free_count :: "nat \<Rightarrow> u64"
  page_array :: "nat \<Rightarrow> pmm_page"
  total_phys_pages :: nat
  free_phys_pages :: u64
  total_pages :: u64
  free_memory :: u64

abbreviation (input) PMM_MAX_ORDER :: nat where "PMM_MAX_ORDER \<equiv> 16"

definition upd_page :: "nat \<Rightarrow> (pmm_page \<Rightarrow> pmm_page) \<Rightarrow> pmm \<Rightarrow> pmm" where
  "upd_page p f s = s\<lparr>page_array := (page_array s)(p := f (page_array s p))\<rparr>"

definition add_count :: "nat \<Rightarrow> u64 \<Rightarrow> pmm \<Rightarrow> pmm" where
  "add_count order d s = s\<lparr>free_count := (free_count s)(order := free_count s order + d)\<rparr>"

subsection \<open>Free lists\<close>

definition list_add :: "nat \<Rightarrow> nat \<Rightarrow> pmm \<Rightarrow> pmm" where
  "list_add order page s =
     (let head = freelist s order;
          s1 = upd_page page (\<lambda>k. k\<lparr>pg_next := head, pg_prev := None\<rparr>) s;
          s2 = (case head of
                  Some h \<Rightarrow> upd_page h (\<lambda>k. k\<lparr>pg_prev := Some page\<rparr>) s1
                | None \<Rightarrow> s1)
      in s2\<lparr>freelist := (freelist s2)(order := Some page)\<rparr>)"

definition list_remove :: "nat \<Rightarrow> nat \<Rightarrow> pmm \<Rightarrow> pmm" where
  "list_remove order page s =
     (let nx = pg_next (page_array s page); pv = pg_prev (page_array s page);
          s1 = (case pv of
                  Some q \<Rightarrow> upd_page q (\<lambda>k. k\<lparr>pg_next := nx\<rparr>) s
                | None \<Rightarrow> s\<lparr>freelist := (freelist s)(order := nx)\<rparr>);
          s2 = (case nx of
                  Some q \<Rightarrow> upd_page q (\<lambda>k. k\<lparr>pg_prev := pv\<rparr>) s1
                | None \<Rightarrow> s1)
      in upd_page page (\<lambda>k. k\<lparr>pg_next := None, pg_prev := None\<rparr>) s2)"

definition sync_legacy_globals :: "pmm \<Rightarrow> pmm" where
  "sync_legacy_globals s =
     s\<lparr>total_pages := of_nat (total_phys_pages s), free_memory := free_phys_pages s * PAGE_SIZE\<rparr>"

subsection \<open>Allocation\<close>

text \<open>The inner loop of \<open>pmm_alloc_pages\<close>: give back upper halves until the block has the order.\<close>

fun alloc_split :: "nat \<Rightarrow> nat \<Rightarrow> nat \<Rightarrow> pmm \<Rightarrow> pmm" where
  "alloc_split order page 0 s = s"
| "alloc_split order page (Suc c) s =
     (if Suc c > order then
        let buddy = page XOR 2 ^ c;
            s1 = upd_page buddy (\<lambda>k. k\<lparr>pg_order := c, is_free := True\<rparr>) s
        in alloc_split order page c (add_count c 1 (list_add c buddy s1))
      else s)"

definition pmm_alloc_pages :: "(pmm \<Rightarrow> pmm) \<Rightarrow> nat \<Rightarrow> pmm \<Rightarrow> u64 \<times> pmm" where
  "pmm_alloc_pages oom order s =
     (if order \<ge> PMM_MAX_ORDER then (0, s)
      else case find (\<lambda>c. freelist s c \<noteq> None) [order..<PMM_MAX_ORDER] of
        None \<Rightarrow> (0, oom s)
      | Some c \<Rightarrow>
          let page = the (freelist s c);
              s1 = alloc_split order page c (add_count c (- 1) (list_remove c page s));
              s2 = upd_page page (\<lambda>k. k\<lparr>pg_order := order, is_free := False\<rparr>) s1;
              s3 = s2\<lparr>free_phys_pages := free_phys_pages s2 - 2 ^ order\<rparr>
          in (of_nat page * PAGE_SIZE, sync_legacy_globals s3))"

definition pmm_alloc :: "(pmm \<Rightarrow> pmm) \<Rightarrow> pmm \<Rightarrow> u64 \<times> pmm" where
  "pmm_alloc oom s = pmm_alloc_pages oom 0 s"

text \<open>
  The loop \<open>while ((1ULL << order) < count) order++\<close> of \<open>pmm_alloc_continuous\<close> and of \<open>kfree\<close>: the
  first order that is large enough. A count above \<open>2 ^ 63\<close> would shift by 64, which is undefined:
  \<open>None\<close>.
\<close>

definition order_for :: "u64 \<Rightarrow> nat option" where
  "order_for count = find (\<lambda>order. unat count \<le> 2 ^ order) [0..<64]"

definition pmm_alloc_continuous :: "(pmm \<Rightarrow> pmm) \<Rightarrow> u64 \<Rightarrow> pmm \<Rightarrow> (u64 \<times> pmm) option" where
  "pmm_alloc_continuous oom count s =
     map_option (\<lambda>order. pmm_alloc_pages oom order s) (order_for count)"

subsection \<open>Release\<close>

text \<open>
  The coalescing loop of \<open>pmm_free_pages\<close>: it returns the head and the order of the merged block.
\<close>

function free_coalesce :: "nat \<Rightarrow> nat \<Rightarrow> pmm \<Rightarrow> nat \<times> nat \<times> pmm" where
  "free_coalesce pfn order s =
     (if order < PMM_MAX_ORDER - 1 then
        let buddy = pfn XOR 2 ^ order in
        if buddy \<ge> total_phys_pages s then (pfn, order, s)
        else if \<not> is_free (page_array s buddy) \<or> pg_order (page_array s buddy) \<noteq> order
        then (pfn, order, s)
        else
          let s1 = add_count order (- 1) (list_remove order buddy s);
              s2 = upd_page buddy (\<lambda>k. k\<lparr>is_free := False\<rparr>) s1
          in free_coalesce (unset_bit order pfn) (order + 1) s2
      else (pfn, order, s))"
  by pat_completeness auto

termination free_coalesce
  by (relation "measure (\<lambda>(pfn, order, s). PMM_MAX_ORDER - order)") auto

declare free_coalesce.simps [simp del]

definition pmm_free_pages :: "u64 \<Rightarrow> nat \<Rightarrow> pmm \<Rightarrow> pmm" where
  "pmm_free_pages ptr order s =
     (if ptr = 0 \<or> order \<ge> PMM_MAX_ORDER then s
      else
        let pfn = unat (ptr div PAGE_SIZE) in
        if pfn \<ge> total_phys_pages s then s
        else if is_free (page_array s pfn) then s
        else
          let s1 = upd_page pfn (\<lambda>k. k\<lparr>is_free := True\<rparr>) s;
              s2 = s1\<lparr>free_phys_pages := free_phys_pages s1 + 2 ^ order\<rparr>;
              (pfn', order', s3) = free_coalesce pfn order s2;
              s4 = upd_page pfn' (\<lambda>k. k\<lparr>pg_order := order', is_free := True\<rparr>) s3
          in sync_legacy_globals (add_count order' 1 (list_add order' pfn' s4)))"

definition pmm_free :: "u64 \<Rightarrow> pmm \<Rightarrow> pmm" where
  "pmm_free ptr s = pmm_free_pages ptr 0 s"

subsection \<open>Accounting\<close>

definition pmm_get_free_pages :: "pmm \<Rightarrow> u64" where
  "pmm_get_free_pages s = free_phys_pages s"

definition pmm_get_used_memory :: "pmm \<Rightarrow> u64" where
  "pmm_get_used_memory s =
     (if free_phys_pages s > of_nat (total_phys_pages s) then 0
      else (of_nat (total_phys_pages s) - free_phys_pages s) * PAGE_SIZE)"

definition pmm_get_total_memory :: "pmm \<Rightarrow> u64" where
  "pmm_get_total_memory s = of_nat (total_phys_pages s) * PAGE_SIZE"

subsection \<open>Initialisation\<close>

text \<open>
  \<open>pmm_init\<close> over the memory map of the boot loader: it sizes the descriptor array by the highest
  usable address, carves the array out of the first usable entry that is long enough, and frees every
  remaining usable page except page 0. \<open>None\<close> is \<open>PANIC\<close>; a descriptor takes 24 bytes.
\<close>

record mm_entry =
  mm_base :: u64
  mm_length :: u64
  mm_type :: u64

abbreviation (input) LIMINE_MEMMAP_USABLE :: u64 where "LIMINE_MEMMAP_USABLE \<equiv> 0"

definition mm_max_addr :: "mm_entry list \<Rightarrow> u64" where
  "mm_max_addr es = fold (\<lambda>e m. if mm_type e = LIMINE_MEMMAP_USABLE
     then let en = mm_base e + mm_length e in if en > m then en else m else m) es 0"

fun reserve_array :: "u64 \<Rightarrow> mm_entry list \<Rightarrow> u64 \<times> mm_entry list" where
  "reserve_array sz [] = (0, [])"
| "reserve_array sz (e # es) =
     (if mm_type e = LIMINE_MEMMAP_USABLE \<and> mm_length e \<ge> sz
      then (mm_base e, e\<lparr>mm_base := mm_base e + sz, mm_length := mm_length e - sz\<rparr> # es)
      else let (a, es') = reserve_array sz es in (a, e # es'))"

definition init_page :: "nat \<Rightarrow> pmm \<Rightarrow> pmm" where
  "init_page pfn s =
     (if pfn = 0 then s
      else pmm_free_pages (of_nat pfn * PAGE_SIZE) 0
             (upd_page pfn (\<lambda>g. g\<lparr>is_free := False, pg_order := 0\<rparr>) s))"

definition init_entry :: "mm_entry \<Rightarrow> pmm \<Rightarrow> pmm" where
  "init_entry e s =
     (if mm_type e = LIMINE_MEMMAP_USABLE then
        let base_pfn = unat (mm_base e div PAGE_SIZE); count = unat (mm_length e div PAGE_SIZE)
        in fold (\<lambda>p. init_page (base_pfn + p)) [0..<count] s
      else s)"

definition empty_pmm :: "nat \<Rightarrow> pmm" where
  "empty_pmm n = \<lparr>freelist = \<lambda>_. None, free_count = \<lambda>_. 0,
     page_array = \<lambda>_. \<lparr>pg_flags = 0, pg_order = 0, is_free = False, pg_next = None, pg_prev = None\<rparr>,
     total_phys_pages = n, free_phys_pages = 0, total_pages = 0, free_memory = 0\<rparr>"

definition array_bytes :: "mm_entry list \<Rightarrow> u64" where
  "array_bytes es =
     (let page_array_size = (mm_max_addr es div PAGE_SIZE) * 24
      in ((page_array_size + PAGE_SIZE - 1) div PAGE_SIZE) * PAGE_SIZE)"

definition pmm_init :: "mm_entry list \<Rightarrow> pmm option" where
  "pmm_init es =
     (let n = unat (mm_max_addr es div PAGE_SIZE);
          (page_array_phys, es') = reserve_array (array_bytes es) es
      in if page_array_phys = 0 then None
         else Some (sync_legacy_globals (fold init_entry es' (empty_pmm n))))"

subsection \<open>Buddies and blocks\<close>

text \<open>\<open>blk p o\<close> is the set of pages of the block of order \<open>o\<close> at page \<open>p\<close>.\<close>

definition blk :: "nat \<Rightarrow> nat \<Rightarrow> nat set" where
  "blk p order = {p..<p + 2 ^ order}"

lemma buddy_even:
  fixes p :: nat
  assumes "2 ^ k dvd p" and "even (p div 2 ^ k)"
  shows "p XOR 2 ^ k = p + 2 ^ k" and "unset_bit k p = p" and "2 ^ Suc k dvd p"
proof -
  from assms obtain m where p: "p = push_bit k (2 * m)"
    by (auto simp: push_bit_eq_mult elim!: dvdE evenE)
  have x: "(2 * m) XOR 1 = 2 * m + (1::nat)"
    by (subst xor_one_eq) simp
  have "p XOR 2 ^ k = push_bit k ((2 * m) XOR 1)"
    by (simp only: p push_bit_xor push_bit_of_1)
  also have "\<dots> = p + 2 ^ k"
    by (simp only: x p) (simp add: push_bit_eq_mult algebra_simps)
  finally show "p XOR 2 ^ k = p + 2 ^ k" .
  have "\<not> bit p k"
    by (simp add: p bit_push_bit_iff_nat bit_0)
  then show "unset_bit k p = p"
    by (intro bit_eqI) (auto simp: bit_unset_bit_iff)
  show "2 ^ Suc k dvd p"
    by (simp add: p push_bit_eq_mult)
qed

lemma buddy_odd:
  fixes p :: nat
  assumes "2 ^ k dvd p" and "odd (p div 2 ^ k)"
  shows "p XOR 2 ^ k = p - 2 ^ k" and "unset_bit k p = p - 2 ^ k" and "2 ^ k \<le> p"
    and "2 ^ Suc k dvd p - 2 ^ k"
proof -
  from assms obtain m where p: "p = push_bit k (2 * m + 1)"
    by (auto simp: push_bit_eq_mult elim!: dvdE oddE)
  have x: "(2 * m + 1) XOR 1 = (2 * m :: nat)"
    by (subst xor_one_eq) simp
  have e: "p - 2 ^ k = push_bit k (2 * m)"
    by (simp add: p push_bit_eq_mult algebra_simps)
  have "p XOR 2 ^ k = push_bit k ((2 * m + 1) XOR 1)"
    by (simp only: p push_bit_xor push_bit_of_1)
  then show x2: "p XOR 2 ^ k = p - 2 ^ k"
    by (simp only: x e)
  have "bit p k"
    by (simp add: p bit_push_bit_iff_nat bit_0)
  then have "unset_bit k p = p XOR 2 ^ k"
    by (intro bit_eqI) (auto simp: bit_unset_bit_iff bit_xor_iff bit_exp_iff)
  with x2 show "unset_bit k p = p - 2 ^ k" by simp
  show "2 ^ k \<le> p" by (simp add: p push_bit_eq_mult)
  show "2 ^ Suc k dvd p - 2 ^ k" by (simp add: e push_bit_eq_mult)
qed

lemma blk_Suc: "blk p (Suc k) = blk p k \<union> blk (p + 2 ^ k) k"
  by (auto simp: blk_def)

lemma blk_self [simp]: "p \<in> blk p k"
  by (simp add: blk_def)

lemma blk_0 [simp]: "blk p 0 = {p}"
  by (auto simp: blk_def)

lemma blk_halves_disjoint: "blk p k \<inter> blk (p + 2 ^ k) k = {}"
  by (auto simp: blk_def)

lemma card_blk [simp]: "card (blk p k) = 2 ^ k"
  by (simp add: blk_def)

text \<open>Aligned blocks are nested or disjoint; an aligned page in a block of its order is its head.\<close>

lemma aligned_in_blk:
  assumes "2 ^ j dvd q" and "2 ^ k dvd p" and "q \<in> blk p k" and "k \<le> j"
  shows "q = p"
proof -
  from assms(1,4) have "2 ^ k dvd q" by (rule power_le_dvd)
  then have "2 ^ k dvd q - p" using assms(2) by (rule dvd_diff_nat)
  moreover have "q - p < 2 ^ k" and "p \<le> q" using assms(3) by (auto simp: blk_def)
  ultimately show ?thesis by (auto dest: nat_dvd_not_less)
qed

lemma aligned_nested:
  assumes "2 ^ j dvd q" and "2 ^ k dvd p" and "q \<in> blk p k" and "j \<le> k"
  shows "blk q j \<subseteq> blk p k"
proof -
  have "2 ^ j dvd p" using assms(2,4) by (rule power_le_dvd)
  then have "2 ^ j dvd (p + 2 ^ k - q)"
    using assms(1,4) by (intro dvd_diff_nat dvd_add) (auto simp: le_imp_power_dvd)
  moreover have "0 < p + 2 ^ k - q" using assms(3) by (auto simp: blk_def)
  ultimately have "2 ^ j \<le> p + 2 ^ k - q" by (rule dvd_imp_le)
  with assms(3) show ?thesis by (auto simp: blk_def)
qed

lemma aligned_overlap:
  assumes "2 ^ j dvd q" and "2 ^ k dvd p" and "x \<in> blk q j" and "x \<in> blk p k" and "j \<le> k"
  shows "q \<in> blk p k"
proof -
  have j: "2 ^ j dvd p" using assms(2,5) by (rule power_le_dvd)
  have "p \<le> q"
  proof (rule ccontr)
    assume "\<not> p \<le> q"
    then have "2 ^ j dvd p - q" and "0 < p - q" using j assms(1) by (auto intro: dvd_diff_nat)
    then have "2 ^ j \<le> p - q" by (rule dvd_imp_le)
    with assms(3,4) \<open>\<not> p \<le> q\<close> show False by (auto simp: blk_def)
  qed
  with assms(3,4) show ?thesis by (auto simp: blk_def)
qed

subsection \<open>The free lists are lists\<close>

abbreviation nxt :: "pmm \<Rightarrow> nat \<Rightarrow> nat option" where "nxt s q \<equiv> pg_next (page_array s q)"
abbreviation prv :: "pmm \<Rightarrow> nat \<Rightarrow> nat option" where "prv s q \<equiv> pg_prev (page_array s q)"
abbreviation freep :: "pmm \<Rightarrow> nat \<Rightarrow> bool" where "freep s q \<equiv> is_free (page_array s q)"
abbreviation ordp :: "pmm \<Rightarrow> nat \<Rightarrow> nat" where "ordp s q \<equiv> pg_order (page_array s q)"

lemma upd_page_sel [simp]:
  "page_array (upd_page p f s) = (page_array s)(p := f (page_array s p))"
  "freelist (upd_page p f s) = freelist s" "free_count (upd_page p f s) = free_count s"
  "total_phys_pages (upd_page p f s) = total_phys_pages s"
  "free_phys_pages (upd_page p f s) = free_phys_pages s"
  by (simp_all add: upd_page_def)

lemma add_count_sel [simp]:
  "page_array (add_count k d s) = page_array s" "freelist (add_count k d s) = freelist s"
  "free_count (add_count k d s) = (free_count s)(k := free_count s k + d)"
  "total_phys_pages (add_count k d s) = total_phys_pages s"
  "free_phys_pages (add_count k d s) = free_phys_pages s"
  by (simp_all add: add_count_def)

lemma list_add_sel [simp]:
  "freep (list_add k p s) q = freep s q" "ordp (list_add k p s) q = ordp s q"
  "freelist (list_add k p s) = (freelist s)(k := Some p)"
  "free_count (list_add k p s) = free_count s"
  "total_phys_pages (list_add k p s) = total_phys_pages s"
  "free_phys_pages (list_add k p s) = free_phys_pages s"
  by (simp_all add: list_add_def Let_def split: option.split)

lemma list_remove_sel [simp]:
  "freep (list_remove k p s) q = freep s q" "ordp (list_remove k p s) q = ordp s q"
  "free_count (list_remove k p s) = free_count s"
  "total_phys_pages (list_remove k p s) = total_phys_pages s"
  "free_phys_pages (list_remove k p s) = free_phys_pages s"
  by (simp_all add: list_remove_def Let_def split: option.split)

lemma list_add_links:
  assumes "freelist s k \<noteq> Some p"
  shows "nxt (list_add k p s) q = (if q = p then freelist s k else nxt s q)"
    and "prv (list_add k p s) q =
      (if q = p then None else if freelist s k = Some q then Some p else prv s q)"
  using assms by (auto simp: list_add_def Let_def split: option.split)

lemma list_remove_links:
  "nxt (list_remove k p s) q =
     (if q = p then None else if prv s p = Some q then nxt s p else nxt s q)"
  "prv (list_remove k p s) q =
     (if q = p then None else if nxt s p = Some q then prv s p else prv s q)"
  "freelist (list_remove k p s) =
     (if prv s p = None then (freelist s)(k := nxt s p) else freelist s)"
  by (auto simp: list_remove_def Let_def split: option.split)

definition fl_list :: "pmm \<Rightarrow> nat \<Rightarrow> nat list \<Rightarrow> bool" where
  "fl_list s k xs \<longleftrightarrow> links (nxt s) (prv s) None xs None \<and> distinct xs \<and>
     freelist s k = first_or None xs \<and> free_count s k = of_nat (length xs)"

definition fl_rep :: "pmm \<Rightarrow> (nat \<Rightarrow> nat list) \<Rightarrow> bool" where
  "fl_rep s F \<longleftrightarrow> (\<forall>k < PMM_MAX_ORDER. fl_list s k (F k)) \<and>
     (\<forall>j < PMM_MAX_ORDER. \<forall>k < PMM_MAX_ORDER. j \<noteq> k \<longrightarrow> set (F j) \<inter> set (F k) = {})"

lemma fl_rep_list: "fl_rep s F \<Longrightarrow> k < PMM_MAX_ORDER \<Longrightarrow> fl_list s k (F k)"
  by (simp add: fl_rep_def)

lemma fl_rep_other:
  "fl_rep s F \<Longrightarrow> j < PMM_MAX_ORDER \<Longrightarrow> k < PMM_MAX_ORDER \<Longrightarrow> q \<in> set (F j) \<Longrightarrow> q \<in> set (F k) \<Longrightarrow> j = k"
  by (auto simp: fl_rep_def)

lemma fl_list_frame:
  assumes "fl_list s k xs" and "\<And>q. q \<in> set xs \<Longrightarrow> nxt s' q = nxt s q \<and> prv s' q = prv s q"
    and "freelist s' k = freelist s k" and "free_count s' k = free_count s k"
  shows "fl_list s' k xs"
  using assms links_cong [of xs "nxt s'" "nxt s" "prv s'" "prv s" None None]
  by (simp add: fl_list_def)

lemma fl_rep_cong:
  assumes "fl_rep s F" and "\<And>q. nxt s' q = nxt s q \<and> prv s' q = prv s q"
    and "freelist s' = freelist s" and "free_count s' = free_count s"
  shows "fl_rep s' F"
  using assms fl_list_frame [of s _ _ s'] by (simp add: fl_rep_def)

text \<open>Replacing one list by another whose links do not reach into the rest.\<close>

lemma fl_rep_update:
  assumes r: "fl_rep s F" and k: "k < PMM_MAX_ORDER" and n: "fl_list s' k ys"
    and d: "\<And>j. j < PMM_MAX_ORDER \<Longrightarrow> j \<noteq> k \<Longrightarrow> set (F j) \<inter> set ys = {}"
    and f: "\<And>j q. j < PMM_MAX_ORDER \<Longrightarrow> j \<noteq> k \<Longrightarrow> q \<in> set (F j) \<Longrightarrow>
              nxt s' q = nxt s q \<and> prv s' q = prv s q"
    and h: "\<And>j. j \<noteq> k \<Longrightarrow> freelist s' j = freelist s j \<and> free_count s' j = free_count s j"
  shows "fl_rep s' (F(k := ys))"
  unfolding fl_rep_def
proof (intro conjI allI impI)
  fix j :: nat
  assume j: "j < 16"
  show "fl_list s' j ((F(k := ys)) j)"
  proof (cases "j = k")
    case False
    with fl_list_frame [OF fl_rep_list [OF r j], of s'] f [OF j] h [of j] show ?thesis by simp
  qed (use n in simp)
next
  fix i j :: nat
  assume "i < 16" and "j < 16" and "i \<noteq> j"
  with r d [of i] d [of j] show "set ((F(k := ys)) i) \<inter> set ((F(k := ys)) j) = {}"
    by (auto simp: fl_rep_def)
qed

lemma fl_rep_add:
  assumes r: "fl_rep s F" and k: "k < PMM_MAX_ORDER"
    and p: "\<And>j. j < PMM_MAX_ORDER \<Longrightarrow> p \<notin> set (F j)"
  shows "fl_rep (add_count k 1 (list_add k p s)) (F(k := p # F k))"
proof (rule fl_rep_update [OF r k])
  note l = fl_rep_list [OF r k, unfolded fl_list_def]
  have fp: "freelist s k \<noteq> Some p" using l p [OF k] by (auto dest: first_or_in)
  note u = list_add_links [OF fp]
  have "links (nxt (list_add k p s)) (prv (list_add k p s)) None (p # F k) None"
    by (rule links_push [of "nxt s" "prv s"]) (use l p [OF k] in \<open>auto simp: u dest: first_or_in\<close>)
  then show "fl_list (add_count k 1 (list_add k p s)) k (p # F k)"
    using l p [OF k] by (simp add: fl_list_def)
  fix j :: nat
  assume j: "j < 16" "j \<noteq> k"
  show "set (F j) \<inter> set (p # F k) = {}"
    using p [OF j(1)] r k j by (auto simp: fl_rep_def)
  fix q assume q: "q \<in> set (F j)"
  then have "q \<noteq> p" and "q \<notin> set (F k)" using p [OF j(1)] fl_rep_other [OF r j(1) k] j by auto
  moreover have "freelist s k \<noteq> Some q" using l \<open>q \<notin> set (F k)\<close> first_or_in [of "F k" q] by auto
  ultimately show "nxt (add_count k 1 (list_add k p s)) q = nxt s q \<and>
      prv (add_count k 1 (list_add k p s)) q = prv s q"
    by (simp add: u)
qed simp

lemma fl_list_remove:
  assumes l: "fl_list s k xs" and p: "p \<in> set xs"
  shows "fl_list (add_count k (- 1) (list_remove k p s)) k (remove1 p xs)"
proof -
  have ln: "links (nxt s) (prv s) None xs None" and d: "distinct xs"
    and h: "freelist s k = first_or None xs" and c: "free_count s k = of_nat (length xs)"
    using l by (simp_all add: fl_list_def)
  from ln p obtain pre post where xs: "xs = pre @ p # post" and pv: "prv s p = last_or None pre"
    and nx: "nxt s p = first_or None post" by (rule links_neighbours)
  let ?s = "list_remove k p s"
  have r: "remove1 p xs = pre @ post" using d xs by (simp add: remove1_append)
  have "links (nxt ?s) (prv ?s) None (pre @ post) None"
  proof (rule links_unlink)
    show "links (nxt s) (prv s) None (pre @ p # post) None" "distinct (pre @ p # post)"
      using ln d xs by simp_all
    have np: "prv s p \<noteq> Some p" "nxt s p \<noteq> Some p"
      using d xs pv nx last_or_in [of pre p] first_or_in [of post p] by auto
    show "nxt ?s y = nxt s p" if "prv s p = Some y" for y
      using that np by (auto simp: list_remove_links)
    show "prv ?s y = prv s p" if "nxt s p = Some y" for y
      using that np by (auto simp: list_remove_links)
  qed (use d xs in \<open>auto simp: list_remove_links\<close>)
  moreover have "freelist ?s k = first_or None (pre @ post)"
    using h xs pv nx by (cases pre) (auto simp: list_remove_links last_or_conv)
  moreover have "distinct (pre @ post)" using d xs by auto
  ultimately show ?thesis using c xs unfolding r by (simp add: fl_list_def)
qed

lemma fl_rep_remove:
  assumes r: "fl_rep s F" and k: "k < PMM_MAX_ORDER" and p: "p \<in> set (F k)"
  shows "fl_rep (add_count k (- 1) (list_remove k p s)) (F(k := remove1 p (F k)))"
proof (rule fl_rep_update [OF r k])
  note l = fl_rep_list [OF r k]
  show "fl_list (add_count k (- 1) (list_remove k p s)) k (remove1 p (F k))"
    using l p by (rule fl_list_remove)
  fix j :: nat
  assume j: "j < 16" "j \<noteq> k"
  show "set (F j) \<inter> set (remove1 p (F k)) = {}"
    using fl_rep_other [OF r j(1) k] j(2) set_remove1_subset [of p "F k"] by blast
  fix q assume q: "q \<in> set (F j)"
  have lk: "links (nxt s) (prv s) None (F k) None" using l by (simp add: fl_list_def)
  have "q \<notin> set (F k)" using fl_rep_other [OF r j(1) k q] j(2) by blast
  then have "q \<noteq> p" "prv s p \<noteq> Some q" "nxt s p \<noteq> Some q"
    using p links_prv_in [OF lk p] links_nxt_in [OF lk p] by auto
  then show "nxt (add_count k (- 1) (list_remove k p s)) q = nxt s q \<and>
      prv (add_count k (- 1) (list_remove k p s)) q = prv s q"
    by (simp add: list_remove_links)
qed (simp add: list_remove_links)

subsection \<open>The invariant\<close>

text \<open>
  \<open>fblocks F\<close> are the free blocks as pairs of a page and an order. \<open>tiled N B\<close>: the blocks \<open>B\<close> are
  aligned, lie between page 1 and page \<open>N\<close>, and do not overlap. \<open>flags_ok s B q\<close> constrains the
  descriptor of page \<open>q\<close>: if it is marked free without heading a free list entry, then it lies inside
  a block of a larger order than its own, and is aligned to its own order.
\<close>

definition fblocks :: "(nat \<Rightarrow> nat list) \<Rightarrow> (nat \<times> nat) set" where
  "fblocks F = {(p, k). k < PMM_MAX_ORDER \<and> p \<in> set (F k)}"

definition tiled :: "nat \<Rightarrow> (nat \<times> nat) set \<Rightarrow> bool" where
  "tiled N B \<longleftrightarrow>
     (\<forall>(p, k) \<in> B. k < PMM_MAX_ORDER \<and> 2 ^ k dvd p \<and> 0 < p \<and> p + 2 ^ k \<le> N) \<and>
     (\<forall>p k q j x. (p, k) \<in> B \<and> (q, j) \<in> B \<and> x \<in> blk p k \<and> x \<in> blk q j \<longrightarrow> p = q \<and> k = j)"

definition flags_ok :: "pmm \<Rightarrow> (nat \<times> nat) set \<Rightarrow> (nat \<times> nat) set \<Rightarrow> nat \<Rightarrow> bool" where
  "flags_ok s FB B q \<longleftrightarrow> (freep s q \<longrightarrow> (q, ordp s q) \<in> FB \<or>
     2 ^ ordp s q dvd q \<and> (\<exists>(p, k) \<in> B. ordp s q < k \<and> q \<in> blk p k))"

definition heads_ok :: "pmm \<Rightarrow> (nat \<times> nat) set \<Rightarrow> (nat \<times> nat) set \<Rightarrow> bool" where
  "heads_ok s FB A \<longleftrightarrow> (\<forall>(p, k) \<in> FB. freep s p \<and> ordp s p = k) \<and>
     (\<forall>(p, k) \<in> A. \<not> freep s p \<and> ordp s p = k)"

definition coalesced :: "(nat \<times> nat) set \<Rightarrow> bool" where
  "coalesced FB \<longleftrightarrow> (\<forall>(p, k) \<in> FB. k < PMM_MAX_ORDER - 1 \<longrightarrow> (p XOR 2 ^ k, k) \<notin> FB)"

definition npages :: "(nat \<Rightarrow> nat list) \<Rightarrow> nat" where
  "npages F = (\<Sum>k<PMM_MAX_ORDER. 2 ^ k * length (F k))"

definition buddy_inv :: "pmm \<Rightarrow> (nat \<Rightarrow> nat list) \<Rightarrow> (nat \<times> nat) set \<Rightarrow> bool" where
  "buddy_inv s F A \<longleftrightarrow> fl_rep s F \<and> fblocks F \<inter> A = {} \<and>
     tiled (total_phys_pages s) (fblocks F \<union> A) \<and> heads_ok s (fblocks F) A \<and>
     (\<forall>q. flags_ok s (fblocks F) (fblocks F \<union> A) q) \<and> coalesced (fblocks F) \<and>
     free_phys_pages s = of_nat (npages F)"

definition pages_of :: "(nat \<times> nat) set \<Rightarrow> nat set" where
  "pages_of B = (\<Union>(p, k) \<in> B. blk p k)"

lemma tiled_blk:
  "tiled N B \<Longrightarrow> (p, k) \<in> B \<Longrightarrow> k < PMM_MAX_ORDER \<and> 2 ^ k dvd p \<and> 0 < p \<and> p + 2 ^ k \<le> N"
  by (auto simp: tiled_def)

lemma tiled_disjoint:
  "tiled N B \<Longrightarrow> (p, k) \<in> B \<Longrightarrow> (q, j) \<in> B \<Longrightarrow> x \<in> blk p k \<Longrightarrow> x \<in> blk q j \<Longrightarrow> p = q \<and> k = j"
  unfolding tiled_def by blast

lemma tiledI:
  assumes "\<And>p k. (p, k) \<in> B \<Longrightarrow> k < PMM_MAX_ORDER \<and> 2 ^ k dvd p \<and> 0 < p \<and> p + 2 ^ k \<le> N"
    and "\<And>p k q j x. (p, k) \<in> B \<Longrightarrow> (q, j) \<in> B \<Longrightarrow> x \<in> blk p k \<Longrightarrow> x \<in> blk q j \<Longrightarrow> p = q \<and> k = j"
  shows "tiled N B"
  unfolding tiled_def using assms by blast

lemma tiled_subset: "tiled N B \<Longrightarrow> C \<subseteq> B \<Longrightarrow> tiled N C"
  unfolding tiled_def by blast

text \<open>A block may be replaced by smaller ones that do not overlap each other.\<close>

lemma tiled_replace:
  assumes t: "tiled N (insert (p, k) B)" and new: "(p, k) \<notin> B"
    and c: "\<And>q j. (q, j) \<in> C \<Longrightarrow> j < PMM_MAX_ORDER \<and> 2 ^ j dvd q \<and> blk q j \<subseteq> blk p k"
    and d: "\<And>q j q' j' x. (q, j) \<in> C \<Longrightarrow> (q', j') \<in> C \<Longrightarrow> x \<in> blk q j \<Longrightarrow> x \<in> blk q' j' \<Longrightarrow>
              q = q' \<and> j = j'"
  shows "tiled N (B \<union> C)"
proof (rule tiledI)
  have pk: "0 < p" "p + 2 ^ k \<le> N" using tiled_blk [OF t, of p k] by simp_all
  have cb: False if "(q, j) \<in> C" "(q', j') \<in> B" "x \<in> blk q j" "x \<in> blk q' j'" for q j q' j' x
    using c [OF that(1)] tiled_disjoint [OF t, of p k q' j' x] that new by auto
  fix q j assume qj: "(q, j) \<in> B \<union> C"
  have "0 < q \<and> q + 2 ^ j \<le> N" if "(q, j) \<in> C"
  proof -
    have "{q..<q + 2 ^ j} \<subseteq> {p..<p + 2 ^ k}" using c [OF that] by (simp add: blk_def)
    then have "p \<le> q \<and> q + 2 ^ j \<le> p + 2 ^ k" by (simp add: atLeastLessThan_subset_iff)
    with pk show ?thesis by auto
  qed
  with qj show "j < 16 \<and> 2 ^ j dvd q \<and> 0 < q \<and> q + 2 ^ j \<le> N"
    using c tiled_blk [OF t, of q j] by blast
  fix q' j' x assume q': "(q', j') \<in> B \<union> C" and x: "x \<in> blk q j" "x \<in> blk q' j'"
  show "q = q' \<and> j = j'"
    using qj q' cb [OF _ _ x] cb [OF _ _ x(2,1)] d [OF _ _ x] tiled_disjoint [OF t _ _ x] by blast
qed

lemma fblocks_add: "k < PMM_MAX_ORDER \<Longrightarrow> fblocks (F(k := p # F k)) = insert (p, k) (fblocks F)"
  by (auto simp: fblocks_def)

lemma fblocks_remove:
  assumes "fl_rep s F" and "k < PMM_MAX_ORDER"
  shows "fblocks (F(k := remove1 p (F k))) = fblocks F - {(p, k)}"
  using fl_rep_list [OF assms] by (auto simp: fblocks_def fl_list_def)

lemma fblocks_iff: "(p, k) \<in> fblocks F \<longleftrightarrow> k < PMM_MAX_ORDER \<and> p \<in> set (F k)"
  by (simp add: fblocks_def)

lemma npages_upd:
  assumes "k < PMM_MAX_ORDER"
  shows "npages (F(k := xs)) + 2 ^ k * length (F k) = npages F + 2 ^ k * length xs"
proof -
  have "npages G = 2 ^ k * length (G k) + (\<Sum>j\<in>{..<16} - {k}. 2 ^ j * length (G j))" for G
    unfolding npages_def using assms by (subst sum.remove [of _ k]) auto
  from this [of F] this [of "F(k := xs)"] show ?thesis by simp
qed

lemma npages_add: "k < PMM_MAX_ORDER \<Longrightarrow> npages (F(k := p # F k)) = npages F + 2 ^ k"
  using npages_upd [of k F "p # F k"] by simp

lemma npages_remove:
  assumes "k < PMM_MAX_ORDER" and "p \<in> set (F k)"
  shows "npages F = npages (F(k := remove1 p (F k))) + 2 ^ k"
proof -
  obtain n where "length (F k) = Suc n" using assms(2) by (cases "F k") auto
  with npages_upd [OF assms(1), of F "remove1 p (F k)"] assms(2) show ?thesis
    by (simp add: length_remove1)
qed

subsection \<open>A block between the lists\<close>

text \<open>
  While a block is split or merged it is in no list: \<open>float_inv s F A p k\<close> is the invariant with the
  block \<open>(p, k)\<close> set aside and the descriptor of \<open>p\<close> unconstrained.
\<close>

definition float_inv :: "pmm \<Rightarrow> (nat \<Rightarrow> nat list) \<Rightarrow> (nat \<times> nat) set \<Rightarrow> nat \<Rightarrow> nat \<Rightarrow> bool" where
  "float_inv s F A p k \<longleftrightarrow> fl_rep s F \<and> fblocks F \<inter> A = {} \<and> (p, k) \<notin> fblocks F \<union> A \<and>
     tiled (total_phys_pages s) (insert (p, k) (fblocks F \<union> A)) \<and> heads_ok s (fblocks F) A \<and>
     (\<forall>q. q \<noteq> p \<longrightarrow> flags_ok s (fblocks F) (insert (p, k) (fblocks F \<union> A)) q) \<and>
     coalesced (fblocks F)"

lemma float_invD:
  assumes "float_inv s F A p k"
  shows "fl_rep s F" "fblocks F \<inter> A = {}" "(p, k) \<notin> fblocks F \<union> A"
    "tiled (total_phys_pages s) (insert (p, k) (fblocks F \<union> A))" "heads_ok s (fblocks F) A"
    "\<And>q. q \<noteq> p \<Longrightarrow> flags_ok s (fblocks F) (insert (p, k) (fblocks F \<union> A)) q"
    "coalesced (fblocks F)" "k < PMM_MAX_ORDER" "2 ^ k dvd p" "0 < p"
    "p + 2 ^ k \<le> total_phys_pages s"
  using assms tiled_blk [of "total_phys_pages s" "insert (p, k) (fblocks F \<union> A)" p k]
  by (simp_all add: float_inv_def)

text \<open>No other block meets the floating one.\<close>

lemma float_disjoint:
  assumes "float_inv s F A p k" and "(q, j) \<in> fblocks F \<union> A" and "x \<in> blk p k"
  shows "x \<notin> blk q j"
  using tiled_disjoint [OF float_invD(4) [OF assms(1)], of p k q j x] float_invD(3) [OF assms(1)]
    assms(2,3) by blast

lemma float_head_fresh:
  assumes "float_inv s F A p k" and "x \<in> blk p k"
  shows "(x, j) \<notin> fblocks F \<union> A"
  using float_disjoint [OF assms(1) _ assms(2), of x j] by (auto simp: blk_def)

lemma flags_ok_mono:
  "flags_ok s FB B q \<Longrightarrow> freep s' q = freep s q \<Longrightarrow> ordp s' q = ordp s q \<Longrightarrow> FB \<subseteq> FB' \<Longrightarrow> B \<subseteq> B' \<Longrightarrow>
     flags_ok s' FB' B' q"
  unfolding flags_ok_def by fastforce

text \<open>The blocks may also become coarser.\<close>

lemma flags_ok_coarsen:
  assumes f: "flags_ok s FB B q" and e: "freep s' q = freep s q" "ordp s' q = ordp s q"
    and FB: "(q, ordp s q) \<in> FB \<Longrightarrow> (q, ordp s q) \<in> FB'"
    and B: "\<And>c j. (c, j) \<in> B \<Longrightarrow> \<exists>c' j'. (c', j') \<in> B' \<and> j \<le> j' \<and> blk c j \<subseteq> blk c' j'"
  shows "flags_ok s' FB' B' q"
proof -
  have "\<exists>(c', j') \<in> B'. ordp s q < j' \<and> q \<in> blk c' j'"
    if h: "(c, j) \<in> B" "ordp s q < j" "q \<in> blk c j" for c j
  proof -
    obtain c' j' where "(c', j') \<in> B'" "j \<le> j'" "blk c j \<subseteq> blk c' j'" using B [OF h(1)] by blast
    with h(2,3) show ?thesis by (intro bexI [of _ "(c', j')"]) auto
  qed
  then show ?thesis using f e FB unfolding flags_ok_def by auto
qed

lemma heads_free: "heads_ok s FB A \<Longrightarrow> (p, k) \<in> FB \<Longrightarrow> freep s p \<and> ordp s p = k"
  by (auto simp: heads_ok_def)

lemma heads_alloc: "heads_ok s FB A \<Longrightarrow> (p, k) \<in> A \<Longrightarrow> \<not> freep s p \<and> ordp s p = k"
  by (auto simp: heads_ok_def)

lemma heads_ok_cong:
  "heads_ok s FB A \<Longrightarrow> (\<And>p k. (p, k) \<in> FB \<union> A \<Longrightarrow> freep s' p = freep s p \<and> ordp s' p = ordp s p) \<Longrightarrow>
     heads_ok s' FB A"
  unfolding heads_ok_def by fastforce

lemma float_begin:
  assumes i: "buddy_inv s F A" and k: "k < PMM_MAX_ORDER" and p: "p \<in> set (F k)"
  shows "float_inv (add_count k (- 1) (list_remove k p s)) (F(k := remove1 p (F k))) A p k"
proof -
  let ?s = "add_count k (- 1) (list_remove k p s)" and ?F = "F(k := remove1 p (F k))"
  have r: "fl_rep s F" using i by (simp add: buddy_inv_def)
  note fb = fblocks_remove [OF r k, of p]
  have pk: "(p, k) \<in> fblocks F" using k p by (simp add: fblocks_iff)
  have B: "insert (p, k) (fblocks ?F \<union> A) = fblocks F \<union> A" using fb pk by blast
  have "flags_ok ?s (fblocks ?F) (insert (p, k) (fblocks ?F \<union> A)) q" if "q \<noteq> p" for q
    using i that unfolding B by (auto simp: buddy_inv_def flags_ok_def fb)
  moreover have "heads_ok ?s (fblocks ?F) A"
    using i by (auto simp: buddy_inv_def heads_ok_def fb)
  moreover have "coalesced (fblocks ?F)"
    using i by (auto simp: buddy_inv_def coalesced_def fb)
  ultimately show ?thesis
    using fl_rep_remove [OF r k p] i pk unfolding float_inv_def B
    by (auto simp: buddy_inv_def fb)
qed

text \<open>One turn of the splitting loop: the upper half goes to its list.\<close>

lemma tiled_split:
  assumes t: "tiled N (insert (p, Suc c) B)" and new: "(p, Suc c) \<notin> B"
  shows "tiled N (insert (p, c) (insert (p + 2 ^ c, c) B))"
proof -
  have "Suc c < 16" "2 ^ Suc c dvd p" using tiled_blk [OF t, of p "Suc c"] by simp_all
  moreover from this(2) have "2 ^ c dvd p" by (rule power_le_dvd) simp
  ultimately have "tiled N (B \<union> {(p, c), (p + 2 ^ c, c)})"
    using blk_halves_disjoint [of p c]
    by (intro tiled_replace [OF t new]) (auto simp: blk_Suc)
  then show ?thesis by (simp add: insert_commute)
qed

lemma flags_ok_split:
  assumes f: "flags_ok s FB (insert (p, Suc c) B) q" and a: "2 ^ Suc c dvd p"
    and q: "q \<noteq> p" "q \<noteq> p + 2 ^ c"
  shows "flags_ok s FB (insert (p, c) (insert (p + 2 ^ c, c) B)) q"
proof (cases "freep s q \<and> (q, ordp s q) \<notin> FB \<and> ordp s q \<le> c \<and> q \<in> blk p (Suc c)")
  case True
  then have al: "2 ^ ordp s q dvd q" using f by (auto simp: flags_ok_def)
  have "2 ^ c dvd p" using a by (rule power_le_dvd) simp
  then have "ordp s q \<noteq> c"
    using aligned_in_blk [OF al, of c p] aligned_in_blk [OF al, of c "p + 2 ^ c"] True q
    by (auto simp: blk_Suc)
  with True al show ?thesis by (auto simp: flags_ok_def blk_Suc)
next
  case False
  with f show ?thesis by (auto simp: flags_ok_def blk_Suc)
qed

lemma float_split:
  assumes i: "float_inv s F A p (Suc c)"
  defines "b \<equiv> p XOR 2 ^ c"
  shows "float_inv (add_count c 1 (list_add c b (upd_page b (\<lambda>k. k\<lparr>pg_order := c, is_free := True\<rparr>) s)))
           (F(c := b # F c)) A p c"
proof -
  let ?u = "upd_page b (\<lambda>k. k\<lparr>pg_order := c, is_free := True\<rparr>) s"
  let ?s = "add_count c 1 (list_add c b ?u)" and ?F = "F(c := b # F c)"
  note d = float_invD [OF i]
  have c: "c < 16" using d(8) by simp
  have al: "2 ^ c dvd p" "even (p div 2 ^ c)" using d(9)
    by (rule power_le_dvd, simp) (use d(9) in \<open>auto elim!: dvdE\<close>)
  have b: "b = p + 2 ^ c" unfolding b_def using al by (rule buddy_even)
  have bb: "b \<in> blk p (Suc c)" by (simp add: b blk_def)
  have fresh: "(b, j) \<notin> fblocks F \<union> A" "(p, j) \<notin> fblocks F \<union> A" for j
    using float_head_fresh [OF i bb] float_head_fresh [OF i, of p] by simp_all
  note fb = fblocks_add [OF c, of F b]
  have "fl_rep ?u F" using d(1) by (rule fl_rep_cong) simp_all
  then have "fl_rep ?s ?F" by (rule fl_rep_add [OF _ c]) (use fresh(1) in \<open>auto simp: fblocks_iff\<close>)
  moreover have "tiled (total_phys_pages ?s) (insert (p, c) (fblocks ?F \<union> A))"
    unfolding fb using tiled_split [OF d(4,3)] by (simp add: b)
  moreover have "heads_ok ?s (fblocks ?F) A"
    using d(5) fresh(1) by (auto simp: heads_ok_def fb split: if_splits)
  moreover have "flags_ok ?s (fblocks ?F) (insert (p, c) (fblocks ?F \<union> A)) q" if "q \<noteq> p" for q
  proof (cases "q = b")
    case False
    then have "flags_ok s (fblocks F) (insert (p, c) (insert (p + 2 ^ c, c) (fblocks F \<union> A))) q"
      using flags_ok_split [OF d(6) d(9)] that b by simp
    then show ?thesis unfolding fb by (rule flags_ok_mono) (use False b in auto)
  qed (simp add: flags_ok_def fb)
  moreover have "coalesced (fblocks ?F)"
  proof -
    have x: "b XOR 2 ^ c = p" by (simp add: b_def xor.assoc)
    have "q XOR 2 ^ c = b \<Longrightarrow> q = p" for q
      unfolding b_def by (metis xor.assoc xor_self_eq xor.right_neutral)
    moreover have "b \<noteq> p" by (simp add: b)
    ultimately show ?thesis using d(7) fresh(2) x unfolding fb coalesced_def by auto
  qed
  moreover have "b \<noteq> p" by (simp add: b)
  ultimately show ?thesis
    using d(2) fresh by (auto simp: float_inv_def fb)
qed

lemma alloc_split_float:
  assumes "float_inv s F A p c" and "order \<le> c"
  shows "\<exists>F'. float_inv (alloc_split order p c s) F' A p order \<and>
    pages_of (fblocks F') \<union> blk p order = pages_of (fblocks F) \<union> blk p c \<and>
    npages F' + 2 ^ order = npages F + 2 ^ c"
  using assms
proof (induction c arbitrary: s F)
  case (Suc c)
  show ?case
  proof (cases "Suc c = order")
    case False
    let ?b = "p XOR 2 ^ c"
    have c: "c < 16" using float_invD(8) [OF Suc.prems(1)] by simp
    have a: "2 ^ Suc c dvd p" by (rule float_invD(9) [OF Suc.prems(1)])
    then have b: "?b = p + 2 ^ c" by (intro buddy_even) (auto elim!: dvdE)
    define G where "G = F(c := ?b # F c)"
    obtain F' where F': "float_inv (alloc_split order p (Suc c) s) F' A p order"
      "pages_of (fblocks F') \<union> blk p order = pages_of (fblocks G) \<union> blk p c"
      "npages F' + 2 ^ order = npages G + 2 ^ c"
      using Suc.IH [OF float_split [OF Suc.prems(1), folded G_def]] False Suc.prems(2)
      by (auto simp: Let_def)
    have "pages_of (fblocks G) \<union> blk p c = pages_of (fblocks F) \<union> blk p (Suc c)"
      unfolding G_def fblocks_add [OF c] pages_of_def blk_Suc b by auto
    moreover have "npages G = npages F + 2 ^ c" unfolding G_def by (rule npages_add [OF c])
    ultimately show ?thesis using F' by auto
  qed (use Suc.prems in auto)
qed auto

lemma float_alloc:
  assumes i: "float_inv s F A p k"
    and s': "s' = upd_page p (\<lambda>g. g\<lparr>pg_order := k, is_free := False\<rparr>) s\<lparr>free_phys_pages := of_nat (npages F)\<rparr>"
  shows "buddy_inv s' F (insert (p, k) A)"
proof -
  note d = float_invD [OF i]
  have fresh: "(p, j) \<notin> fblocks F \<union> A" for j
    using float_head_fresh [OF i, of p] by simp
  have "fl_rep s' F" using d(1) by (rule fl_rep_cong) (simp_all add: s')
  moreover have "heads_ok s' (fblocks F) (insert (p, k) A)"
    using d(5) fresh by (auto simp: heads_ok_def s' split: if_splits)
  moreover have "flags_ok s' (fblocks F) (fblocks F \<union> insert (p, k) A) q" for q
  proof (cases "q = p")
    case False
    from d(6) [OF this] show ?thesis by (rule flags_ok_mono) (use False in \<open>auto simp: s'\<close>)
  qed (simp add: flags_ok_def s')
  ultimately show ?thesis
    using d fresh by (auto simp: buddy_inv_def s')
qed

lemma buddy_inv_sync [simp]: "buddy_inv (sync_legacy_globals s) F A = buddy_inv s F A"
  by (simp add: buddy_inv_def sync_legacy_globals_def fl_rep_def fl_list_def heads_ok_def
      flags_ok_def)

lemma sync_sel [simp]:
  "total_phys_pages (sync_legacy_globals s) = total_phys_pages s"
  by (simp add: sync_legacy_globals_def)

lemma alloc_split_sel [simp]:
  "free_phys_pages (alloc_split order p c s) = free_phys_pages s"
  "total_phys_pages (alloc_split order p c s) = total_phys_pages s"
  by (induction c arbitrary: s) (auto simp: Let_def)

lemma buddy_inv_freelist:
  assumes "buddy_inv s F A" and "k < PMM_MAX_ORDER"
  shows "freelist s k = first_or None (F k)"
  using assms by (simp add: buddy_inv_def fl_rep_def fl_list_def)

text \<open>The block found by the scan is the first free one of the smallest sufficient order.\<close>

lemma alloc_found:
  assumes i: "buddy_inv s F A"
    and c: "find (\<lambda>c. freelist s c \<noteq> None) [order..<PMM_MAX_ORDER] = Some c"
  shows "order \<le> c" "c < PMM_MAX_ORDER" "the (freelist s c) \<in> set (F c)"
proof -
  from c obtain j where "j < 16 - order" "c = order + j" "freelist s c \<noteq> None"
    by (auto simp: find_Some_iff)
  then show "order \<le> c" and c16: "c < 16" by simp_all
  from \<open>freelist s c \<noteq> None\<close> show "the (freelist s c) \<in> set (F c)"
    using buddy_inv_freelist [OF i c16] by (cases "F c") auto
qed

lemma alloc_block:
  assumes i: "buddy_inv s F A" and o: "order < PMM_MAX_ORDER"
    and c: "find (\<lambda>c. freelist s c \<noteq> None) [order..<PMM_MAX_ORDER] = Some c"
  shows "\<exists>p s' F'. pmm_alloc_pages oom order s = (of_nat p * PAGE_SIZE, s') \<and>
    buddy_inv s' F' (insert (p, order) A) \<and> total_phys_pages s' = total_phys_pages s \<and>
    blk p order \<subseteq> pages_of (fblocks F) \<and>
    pages_of (fblocks F') = pages_of (fblocks F) - blk p order"
proof -
  note f = alloc_found [OF i c]
  let ?p = "the (freelist s c)"
  define G where "G = F(c := remove1 ?p (F c))"
  let ?s1 = "add_count c (- 1) (list_remove c ?p s)"
  have r: "fl_rep s F" using i by (simp add: buddy_inv_def)
  obtain F' where F': "float_inv (alloc_split order ?p c ?s1) F' A ?p order"
    "pages_of (fblocks F') \<union> blk ?p order = pages_of (fblocks G) \<union> blk ?p c"
    "npages F' + 2 ^ order = npages G + 2 ^ c"
    using alloc_split_float [OF float_begin [OF i f(2,3), folded G_def] f(1)] by auto
  have "npages F = npages F' + 2 ^ order"
    using npages_remove [of c ?p F] f F'(3) by (simp add: G_def)
  then have n: "free_phys_pages s - 2 ^ order = of_nat (npages F')"
    using i by (simp add: buddy_inv_def)
  have "(?p, c) \<in> fblocks F" using f by (simp add: fblocks_iff)
  then have "pages_of (fblocks G) \<union> blk ?p c = pages_of (fblocks F)"
    unfolding G_def fblocks_remove [OF r f(2)] pages_of_def by blast
  moreover have "pages_of (fblocks F') \<inter> blk ?p order = {}"
    using float_disjoint [OF F'(1)] by (auto simp: pages_of_def)
  ultimately have pg: "blk ?p order \<subseteq> pages_of (fblocks F)"
    "pages_of (fblocks F') = pages_of (fblocks F) - blk ?p order"
    using F'(2) by blast+
  let ?s2 = "upd_page ?p (\<lambda>g. g\<lparr>pg_order := order, is_free := False\<rparr>)
    (alloc_split order ?p c ?s1)\<lparr>free_phys_pages := of_nat (npages F')\<rparr>"
  have "pmm_alloc_pages oom order s = (of_nat ?p * PAGE_SIZE, sync_legacy_globals ?s2)"
    using o c n by (simp add: pmm_alloc_pages_def Let_def)
  moreover have "buddy_inv (sync_legacy_globals ?s2) F' (insert (?p, order) A)"
    using float_alloc [OF F'(1) refl] by simp
  ultimately show ?thesis
    using pg by (intro exI [of _ ?p] exI [of _ "sync_legacy_globals ?s2"] exI [of _ F']) simp
qed

text \<open>One turn of the coalescing loop: a free buddy of the same order is in its list.\<close>

lemma buddy_cases:
  fixes p :: nat
  assumes "2 ^ k dvd p"
  obtains (low) "p XOR 2 ^ k = p + 2 ^ k" "unset_bit k p = p" "2 ^ Suc k dvd p"
  | (high) b where "p = b + 2 ^ k" "p XOR 2 ^ k = b" "unset_bit k p = b" "2 ^ Suc k dvd b"
proof (cases "even (p div 2 ^ k)")
  case True
  with assms show ?thesis by (intro low buddy_even)
next
  case False
  show ?thesis
    by (rule high [of "p - 2 ^ k"]) (use buddy_odd [OF assms False] in auto)
qed

lemma buddy_merge_blk:
  assumes "2 ^ k dvd p"
  shows "blk (unset_bit k p) (Suc k) = blk p k \<union> blk (p XOR 2 ^ k) k"
    and "2 ^ Suc k dvd unset_bit k p" and "p XOR 2 ^ k \<noteq> p" and "2 ^ k dvd p XOR 2 ^ k"
    and "unset_bit k p = p \<or> unset_bit k p = p XOR 2 ^ k"
    and "blk p k \<inter> blk (p XOR 2 ^ k) k = {}"
proof -
  have "blk (unset_bit k p) (Suc k) = blk p k \<union> blk (p XOR 2 ^ k) k \<and>
    2 ^ Suc k dvd unset_bit k p \<and> p XOR 2 ^ k \<noteq> p \<and> 2 ^ k dvd p XOR 2 ^ k \<and>
    (unset_bit k p = p \<or> unset_bit k p = p XOR 2 ^ k) \<and> blk p k \<inter> blk (p XOR 2 ^ k) k = {}"
    using assms
  proof (cases rule: buddy_cases)
    case low
    with assms show ?thesis by (simp add: blk_Suc blk_halves_disjoint)
  next
    case (high b)
    have "2 ^ k dvd b" using high(4) by (rule power_le_dvd) simp
    with high show ?thesis
      by (simp add: blk_Suc blk_halves_disjoint Int_commute [of _ "blk b k"] Un_commute)
  qed
  then show "blk (unset_bit k p) (Suc k) = blk p k \<union> blk (p XOR 2 ^ k) k"
    and "2 ^ Suc k dvd unset_bit k p" and "p XOR 2 ^ k \<noteq> p" and "2 ^ k dvd p XOR 2 ^ k"
    and "unset_bit k p = p \<or> unset_bit k p = p XOR 2 ^ k"
    and "blk p k \<inter> blk (p XOR 2 ^ k) k = {}"
    by blast+
qed

lemma float_buddy_free:
  assumes i: "float_inv s F A p k" and f: "freep s (p XOR 2 ^ k)" "ordp s (p XOR 2 ^ k) = k"
  shows "p XOR 2 ^ k \<in> set (F k)"
proof (rule ccontr)
  let ?b = "p XOR 2 ^ k"
  assume n: "?b \<notin> set (F k)"
  note d = float_invD [OF i]
  note m = buddy_merge_blk [OF d(9)]
  have "(?b, k) \<notin> fblocks F" using n by (simp add: fblocks_iff)
  then obtain q j where q: "(q, j) \<in> insert (p, k) (fblocks F \<union> A)" "k < j" "?b \<in> blk q j"
    using d(6) [OF m(3)] f by (auto simp: flags_ok_def)
  then have qj: "(q, j) \<in> fblocks F \<union> A" by auto
  have al: "2 ^ j dvd q" using tiled_blk [OF d(4) q(1)] by simp
  let ?u = "unset_bit k p"
  have "?u \<in> blk q j"
    by (rule aligned_overlap [OF m(2) al, of ?b]) (use m(1) q in auto)
  then have "blk ?u (Suc k) \<subseteq> blk q j"
    using m(2) al q(2) by (intro aligned_nested) auto
  then have "p \<in> blk q j" using m(1) blk_self [of p k] by blast
  with float_disjoint [OF i qj, of p] show False by simp
qed

lemma tiled_merge:
  assumes t: "tiled N (insert (p, k) B)" and new: "(p, k) \<notin> B" and b: "(p XOR 2 ^ k, k) \<in> B"
    and k: "Suc k < PMM_MAX_ORDER"
  shows "tiled N (insert (unset_bit k p, Suc k) (B - {(p XOR 2 ^ k, k)}))"
proof (rule tiledI)
  let ?b = "p XOR 2 ^ k" and ?u = "unset_bit k p"
  have pk: "2 ^ k dvd p" "0 < p" "p + 2 ^ k \<le> N" using tiled_blk [OF t, of p k] by simp_all
  have bk: "0 < ?b" "?b + 2 ^ k \<le> N" using tiled_blk [OF t, of ?b k] b by simp_all
  note m = buddy_merge_blk [OF pk(1)]
  have "(0::nat) < 2 ^ Suc k" by simp
  then have "?u + 2 ^ Suc k - 1 \<in> blk ?u (Suc k)" unfolding blk_def atLeastLessThan_iff by linarith
  then have top: "?u + 2 ^ Suc k \<le> N" unfolding m(1) using pk bk by (auto simp: blk_def)
  have un: False if "x \<in> blk ?u (Suc k)" "x \<in> blk q j" "(q, j) \<in> B - {(?b, k)}" for q j x
    using that tiled_disjoint [OF t, of p k q j x] tiled_disjoint [OF t, of ?b k q j x] b new
    unfolding m(1) by auto
  fix q j assume q: "(q, j) \<in> insert (?u, Suc k) (B - {(?b, k)})"
  then show "j < 16 \<and> 2 ^ j dvd q \<and> 0 < q \<and> q + 2 ^ j \<le> N"
  proof (cases "(q, j) = (?u, Suc k)")
    case True
    with k m(2,5) pk(2) bk(1) top show ?thesis by auto
  next
    case False
    with q tiled_blk [OF t, of q j] show ?thesis by auto
  qed
  fix q' j' x
  assume "(q', j') \<in> insert (?u, Suc k) (B - {(?b, k)})" "x \<in> blk q j" "x \<in> blk q' j'"
  with q show "q = q' \<and> j = j'"
    using un [of x q j] un [of x q' j'] tiled_disjoint [OF t, of q j q' j' x] by auto
qed

text \<open>The descriptor of the head of a block that is being freed.\<close>

definition head_ok :: "pmm \<Rightarrow> nat \<Rightarrow> nat \<Rightarrow> bool" where
  "head_ok s p k \<longleftrightarrow> (freep s p \<longrightarrow> 2 ^ ordp s p dvd p \<and> ordp s p \<le> k)"

lemma float_merge:
  assumes i: "float_inv s F A p k" and k: "Suc k < PMM_MAX_ORDER" and h: "head_ok s p k"
    and bF: "p XOR 2 ^ k \<in> set (F k)"
    and s': "s' = upd_page (p XOR 2 ^ k) (\<lambda>g. g\<lparr>is_free := False\<rparr>)
                   (add_count k (- 1) (list_remove k (p XOR 2 ^ k) s))"
  shows "float_inv s' (F(k := remove1 (p XOR 2 ^ k) (F k))) A (unset_bit k p) (Suc k)"
    and "head_ok s' (unset_bit k p) (Suc k)"
proof -
  define b u where "b = p XOR 2 ^ k" and "u = unset_bit k p"
  define G where "G = F(k := remove1 b (F k))"
  note d = float_invD [OF i]
  note m = buddy_merge_blk [OF d(9), folded b_def u_def]
  have fb: "fblocks G = fblocks F - {(b, k)}" unfolding G_def using fblocks_remove [OF d(1,8)] .
  have b: "(b, k) \<in> fblocks F" "b \<in> set (F k)" using bF d(8) by (simp_all add: b_def fblocks_iff)
  have sel: "freep s' q = (q \<noteq> b \<and> freep s q)" "ordp s' q = ordp s q"
    "total_phys_pages s' = total_phys_pages s" for q
    by (simp_all add: s' b_def)
  have B: "fblocks G \<union> A = fblocks F \<union> A - {(b, k)}" using fb d(2) b by blast
  have hb: "(b, j) \<notin> fblocks G \<union> A" for j
    using heads_free [OF d(5) b(1)] heads_free [OF d(5), of b j] heads_alloc [OF d(5), of b j]
    by (auto simp: fb)
  have "fl_rep s' G"
    using fl_rep_remove [OF d(1,8) b(2)] unfolding G_def
    by (rule fl_rep_cong) (auto simp: s' b_def)
  moreover have "tiled (total_phys_pages s') (insert (u, Suc k) (fblocks G \<union> A))"
    unfolding B sel u_def b_def by (rule tiled_merge [OF d(4,3) _ k]) (use b b_def in auto)
  moreover have "heads_ok s' (fblocks G) A"
  proof (rule heads_ok_cong [of s])
    show "heads_ok s (fblocks G) A" using d(5) unfolding heads_ok_def fb by auto
  qed (use hb sel in auto)
  moreover have "flags_ok s' (fblocks G) (insert (u, Suc k) (fblocks G \<union> A)) q" if "q \<noteq> u" for q
  proof (cases "q = p")
    case True
    with h show ?thesis unfolding flags_ok_def head_ok_def sel
      using m(1) blk_self [of p k] by auto
  next
    case False
    have co: "blk p k \<subseteq> blk u (Suc k)" "blk b k \<subseteq> blk u (Suc k)" using m(1) by auto
    show ?thesis
    proof (cases "q = b")
      case nb: False
      show ?thesis
      proof (rule flags_ok_coarsen [OF d(6) [OF False]])
        fix c j assume "(c, j) \<in> insert (p, k) (fblocks F \<union> A)"
        then consider "(c, j) \<in> fblocks G \<union> A" | "c = p \<or> c = b" "j = k" using B by blast
        then show "\<exists>c' j'. (c', j') \<in> insert (u, Suc k) (fblocks G \<union> A) \<and> j \<le> j' \<and>
            blk c j \<subseteq> blk c' j'"
          using co by cases (blast, rule exI [of _ u], rule exI [of _ "Suc k"], auto)
      qed (use nb sel fb in auto)
    qed (simp add: flags_ok_def sel)
  qed
  moreover have "coalesced (fblocks G)" using d(7) by (auto simp: coalesced_def fb)
  moreover have "(u, Suc k) \<notin> fblocks F \<union> A"
    using float_disjoint [OF i, of u "Suc k" p] m(1) by auto
  ultimately show "float_inv s' (F(k := remove1 (p XOR 2 ^ k) (F k))) A (unset_bit k p) (Suc k)"
    using d(2) unfolding float_inv_def b_def [symmetric] u_def [symmetric] G_def [symmetric]
    by (auto simp: fb)
  show "head_ok s' (unset_bit k p) (Suc k)"
    using h m(5) unfolding head_ok_def sel u_def [symmetric] by auto
qed

text \<open>The loop stops at a block whose buddy is not free.\<close>

lemma free_coalesce_float:
  assumes "float_inv s F A p k" and "head_ok s p k"
  shows "\<exists>p' k' s' F'. free_coalesce p k s = (p', k', s') \<and> float_inv s' F' A p' k' \<and>
    (k' < PMM_MAX_ORDER - 1 \<longrightarrow> (p' XOR 2 ^ k', k') \<notin> fblocks F') \<and>
    total_phys_pages s' = total_phys_pages s \<and> free_phys_pages s' = free_phys_pages s \<and>
    pages_of (fblocks F') \<union> blk p' k' = pages_of (fblocks F) \<union> blk p k \<and>
    npages F' + 2 ^ k' = npages F + 2 ^ k"
  using assms
proof (induction "PMM_MAX_ORDER - k" arbitrary: p k s F)
  case 0
  with float_invD(8) [OF "0.prems"(1)] show ?case by simp
next
  case (Suc n)
  let ?b = "p XOR 2 ^ k"
  note d = float_invD [OF Suc.prems(1)]
  show ?case
  proof (cases "k < 15 \<and> ?b < total_phys_pages s \<and> freep s ?b \<and> ordp s ?b = k")
    case False
    have "(?b, k) \<notin> fblocks F" if "k < 15"
    proof
      assume "(?b, k) \<in> fblocks F"
      with tiled_blk [OF d(4), of ?b k] heads_free [OF d(5)] have "?b < total_phys_pages s"
        "freep s ?b" "ordp s ?b = k" by (auto intro: less_le_trans [of _ "?b + 2 ^ k"])
      with False that show False by simp
    qed
    moreover have "free_coalesce p k s = (p, k, s)"
      using False by (subst free_coalesce.simps) (auto simp: Let_def)
    ultimately show ?thesis using Suc.prems(1)
      by (intro exI [of _ p] exI [of _ k] exI [of _ s] exI [of _ F]) simp
  next
    case True
    define s2 where "s2 = upd_page ?b (\<lambda>g. g\<lparr>is_free := False\<rparr>) (add_count k (- 1) (list_remove k ?b s))"
    define G where "G = F(k := remove1 ?b (F k))"
    have bF: "?b \<in> set (F k)" using float_buddy_free [OF Suc.prems(1)] True by simp
    have k: "Suc k < 16" using True by simp
    have step: "free_coalesce p k s = free_coalesce (unset_bit k p) (Suc k) s2"
      using True by (subst free_coalesce.simps) (simp add: Let_def s2_def)
    have n: "n = 16 - Suc k" using Suc.hyps(2) by simp
    note fm = float_merge [OF Suc.prems(1) k Suc.prems(2) bF s2_def, folded G_def]
    have "npages F = npages G + 2 ^ k" using npages_remove [of k ?b F] d(8) bF by (simp add: G_def)
    then have e: "npages G + 2 ^ Suc k = npages F + 2 ^ k" by simp
    have "(?b, k) \<in> fblocks F" using bF d(8) by (simp add: fblocks_iff)
    then have pg: "pages_of (fblocks G) \<union> blk (unset_bit k p) (Suc k) = pages_of (fblocks F) \<union> blk p k"
      unfolding G_def fblocks_remove [OF d(1,8)] pages_of_def buddy_merge_blk(1) [OF d(9)] by blast
    have tf: "total_phys_pages s2 = total_phys_pages s" "free_phys_pages s2 = free_phys_pages s"
      by (simp_all add: s2_def)
    show ?thesis using Suc.hyps(1) [OF n fm] unfolding step e pg tf .
  qed
qed

lemma float_free:
  assumes i: "float_inv s F A p k" and b: "k < PMM_MAX_ORDER - 1 \<longrightarrow> (p XOR 2 ^ k, k) \<notin> fblocks F"
    and n: "free_phys_pages s = of_nat (npages F + 2 ^ k)"
  shows "buddy_inv (add_count k 1 (list_add k p (upd_page p (\<lambda>g. g\<lparr>pg_order := k, is_free := True\<rparr>) s)))
           (F(k := p # F k)) A"
proof -
  let ?u = "upd_page p (\<lambda>g. g\<lparr>pg_order := k, is_free := True\<rparr>) s"
  let ?s = "add_count k 1 (list_add k p ?u)"
  note d = float_invD [OF i]
  note fb = fblocks_add [OF d(8), of F p]
  have fresh: "(p, j) \<notin> fblocks F \<union> A" for j
    using float_head_fresh [OF i, of p] by simp
  have "fl_rep ?u F" using d(1) by (rule fl_rep_cong) simp_all
  then have "fl_rep ?s (F(k := p # F k))"
    by (rule fl_rep_add [OF _ d(8)]) (use fresh in \<open>auto simp: fblocks_iff\<close>)
  moreover have "heads_ok ?s (insert (p, k) (fblocks F)) A"
    using d(5) fresh by (auto simp: heads_ok_def split: if_splits)
  moreover have "flags_ok ?s (insert (p, k) (fblocks F)) (insert (p, k) (fblocks F) \<union> A) q" for q
  proof (cases "q = p")
    case False
    from d(6) [OF this] show ?thesis by (rule flags_ok_mono) (use False in auto)
  qed (simp add: flags_ok_def)
  moreover have "coalesced (insert (p, k) (fblocks F))"
  proof -
    have "q XOR 2 ^ k = p \<Longrightarrow> q = p XOR 2 ^ k" for q
      by (metis xor.assoc xor_self_eq xor.right_neutral)
    with d(7) b fresh buddy_merge_blk(3) [OF d(9)] show ?thesis by (auto simp: coalesced_def)
  qed
  ultimately show ?thesis
    using d(2,4) fresh n unfolding buddy_inv_def fb npages_add [OF d(8)] by auto
qed

lemma unat_page: "unat w < 2 ^ 52 \<Longrightarrow> unat (w * PAGE_SIZE :: u64) = unat w * 4096"
  by (simp add: unat_word_ariths)

lemma page_addr:
  assumes "p < 2 ^ 52"
  shows "unat ((of_nat p * PAGE_SIZE :: u64) div PAGE_SIZE) = p"
    and "(of_nat p * PAGE_SIZE :: u64) = 0 \<longleftrightarrow> p = 0"
proof -
  have "unat (of_nat p :: u64) = p" using assms by (intro unat_of_nat_lt) simp
  then have u: "unat (of_nat p * PAGE_SIZE :: u64) = p * 4096"
    using assms by (simp add: unat_word_ariths)
  then show "unat ((of_nat p * PAGE_SIZE :: u64) div PAGE_SIZE) = p" by (simp add: unat_div)
  show "(of_nat p * PAGE_SIZE :: u64) = 0 \<longleftrightarrow> p = 0" using u by (auto simp: unat_eq_zero [symmetric])
qed

lemma float_inv_head:
  assumes i: "float_inv s F A p k"
    and "\<And>q. q \<noteq> p \<Longrightarrow> page_array s' q = page_array s q"
    and "nxt s' p = nxt s p" "prv s' p = prv s p" and "freelist s' = freelist s"
    and "free_count s' = free_count s" and "total_phys_pages s' = total_phys_pages s"
  shows "float_inv s' F A p k"
proof -
  note d = float_invD [OF i]
  have fresh: "(p, j) \<notin> fblocks F \<union> A" for j
    using float_head_fresh [OF i, of p] by simp
  have lk: "nxt s' q = nxt s q \<and> prv s' q = prv s q" for q using assms(2-4) by (cases "q = p") auto
  have "fl_rep s' F" using d(1) lk assms(5,6) by (rule fl_rep_cong)
  moreover have "heads_ok s' (fblocks F) A"
    using d(5)
  proof (rule heads_ok_cong)
    fix q j assume "(q, j) \<in> fblocks F \<union> A"
    with fresh [of j] have "q \<noteq> p" by auto
    with assms(2) show "freep s' q = freep s q \<and> ordp s' q = ordp s q" by simp
  qed
  moreover have "flags_ok s' (fblocks F) (insert (p, k) (fblocks F \<union> A)) q" if "q \<noteq> p" for q
    using d(6) [OF that] by (rule flags_ok_mono) (use assms(2) that in auto)
  ultimately show ?thesis using i assms(7) by (simp add: float_inv_def)
qed

lemma free_block:
  assumes fl0: "float_inv s F A p k" and N: "total_phys_pages s \<le> 2 ^ 52"
    and fp: "free_phys_pages s = of_nat (npages F)" and h: "\<not> freep s p" "ordp s p = k"
  shows "\<exists>F'. buddy_inv (pmm_free_pages (of_nat p * PAGE_SIZE) k s) F' A \<and>
    pages_of (fblocks F') = pages_of (fblocks F) \<union> blk p k"
proof -
  have pk: "k < 16" "2 ^ k dvd p" "0 < p" "p + 2 ^ k \<le> total_phys_pages s"
    using float_invD(8-11) [OF fl0] by simp_all
  then have p: "p < total_phys_pages s" by (auto intro: less_le_trans [of _ "p + 2 ^ k"])
  define s2 where "s2 = upd_page p (\<lambda>g. g\<lparr>is_free := True\<rparr>) s
    \<lparr>free_phys_pages := free_phys_pages s + 2 ^ k\<rparr>"
  have fl: "float_inv s2 F A p k"
    using fl0 by (rule float_inv_head) (simp_all add: s2_def)
  have "head_ok s2 p k" using h pk by (simp add: head_ok_def s2_def)
  from free_coalesce_float [OF fl this] obtain p' k' s' F' where
    c: "free_coalesce p k s2 = (p', k', s')" and f: "float_inv s' F' A p' k'"
      "k' < PMM_MAX_ORDER - 1 \<longrightarrow> (p' XOR 2 ^ k', k') \<notin> fblocks F'"
    and n: "free_phys_pages s' = free_phys_pages s2"
      "pages_of (fblocks F') \<union> blk p' k' = pages_of (fblocks F) \<union> blk p k"
      "npages F' + 2 ^ k' = npages F + 2 ^ k" by blast
  have "free_phys_pages s' = of_nat (npages F' + 2 ^ k')"
    using fp n(1) unfolding n(3) by (simp add: s2_def)
  note b = float_free [OF f this]
  have "pmm_free_pages (of_nat p * PAGE_SIZE) k s = sync_legacy_globals (add_count k' 1
      (list_add k' p' (upd_page p' (\<lambda>g. g\<lparr>pg_order := k', is_free := True\<rparr>) s')))"
    using pk p h N page_addr [of p] c by (simp add: pmm_free_pages_def Let_def s2_def)
  moreover have "pages_of (fblocks (F'(k' := p' # F' k'))) = pages_of (fblocks F) \<union> blk p k"
    unfolding fblocks_add [OF float_invD(8) [OF f(1)]] n(2) [symmetric] by (auto simp: pages_of_def)
  ultimately show ?thesis using b by (intro exI [of _ "F'(k' := p' # F' k')"]) (simp only: buddy_inv_sync)
qed

subsection \<open>Coalescing is complete\<close>

text \<open>
  With no two free buddies of an order, every aligned run of free pages lies inside one free block:
  the allocator never fails because of fragmentation that merging would have removed.
\<close>

lemma pages_of_iff: "x \<in> pages_of B \<longleftrightarrow> (\<exists>q j. (q, j) \<in> B \<and> x \<in> blk q j)"
  by (auto simp: pages_of_def)

lemma coalesced_maximal:
  assumes t: "tiled N B" and c: "coalesced B" and k: "k < PMM_MAX_ORDER" "2 ^ k dvd p"
    and sub: "blk p k \<subseteq> pages_of B"
  shows "\<exists>q j. (q, j) \<in> B \<and> k \<le> j"
proof (rule ccontr)
  assume "\<not> ?thesis"
  then have small: "j < k" if "(q, j) \<in> B" for q j using that by (auto simp: not_le)
  define P where "P j \<longleftrightarrow> (\<exists>q. (q, j) \<in> B \<and> q \<in> blk p k)" for j
  have meet: "P j" if "(q, j) \<in> B" "x \<in> blk q j" "x \<in> blk p k" for q j x
    using aligned_overlap [of j q k p x] that tiled_blk [OF t that(1)] k(2) small [OF that(1)]
    by (auto simp: P_def)
  obtain q0 j0 where "(q0, j0) \<in> B" "p \<in> blk q0 j0"
    using sub blk_self [of p k] pages_of_iff by blast
  then have "P j0" using meet [of q0 j0 p] by simp
  define m where "m = (LEAST j. P j)"
  have "P m" unfolding m_def using \<open>P j0\<close> by (rule LeastI)
  then obtain q where q: "(q, m) \<in> B" "q \<in> blk p k" by (auto simp: P_def)
  have m: "m < k" "2 ^ m dvd q" using small [OF q(1)] tiled_blk [OF t q(1)] by simp_all
  let ?b = "q XOR 2 ^ m" and ?u = "unset_bit m q"
  note mb = buddy_merge_blk [OF m(2)]
  have "?u \<in> blk p k" by (rule aligned_overlap [OF mb(2) k(2), of q]) (use mb(1) q m in auto)
  then have "blk ?u (Suc m) \<subseteq> blk p k" using mb(2) k(2) m(1) by (intro aligned_nested) auto
  then have bp: "?b \<in> blk p k" using mb(1) blk_self [of ?b m] by blast
  then obtain r i where r: "(r, i) \<in> B" "?b \<in> blk r i" using sub pages_of_iff by blast
  have "m \<le> i" unfolding m_def using meet [OF r bp] by (rule Least_le)
  have ri: "2 ^ i dvd r" using tiled_blk [OF t r(1)] by simp
  show False
  proof (cases "i = m")
    case True
    then have "?b = r" using aligned_in_blk [OF mb(4) ri r(2)] by simp
    with r q c True m k show False by (auto simp: coalesced_def)
  next
    case False
    with \<open>m \<le> i\<close> have i: "Suc m \<le> i" by simp
    have "?u \<in> blk r i" by (rule aligned_overlap [OF mb(2) ri, of ?b]) (use mb(1) r i in auto)
    then have "blk ?u (Suc m) \<subseteq> blk r i" using mb(2) ri i by (intro aligned_nested) auto
    then have "q \<in> blk r i" using mb(1) blk_self [of q m] by blast
    then show False using tiled_disjoint [OF t q(1) r(1), of q] False by simp
  qed
qed

lemma alloc_none_iff:
  assumes i: "buddy_inv s F A" and o: "order < PMM_MAX_ORDER"
  shows "find (\<lambda>c. freelist s c \<noteq> None) [order..<PMM_MAX_ORDER] = None \<longleftrightarrow>
    \<not> (\<exists>p. 2 ^ order dvd p \<and> blk p order \<subseteq> pages_of (fblocks F))"
proof
  assume n: "find (\<lambda>c. freelist s c \<noteq> None) [order..<PMM_MAX_ORDER] = None"
  show "\<not> (\<exists>p. 2 ^ order dvd p \<and> blk p order \<subseteq> pages_of (fblocks F))"
  proof
    assume "\<exists>p. 2 ^ order dvd p \<and> blk p order \<subseteq> pages_of (fblocks F)"
    then obtain p where p: "2 ^ order dvd p" "blk p order \<subseteq> pages_of (fblocks F)" by blast
    have "tiled (total_phys_pages s) (fblocks F)" "coalesced (fblocks F)"
      using i tiled_subset [of _ "fblocks F \<union> A"] by (auto simp: buddy_inv_def)
    from coalesced_maximal [OF this o p] obtain q j where "(q, j) \<in> fblocks F" "order \<le> j" by blast
    with n buddy_inv_freelist [OF i, of j] show False
      by (auto simp: find_None_iff fblocks_iff first_or_conv split: if_splits)
  qed
next
  assume n: "\<not> (\<exists>p. 2 ^ order dvd p \<and> blk p order \<subseteq> pages_of (fblocks F))"
  show "find (\<lambda>c. freelist s c \<noteq> None) [order..<PMM_MAX_ORDER] = None"
  proof (rule ccontr)
    assume "\<not> ?thesis"
    then obtain c where c: "find (\<lambda>c. freelist s c \<noteq> None) [order..<PMM_MAX_ORDER] = Some c" by auto
    from alloc_block [OF i o c, of id] obtain p s' F' where "buddy_inv s' F' (insert (p, order) A)"
      "blk p order \<subseteq> pages_of (fblocks F)" by blast
    moreover from this(1) have "2 ^ order dvd p"
      using tiled_blk [of "total_phys_pages s'" "fblocks F' \<union> insert (p, order) A" p order]
      by (simp add: buddy_inv_def)
    ultimately show False using n by blast
  qed
qed

lemma npages_card:
  assumes r: "fl_rep s F" and t: "tiled N (fblocks F)"
  shows "npages F = card (pages_of (fblocks F))"
proof -
  have "pages_of (fblocks F) = (\<Union>k<16. \<Union>p\<in>set (F k). blk p k)"
    by (auto simp: pages_of_def fblocks_def)
  also have "card \<dots> = (\<Sum>k<16. card (\<Union>p\<in>set (F k). blk p k))"
  proof (intro card_UN_disjoint ballI impI)
    fix k j :: nat
    assume "k \<in> {..<16}" "j \<in> {..<16}" "k \<noteq> j"
    then show "(\<Union>p\<in>set (F k). blk p k) \<inter> (\<Union>p\<in>set (F j). blk p j) = {}"
      using tiled_disjoint [OF t, of _ k _ j] by (auto simp: fblocks_iff)
  qed (auto simp: blk_def)
  also have "\<dots> = npages F"
    unfolding npages_def
  proof (rule sum.cong)
    fix k :: nat
    assume "k \<in> {..<16}"
    then have k: "k < 16" by simp
    have "card (\<Union>p\<in>set (F k). blk p k) = (\<Sum>p\<in>set (F k). card (blk p k))"
    proof (intro card_UN_disjoint ballI impI)
      fix p q assume "p \<in> set (F k)" "q \<in> set (F k)" "p \<noteq> q"
      then show "blk p k \<inter> blk q k = {}"
        using tiled_disjoint [OF t, of p k q k] k by (auto simp: fblocks_iff)
    qed (auto simp: blk_def)
    also have "\<dots> = 2 ^ k * length (F k)"
      using fl_rep_list [OF r k] by (simp add: fl_list_def distinct_card mult.commute)
    finally show "card (\<Union>p\<in>set (F k). blk p k) = 2 ^ k * length (F k)" .
  qed simp
  finally show ?thesis by simp
qed

subsection \<open>Initialisation establishes the invariant\<close>

text \<open>
  What the boot protocol promises of the memory map: usable entries are page-aligned, end below
  \<open>2 ^ 64\<close> and do not overlap.
\<close>

definition mm_ok :: "mm_entry \<Rightarrow> bool" where
  "mm_ok e \<longleftrightarrow> (mm_type e = LIMINE_MEMMAP_USABLE \<longrightarrow> 4096 dvd unat (mm_base e) \<and>
     4096 dvd unat (mm_length e) \<and> unat (mm_base e) + unat (mm_length e) < 2 ^ 64)"

definition mm_apart :: "mm_entry \<Rightarrow> mm_entry \<Rightarrow> bool" where
  "mm_apart e f \<longleftrightarrow> (mm_type e = LIMINE_MEMMAP_USABLE \<and> mm_type f = LIMINE_MEMMAP_USABLE \<longrightarrow>
     unat (mm_base e) + unat (mm_length e) \<le> unat (mm_base f) \<or>
     unat (mm_base f) + unat (mm_length f) \<le> unat (mm_base e))"

fun mm_wf :: "mm_entry list \<Rightarrow> bool" where
  "mm_wf [] = True"
| "mm_wf (e # es) \<longleftrightarrow> mm_ok e \<and> (\<forall>f \<in> set es. mm_apart e f) \<and> mm_wf es"

definition epages :: "mm_entry \<Rightarrow> nat set" where
  "epages e = (if mm_type e = LIMINE_MEMMAP_USABLE
     then {unat (mm_base e) div 4096..<unat (mm_base e) div 4096 + unat (mm_length e) div 4096} else {})"

lemma epages_apart: "mm_ok e \<Longrightarrow> mm_ok f \<Longrightarrow> mm_apart e f \<Longrightarrow> epages e \<inter> epages f = {}"
  by (auto simp: epages_def mm_ok_def mm_apart_def elim!: dvdE)

lemma buddy_inv_reset:
  assumes i: "buddy_inv s F A" and q: "q \<notin> pages_of (fblocks F \<union> A)"
  shows "buddy_inv (upd_page q (\<lambda>g. g\<lparr>is_free := False, pg_order := 0\<rparr>) s) F A" (is "buddy_inv ?s F A")
proof -
  have "(q, j) \<notin> fblocks F \<union> A" for j using q blk_self [of q j] pages_of_iff by blast
  then have "heads_ok ?s (fblocks F) A"
    using i by (auto intro!: heads_ok_cong [of s] simp: buddy_inv_def split: if_splits)
  moreover have "flags_ok ?s (fblocks F) (fblocks F \<union> A) r" for r
    using i by (cases "r = q") (simp_all add: buddy_inv_def flags_ok_def)
  moreover have "fl_rep ?s F" using i by (auto simp: buddy_inv_def intro: fl_rep_cong)
  ultimately show ?thesis using i by (simp add: buddy_inv_def)
qed

lemma total_coalesce:
  "(case free_coalesce p k s of (p', k', s') \<Rightarrow> total_phys_pages s') = total_phys_pages s"
proof (induction p k s rule: free_coalesce.induct)
  case (1 p k s)
  then show ?case by (subst free_coalesce.simps) (auto simp: Let_def split: prod.splits)
qed

lemma total_free [simp]: "total_phys_pages (pmm_free_pages a k s) = total_phys_pages s"
proof -
  have "total_phys_pages (sync_legacy_globals s') = total_phys_pages s'" for s' by simp
  then show ?thesis
    using total_coalesce [of "unat (a div PAGE_SIZE)" k "upd_page (unat (a div PAGE_SIZE)) (\<lambda>g. g\<lparr>is_free := True\<rparr>) s
      \<lparr>free_phys_pages := free_phys_pages s + 2 ^ k\<rparr>"]
    by (auto simp: pmm_free_pages_def Let_def split: prod.splits)
qed

lemma init_page_inv:
  assumes i: "buddy_inv s F {}" and N: "total_phys_pages s \<le> 2 ^ 52"
    and q: "q < total_phys_pages s" "q \<notin> pages_of (fblocks F)"
  shows "\<exists>F'. buddy_inv (init_page q s) F' {} \<and>
    pages_of (fblocks F') = pages_of (fblocks F) \<union> ({q} - {0})"
proof (cases "q = 0")
  case False
  let ?s = "upd_page q (\<lambda>g. g\<lparr>is_free := False, pg_order := 0\<rparr>) s"
  have t: "tiled (total_phys_pages ?s) (insert (q, 0) (fblocks F \<union> {}))"
  proof (rule tiledI)
    have t: "tiled (total_phys_pages s) (fblocks F)" using i by (simp add: buddy_inv_def)
    show "k < 16 \<and> 2 ^ k dvd p \<and> 0 < p \<and> p + 2 ^ k \<le> total_phys_pages ?s"
      if "(p, k) \<in> insert (q, 0) (fblocks F \<union> {})" for p k
      using that tiled_blk [OF t, of p k] q(1) False by auto
    show "p = r \<and> k = j" if "(p, k) \<in> insert (q, 0) (fblocks F \<union> {})"
      "(r, j) \<in> insert (q, 0) (fblocks F \<union> {})" "x \<in> blk p k" "x \<in> blk r j" for p k r j x
      using that tiled_disjoint [OF t, of p k r j x] q(2) by (auto simp: pages_of_iff)
  qed
  have b: "buddy_inv ?s F {}" using buddy_inv_reset [OF i] q by simp
  have "(q, 0) \<notin> fblocks F" using q(2) blk_self [of q 0] pages_of_iff by blast
  then have "float_inv ?s F {} q 0"
    using b t unfolding buddy_inv_def float_inv_def
    by (auto intro: flags_ok_mono [of ?s "fblocks F" "fblocks F"])
  from free_block [OF this] N b False show ?thesis
    by (auto simp: init_page_def buddy_inv_def)
qed (use i in \<open>auto simp: init_page_def\<close>)

lemma total_init_page [simp]: "total_phys_pages (init_page q s) = total_phys_pages s"
  by (simp add: init_page_def)

lemma init_pages_inv:
  assumes "buddy_inv s F {}" and "total_phys_pages s \<le> 2 ^ 52" and "distinct ps"
    and "set ps \<subseteq> {..<total_phys_pages s}" and "set ps \<inter> pages_of (fblocks F) = {}"
  shows "total_phys_pages (fold init_page ps s) = total_phys_pages s \<and>
    (\<exists>F'. buddy_inv (fold init_page ps s) F' {} \<and>
       pages_of (fblocks F') = pages_of (fblocks F) \<union> (set ps - {0}))"
  using assms
proof (induction ps arbitrary: s F)
  case (Cons q ps)
  then obtain G where G: "buddy_inv (init_page q s) G {}"
    "pages_of (fblocks G) = pages_of (fblocks F) \<union> ({q} - {0})"
    using init_page_inv [of s F q] by auto
  have "set ps \<inter> pages_of (fblocks G) = {}" using Cons.prems(3,5) G(2) by auto
  then have "total_phys_pages (fold init_page ps (init_page q s)) = total_phys_pages (init_page q s) \<and>
    (\<exists>F'. buddy_inv (fold init_page ps (init_page q s)) F' {} \<and>
       pages_of (fblocks F') = pages_of (fblocks G) \<union> (set ps - {0}))"
    by (intro Cons.IH [OF G(1)]) (use Cons.prems in auto)
  then show ?case unfolding G(2) by (auto simp: insert_Diff_if)
qed auto

lemma init_entry_fold:
  "init_entry e s = fold init_page (if mm_type e = LIMINE_MEMMAP_USABLE
     then [unat (mm_base e) div 4096..<unat (mm_base e) div 4096 + unat (mm_length e) div 4096] else []) s"
proof -
  have "fold (\<lambda>p. init_page (b + p)) [0..<n] s = fold init_page [b..<b + n] s" for b n
  proof -
    have "fold init_page (map (\<lambda>p. p + b) [0..<n]) s = fold (\<lambda>p. init_page (b + p)) [0..<n] s"
      by (simp add: fold_map comp_def add.commute)
    then show ?thesis by (simp add: map_add_upt add.commute)
  qed
  then show ?thesis by (simp add: init_entry_def Let_def unat_div)
qed

lemma init_entries_inv:
  assumes "buddy_inv s F {}" and "total_phys_pages s \<le> 2 ^ 52" and "mm_wf es"
    and "\<Union> (epages ` set es) \<subseteq> {..<total_phys_pages s}"
    and "\<Union> (epages ` set es) \<inter> pages_of (fblocks F) = {}"
  shows "total_phys_pages (fold init_entry es s) = total_phys_pages s \<and>
    (\<exists>F'. buddy_inv (fold init_entry es s) F' {} \<and>
       pages_of (fblocks F') = pages_of (fblocks F) \<union> (\<Union> (epages ` set es) - {0}))"
  using assms
proof (induction es arbitrary: s F)
  case (Cons e es)
  let ?ps = "if mm_type e = LIMINE_MEMMAP_USABLE
     then [unat (mm_base e) div 4096..<unat (mm_base e) div 4096 + unat (mm_length e) div 4096] else []"
  have ps: "set ?ps = epages e" "distinct ?ps" by (auto simp: epages_def)
  have ie: "init_entry e s = fold init_page ?ps s" by (rule init_entry_fold)
  have "total_phys_pages (init_entry e s) = total_phys_pages s \<and> (\<exists>F'. buddy_inv (init_entry e s) F' {} \<and>
       pages_of (fblocks F') = pages_of (fblocks F) \<union> (set ?ps - {0}))"
    unfolding ie by (rule init_pages_inv [OF Cons.prems(1,2) ps(2)]) (use Cons.prems(4,5) ps(1) in auto)
  then obtain G where t: "total_phys_pages (init_entry e s) = total_phys_pages s"
    and G: "buddy_inv (init_entry e s) G {}"
      "pages_of (fblocks G) = pages_of (fblocks F) \<union> (epages e - {0})"
    unfolding ps(1) by blast
  have ok: "mm_ok f" if "f \<in> set es" for f using Cons.prems(3) that by (induction es) auto
  have ap: "epages e \<inter> epages f = {}" if "f \<in> set es" for f
    using Cons.prems(3) that ok [OF that] by (intro epages_apart) auto
  have "total_phys_pages (fold init_entry es (init_entry e s)) = total_phys_pages (init_entry e s) \<and>
    (\<exists>F'. buddy_inv (fold init_entry es (init_entry e s)) F' {} \<and>
       pages_of (fblocks F') = pages_of (fblocks G) \<union> (\<Union> (epages ` set es) - {0}))"
    by (rule Cons.IH [OF G(1)]) (use Cons.prems(2-5) ap t G(2) in auto)
  then show ?case using t G(2) by (auto simp: Un_Diff Un_assoc)
qed auto

lemma mm_max_addr_bound:
  assumes "mm_wf es" and "e \<in> set es" and "mm_type e = LIMINE_MEMMAP_USABLE"
  shows "unat (mm_base e) + unat (mm_length e) \<le> unat (mm_max_addr es)"
proof -
  define f where "f = (\<lambda>(e :: mm_entry) m. if mm_type e = LIMINE_MEMMAP_USABLE
     then let en = mm_base e + mm_length e in if en > m then en else m else m)"
  have mono: "m \<le> fold f xs m" for xs m
  proof (induction xs arbitrary: m)
    case (Cons x xs)
    have "m \<le> f x m" by (auto simp: f_def Let_def)
    also have "\<dots> \<le> fold f xs (f x m)" by (rule Cons.IH)
    finally show ?case by simp
  qed simp
  have "mm_base e + mm_length e \<le> fold f es m" for m
    using assms(2)
  proof (induction es arbitrary: m)
    case (Cons x xs)
    show ?case
    proof (cases "x = e")
      case True
      then have "mm_base e + mm_length e \<le> f x m" using assms(3) by (auto simp: f_def Let_def)
      also have "\<dots> \<le> fold f xs (f x m)" by (rule mono)
      finally show ?thesis by simp
    qed (use Cons in auto)
  qed simp
  then have "mm_base e + mm_length e \<le> mm_max_addr es" by (simp add: mm_max_addr_def f_def)
  moreover have "mm_ok e" using assms(1,2) by (induction es) auto
  then have "unat (mm_base e + mm_length e) = unat (mm_base e) + unat (mm_length e)"
    using assms(3) by (intro unat_add_no_wrap) (simp add: mm_ok_def)
  ultimately show ?thesis by (simp add: word_le_nat_alt)
qed

text \<open>Carving the descriptor array out of an entry leaves a well-formed map without its pages.\<close>

definition mm_sub :: "mm_entry \<Rightarrow> mm_entry \<Rightarrow> bool" where
  "mm_sub f e \<longleftrightarrow> mm_ok f \<and> mm_type f = mm_type e \<and> (mm_type e = LIMINE_MEMMAP_USABLE \<longrightarrow>
     unat (mm_base e) \<le> unat (mm_base f) \<and>
     unat (mm_base f) + unat (mm_length f) \<le> unat (mm_base e) + unat (mm_length e))"

lemma mm_sub_apart: "mm_sub e' e \<Longrightarrow> mm_sub f' f \<Longrightarrow> mm_apart e f \<Longrightarrow> mm_apart e' f'"
  by (auto simp: mm_sub_def mm_apart_def)

lemma mm_sub_epages: "mm_sub f e \<Longrightarrow> mm_ok e \<Longrightarrow> epages f \<subseteq> epages e"
  by (auto simp: mm_sub_def epages_def mm_ok_def elim!: dvdE)

lemma mm_sub_refl: "mm_ok e \<Longrightarrow> mm_sub e e"
  by (simp add: mm_sub_def)

lemma mm_wf_ok: "mm_wf es \<Longrightarrow> e \<in> set es \<Longrightarrow> mm_ok e"
  by (induction es) auto

lemma mm_wf_sub: "list_all2 mm_sub fs es \<Longrightarrow> mm_wf es \<Longrightarrow> mm_wf fs"
proof (induction rule: list_all2_induct)
  case (Cons f fs e es)
  have "mm_apart f f'" if f': "f' \<in> set fs" for f'
  proof -
    obtain e' where "e' \<in> set es" "mm_sub f' e'"
      using list_all2_member [OF Cons.hyps(2) f'] by blast
    with Cons.hyps(1) Cons.prems show ?thesis by (auto intro: mm_sub_apart)
  qed
  with Cons show ?case by (auto simp: mm_sub_def)
qed simp

lemma mm_sub_shrink:
  assumes "mm_ok e" and "4096 dvd unat sz" and "sz \<le> mm_length e" and "mm_type e = LIMINE_MEMMAP_USABLE"
  shows "mm_sub (e\<lparr>mm_base := mm_base e + sz, mm_length := mm_length e - sz\<rparr>) e"
    and "epages (e\<lparr>mm_base := mm_base e + sz, mm_length := mm_length e - sz\<rparr>) \<inter>
      {unat (mm_base e) div 4096..<unat (mm_base e) div 4096 + unat sz div 4096} = {}"
    and "{unat (mm_base e) div 4096..<unat (mm_base e) div 4096 + unat sz div 4096} \<subseteq> epages e"
proof -
  have sz: "unat sz \<le> unat (mm_length e)" using assms(3) by (simp add: word_le_nat_alt)
  have b: "unat (mm_base e + sz) = unat (mm_base e) + unat sz"
    using assms(1,4) sz by (intro unat_add_no_wrap) (simp add: mm_ok_def)
  have l: "unat (mm_length e - sz) = unat (mm_length e) - unat sz"
    using assms(3) by (rule unat_diff_le)
  show "mm_sub (e\<lparr>mm_base := mm_base e + sz, mm_length := mm_length e - sz\<rparr>) e"
    using assms sz by (auto simp: mm_sub_def mm_ok_def b l)
  show "epages (e\<lparr>mm_base := mm_base e + sz, mm_length := mm_length e - sz\<rparr>) \<inter>
      {unat (mm_base e) div 4096..<unat (mm_base e) div 4096 + unat sz div 4096} = {}"
    using assms(1,2,4) sz by (auto simp: epages_def mm_ok_def b l elim!: dvdE)
  show "{unat (mm_base e) div 4096..<unat (mm_base e) div 4096 + unat sz div 4096} \<subseteq> epages e"
    using assms(4) div_le_mono [OF sz, of 4096] by (auto simp: epages_def)
qed

lemma reserve_array_ok:
  assumes "reserve_array sz es = (a, fs)" and "4096 dvd unat sz" and "mm_wf es" and "a \<noteq> 0"
  shows "list_all2 mm_sub fs es \<and>
    {unat a div 4096..<unat a div 4096 + unat sz div 4096} \<subseteq> \<Union> (epages ` set es) \<and>
    {unat a div 4096..<unat a div 4096 + unat sz div 4096} \<inter> \<Union> (epages ` set fs) = {}"
  using assms
proof (induction es arbitrary: fs)
  case (Cons e es)
  have apart: "epages e \<inter> epages f = {}" if "f \<in> set es" for f
    using Cons.prems(3) that mm_wf_ok [of es f] by (intro epages_apart) auto
  have refl: "list_all2 mm_sub es es" using Cons.prems(3) mm_wf_ok by (auto intro!: list.rel_refl_strong mm_sub_refl)
  show ?case
  proof (cases "mm_type e = LIMINE_MEMMAP_USABLE \<and> mm_length e \<ge> sz")
    case True
    then have a: "a = mm_base e" "fs = e\<lparr>mm_base := mm_base e + sz, mm_length := mm_length e - sz\<rparr> # es"
      using Cons.prems(1) by auto
    note sh = mm_sub_shrink [of e sz]
    show ?thesis using sh True Cons.prems(2,3) refl apart unfolding a by auto
  next
    case False
    then obtain gs where g: "reserve_array sz es = (a, gs)" "fs = e # gs"
      using Cons.prems(1) by (auto split: prod.splits if_splits)
    let ?R = "{unat a div 4096..<unat a div 4096 + unat sz div 4096}"
    have ih: "list_all2 mm_sub gs es" "?R \<subseteq> \<Union> (epages ` set es)" "?R \<inter> \<Union> (epages ` set gs) = {}"
      using Cons.IH [OF g(1)] Cons.prems by auto
    moreover have "?R \<inter> epages e = {}" using ih(2) apart by blast
    ultimately show ?thesis using Cons.prems(3) mm_sub_refl g(2) by auto
  qed
qed simp

lemma empty_pmm_inv: "buddy_inv (empty_pmm n) (\<lambda>_. []) {}"
  by (simp add: buddy_inv_def empty_pmm_def fl_rep_def fl_list_def fblocks_def tiled_def heads_ok_def
      flags_ok_def coalesced_def npages_def)

lemma array_bytes_aligned: "4096 dvd unat (array_bytes es)"
proof -
  have "unat (x div PAGE_SIZE * PAGE_SIZE) = unat x div 4096 * 4096" for x :: u64
  proof -
    have "unat x div 4096 * 4096 \<le> unat x" by simp
    also have "\<dots> < 2 ^ 64" using unat_less [of x] by simp
    finally show ?thesis by (simp add: unat_word_ariths unat_div)
  qed
  then show ?thesis by (simp add: array_bytes_def Let_def)
qed

lemma pmm_init_inv:
  assumes "mm_wf es" and "pmm_init es = Some s"
    and r: "reserve_array (array_bytes es) es = (a, fs)"
  shows "\<exists>F. buddy_inv s F {} \<and> pages_of (fblocks F) = \<Union> (epages ` set fs) - {0}"
    and "total_phys_pages s = unat (mm_max_addr es) div 4096" and "total_phys_pages s \<le> 2 ^ 52"
    and "{unat a div 4096..<unat a div 4096 + unat (array_bytes es) div 4096} \<inter> \<Union> (epages ` set fs) = {}"
proof -
  let ?N = "unat (mm_max_addr es) div 4096"
  have a: "a \<noteq> 0" and s: "s = sync_legacy_globals (fold init_entry fs (empty_pmm ?N))"
    using assms(2) r by (auto simp: pmm_init_def Let_def unat_div split: if_splits)
  note ra = reserve_array_ok [OF r array_bytes_aligned assms(1) a]
  have wf: "mm_wf fs" using mm_wf_sub ra assms(1) by blast
  have sub: "\<exists>e \<in> set es. epages f \<subseteq> epages e" if f: "f \<in> set fs" for f
  proof -
    obtain e where "e \<in> set es" "mm_sub f e"
      using list_all2_member [of mm_sub fs es f] ra f by blast
    with mm_sub_epages mm_wf_ok [OF assms(1)] show ?thesis by blast
  qed
  have "epages e \<subseteq> {..<?N}" if "e \<in> set es" for e
    using mm_max_addr_bound [OF assms(1) that] mm_wf_ok [OF assms(1) that] 
      div_le_mono [of "unat (mm_base e) + unat (mm_length e)" "unat (mm_max_addr es)" 4096]
    by (auto simp: epages_def mm_ok_def elim!: dvdE)
  with sub have rng: "\<Union> (epages ` set fs) \<subseteq> {..<?N}" by blast
  have N: "?N \<le> 2 ^ 52" using unat_less [of "mm_max_addr es"] by simp
  have "pages_of (fblocks (\<lambda>_. [])) = {}" by (simp add: pages_of_def fblocks_def)
  then have "total_phys_pages (fold init_entry fs (empty_pmm ?N)) = ?N \<and>
    (\<exists>F. buddy_inv (fold init_entry fs (empty_pmm ?N)) F {} \<and>
      pages_of (fblocks F) = \<Union> (epages ` set fs) - {0})"
    using init_entries_inv [OF empty_pmm_inv [of ?N] _ wf] rng N by (simp add: empty_pmm_def)
  with s N show "\<exists>F. buddy_inv s F {} \<and> pages_of (fblocks F) = \<Union> (epages ` set fs) - {0}"
    and "total_phys_pages s = ?N" and "total_phys_pages s \<le> 2 ^ 52" by simp_all
  show "{unat a div 4096..<unat a div 4096 + unat (array_bytes es) div 4096} \<inter> \<Union> (epages ` set fs) = {}"
    using ra by blast
qed

subsection \<open>Properties\<close>

text \<open>A small machine for the examples: four pages, the block of pages 2 and 3 is free.\<close>

definition demo_pmm :: pmm where
  "demo_pmm = (empty_pmm 4)\<lparr>freelist := (\<lambda>_. None)(1 := Some 2), free_count := (\<lambda>_. 0)(1 := 1),
     page_array := (page_array (empty_pmm 4))(2 := \<lparr>pg_flags = 0, pg_order = 1, is_free = True,
       pg_next = None, pg_prev = None\<rparr>), free_phys_pages := 2\<rparr>"

definition demo_free :: "nat \<Rightarrow> nat list" where
  "demo_free k = (if k = 1 then [2] else [])"

lemma demo_fblocks: "fblocks demo_free = {(2, 1)}"
  by (auto simp: fblocks_def demo_free_def)

lemma demo_inv: "buddy_inv demo_pmm demo_free {}"
proof -
  have "npages demo_free = (\<Sum>k\<in>{1::nat}. 2 ^ k * length (demo_free k))"
    unfolding npages_def by (rule sum.mono_neutral_right) (auto simp: demo_free_def)
  then have "npages demo_free = 2" by (simp add: demo_free_def)
  then show ?thesis
    unfolding buddy_inv_def demo_fblocks
    by (auto simp: demo_pmm_def empty_pmm_def fl_rep_def fl_list_def tiled_def heads_ok_def
        flags_ok_def coalesced_def demo_free_def)
qed

text \<open>C4. A block handed out by \<open>pmm_alloc_pages\<close> was entirely free, overlaps no block that is still
  allocated, is aligned to its size, and the allocator is consistent afterwards with exactly these
  pages missing from the free lists.\<close>

theorem pmm_alloc_safe:
  assumes "buddy_inv s F A" and "total_phys_pages s \<le> 2 ^ 52" and "order < PMM_MAX_ORDER"
    and "pmm_alloc_pages oom order s = (a, s')" and "a \<noteq> 0"
  shows "\<exists>p F'. a = of_nat p * PAGE_SIZE \<and> 2 ^ order dvd p \<and> blk p order \<subseteq> pages_of (fblocks F) \<and>
    blk p order \<inter> pages_of A = {} \<and> buddy_inv s' F' (insert (p, order) A) \<and>
    pages_of (fblocks F') = pages_of (fblocks F) - blk p order"
proof -
  obtain c where "find (\<lambda>c. freelist s c \<noteq> None) [order..<PMM_MAX_ORDER] = Some c"
    using assms(3-5) by (auto simp: pmm_alloc_pages_def split: option.splits if_splits)
  from alloc_block [OF assms(1,3) this, of oom] assms(4) obtain p F' where
    p: "a = of_nat p * PAGE_SIZE" "buddy_inv s' F' (insert (p, order) A)"
      "blk p order \<subseteq> pages_of (fblocks F)" "pages_of (fblocks F') = pages_of (fblocks F) - blk p order"
    by auto
  have t: "tiled (total_phys_pages s) (fblocks F \<union> A)" "fblocks F \<inter> A = {}"
    using assms(1) by (auto simp: buddy_inv_def)
  have "blk p order \<inter> pages_of A = {}"
    using p(3) tiled_disjoint [OF t(1)] t(2) unfolding pages_of_iff disjoint_iff subset_iff by blast
  moreover have "2 ^ order dvd p"
    using p(2) tiled_blk [of "total_phys_pages s'" "fblocks F' \<union> insert (p, order) A" p order]
    by (simp add: buddy_inv_def)
  ultimately show ?thesis using p by blast
qed

theorem pmm_alloc_safe_witness:
  "fst (pmm_alloc_pages id 0 demo_pmm) = 8192 \<and>
   (\<exists>p F'. 8192 = (of_nat p * PAGE_SIZE :: u64) \<and> 2 ^ 0 dvd p \<and> blk p 0 \<subseteq> pages_of (fblocks demo_free) \<and>
     blk p 0 \<inter> pages_of {} = {} \<and> buddy_inv (snd (pmm_alloc_pages id 0 demo_pmm)) F' (insert (p, 0) {}) \<and>
     pages_of (fblocks F') = pages_of (fblocks demo_free) - blk p 0)"
proof -
  have "[0..<16] = 0 # 1 # [2..<16]" by (simp add: upt_conv_Cons)
  then have a: "fst (pmm_alloc_pages id 0 demo_pmm) = 8192"
    by (simp add: pmm_alloc_pages_def demo_pmm_def Let_def)
  then have "pmm_alloc_pages id 0 demo_pmm = (8192, snd (pmm_alloc_pages id 0 demo_pmm))"
    by (simp add: prod_eq_iff)
  from pmm_alloc_safe [OF demo_inv _ _ this] a show ?thesis
    by (simp add: demo_pmm_def empty_pmm_def)
qed

text \<open>C5. \<open>pmm_alloc_pages\<close> fails only when memory is really exhausted for the request: it returns
  \<open>NULL\<close> exactly if no aligned run of \<open>2 ^ order\<close> free pages exists, however the pages came to be freed.\<close>

theorem pmm_alloc_complete:
  assumes "buddy_inv s F A" and "total_phys_pages s \<le> 2 ^ 52" and "order < PMM_MAX_ORDER"
  shows "fst (pmm_alloc_pages oom order s) = 0 \<longleftrightarrow>
    \<not> (\<exists>p. 2 ^ order dvd p \<and> blk p order \<subseteq> pages_of (fblocks F))"
proof (cases "find (\<lambda>c. freelist s c \<noteq> None) [order..<PMM_MAX_ORDER]")
  case None
  with alloc_none_iff [OF assms(1,3)] assms(3) show ?thesis by (simp add: pmm_alloc_pages_def)
next
  case (Some c)
  from alloc_block [OF assms(1,3) Some, of oom] obtain p s' F' where
    p: "pmm_alloc_pages oom order s = (of_nat p * PAGE_SIZE, s')" "buddy_inv s' F' (insert (p, order) A)"
      "total_phys_pages s' = total_phys_pages s" by blast
  have "0 < p" "p + 2 ^ order \<le> total_phys_pages s"
    using p(2,3) tiled_blk [of "total_phys_pages s'" "fblocks F' \<union> insert (p, order) A" p order]
    by (simp_all add: buddy_inv_def)
  then have "p < 2 ^ 52" using assms(2) by (auto intro: less_le_trans [of _ "p + 2 ^ order"])
  with page_addr(2) [of p] \<open>0 < p\<close> p(1) Some alloc_none_iff [OF assms(1,3)] show ?thesis by simp
qed

theorem pmm_alloc_complete_witness:
  "fst (pmm_alloc_pages id 1 demo_pmm) \<noteq> 0 \<and> fst (pmm_alloc_pages id 2 demo_pmm) = 0"
proof -
  have pg: "pages_of (fblocks demo_free) = {2, 3}"
    unfolding demo_fblocks by (auto simp: pages_of_def blk_def)
  have "total_phys_pages demo_pmm \<le> 2 ^ 52" by (simp add: demo_pmm_def empty_pmm_def)
  note c = pmm_alloc_complete [OF demo_inv this, unfolded pg]
  have "2 ^ 1 dvd (2::nat) \<and> blk 2 1 \<subseteq> {2, 3}" by (auto simp: blk_def)
  moreover have "\<not> blk p 2 \<subseteq> {2, 3}" for p
    using card_mono [of "{2, 3 :: nat}" "blk p 2"] by auto
  ultimately show ?thesis using c [of 1 id] c [of 2 id] by auto
qed

lemma float_of_allocated:
  assumes i: "buddy_inv s F A" and b: "(p, k) \<in> A"
  shows "float_inv s F (A - {(p, k)}) p k"
proof -
  have "insert (p, k) (fblocks F \<union> (A - {(p, k)})) = fblocks F \<union> A" using b by auto
  with assms show ?thesis unfolding buddy_inv_def float_inv_def heads_ok_def by auto
qed

text \<open>C6. Freeing an allocated block with the order it was allocated with gives exactly its pages back
  and keeps the allocator consistent.\<close>

theorem pmm_free_correct:
  assumes "buddy_inv s F A" and "total_phys_pages s \<le> 2 ^ 52" and "(p, k) \<in> A"
  shows "\<exists>F'. buddy_inv (pmm_free_pages (of_nat p * PAGE_SIZE) k s) F' (A - {(p, k)}) \<and>
    pages_of (fblocks F') = pages_of (fblocks F) \<union> blk p k"
proof (rule free_block [OF float_of_allocated [OF assms(1,3)] assms(2)])
  show "\<not> freep s p" "ordp s p = k" "free_phys_pages s = of_nat (npages F)"
    using assms(1) heads_alloc [of s "fblocks F" A p k] assms(3) by (auto simp: buddy_inv_def)
qed

text \<open>A machine of four pages where pages 2 and 3 are allocated as one block.\<close>

definition demo_used :: pmm where
  "demo_used = (empty_pmm 4)\<lparr>page_array := (page_array (empty_pmm 4))(2 := \<lparr>pg_flags = 0,
     pg_order = 1, is_free = False, pg_next = None, pg_prev = None\<rparr>)\<rparr>"

lemma demo_used_inv: "buddy_inv demo_used (\<lambda>_. []) {(2, 1)}"
  by (auto simp: buddy_inv_def demo_used_def empty_pmm_def fl_rep_def fl_list_def fblocks_def tiled_def
      heads_ok_def flags_ok_def coalesced_def npages_def)

theorem pmm_free_correct_witness:
  "\<exists>F'. buddy_inv (pmm_free_pages 8192 1 demo_used) F' {} \<and> pages_of (fblocks F') = {2, 3}"
proof -
  have "pages_of (fblocks (\<lambda>_. [])) = {}" "blk 2 1 = {2, 3}"
    by (auto simp: pages_of_def fblocks_def blk_def)
  with pmm_free_correct [OF demo_used_inv, of 2 1] show ?thesis
    by (simp add: demo_used_def empty_pmm_def)
qed


text \<open>A memory map with 12 KiB of usable memory at 4 KiB: the array takes the first page.\<close>

definition demo_map :: "mm_entry list" where
  "demo_map = [\<lparr>mm_base = 0x1000, mm_length = 0x3000, mm_type = 0\<rparr>]"


text \<open>The accounting functions are exact: \<open>pmm_get_free_pages\<close> counts the pages of the free
  blocks, and \<open>pmm_get_used_memory\<close> the bytes of all other pages below the highest usable address.\<close>

theorem pmm_accounting:
  assumes "buddy_inv s F A" and "total_phys_pages s \<le> 2 ^ 51"
  shows "unat (pmm_get_free_pages s) = card (pages_of (fblocks F)) \<and>
    unat (pmm_get_used_memory s) = (total_phys_pages s - card (pages_of (fblocks F))) * 4096"
proof -
  let ?f = "card (pages_of (fblocks F))" and ?N = "total_phys_pages s"
  have t: "tiled ?N (fblocks F)" using assms(1) tiled_subset [of ?N "fblocks F \<union> A"]
    by (auto simp: buddy_inv_def)
  have f: "free_phys_pages s = of_nat ?f"
    using assms(1) npages_card [OF _ t, of s] by (simp add: buddy_inv_def)
  have "pages_of (fblocks F) \<subseteq> {..<?N}"
    using tiled_blk [OF t] by (auto simp: pages_of_iff blk_def) (meson order_less_le_trans)
  then have le: "?f \<le> ?N" using card_mono [of "{..<?N}" "pages_of (fblocks F)"] by simp
  have b: "unat (of_nat m :: u64) = m" if "m \<le> ?N" for m
    using that assms(2) by (intro unat_of_nat_lt) simp
  have d: "unat (of_nat ?N - of_nat ?f :: u64) = ?N - ?f"
    using le b by (simp add: unat_sub word_le_nat_alt)
  have "unat ((of_nat ?N - of_nat ?f) * PAGE_SIZE :: u64) = (?N - ?f) * 4096"
    unfolding d [symmetric] by (rule unat_page) (use d assms(2) in simp)
  with f le b show ?thesis
    by (simp add: pmm_get_free_pages_def pmm_get_used_memory_def word_less_nat_alt)
qed

theorem pmm_accounting_witness:
  "unat (pmm_get_free_pages demo_pmm) = card {2, 3 :: nat} \<and>
   unat (pmm_get_used_memory demo_pmm) = (4 - card {2, 3 :: nat}) * 4096"
proof -
  have "pages_of (fblocks demo_free) = {2, 3}"
    unfolding demo_fblocks by (auto simp: pages_of_def blk_def)
  with pmm_accounting [OF demo_inv] show ?thesis by (simp add: demo_pmm_def empty_pmm_def)
qed

end
