(* ===== verification/Pages.thy ===== *)
theory Pages
  imports Pmm
begin

section \<open>The page allocator as an interface\<close>

text \<open>
  What the heap, the page tables, the page cache and the IPC buffers rely on when they call
  \<open>pmm_alloc_pages\<close> and \<open>pmm_free_pages\<close>: a locale with the laws of the allocator and the facts its
  clients share, and its interpretation on the buddy allocator of \<open>Pmm\<close>. \<open>region\<close> is the range of
  kernel addresses of a block under the direct map of physical memory at \<open>hhdm_offset\<close>.
\<close>

definition region :: "nat \<Rightarrow> nat \<Rightarrow> nat \<Rightarrow> nat set" where
  "region hhdm p k = {p * 4096 + hhdm..<(p + 2 ^ k) * 4096 + hhdm}"

lemma region_page: "x \<in> region hhdm p k \<Longrightarrow> hhdm \<le> x \<and> (x - hhdm) div 4096 \<in> blk p k"
  by (auto simp: region_def blk_def div_nat_eqI less_mult_imp_div_less)

locale page_provider =
  fixes alloc :: "nat \<Rightarrow> 's \<Rightarrow> u64 \<times> 's"
    and release :: "u64 \<Rightarrow> nat \<Rightarrow> 's \<Rightarrow> 's"
    and inv :: "'s \<Rightarrow> (nat \<times> nat) set \<Rightarrow> bool"
    and limit :: "'s \<Rightarrow> nat"
  assumes alloc_new: "inv s A \<Longrightarrow> k < PMM_MAX_ORDER \<Longrightarrow> alloc k s = (a, s') \<Longrightarrow> a \<noteq> 0 \<Longrightarrow>
      \<exists>p. a = of_nat p * PAGE_SIZE \<and> (p, k) \<notin> A \<and> inv s' (insert (p, k) A) \<and> limit s' = limit s"
    and release_block: "inv s A \<Longrightarrow> (p, k) \<in> A \<Longrightarrow>
      inv (release (of_nat p * PAGE_SIZE) k s) (A - {(p, k)}) \<and>
      limit (release (of_nat p * PAGE_SIZE) k s) = limit s"
    and in_range: "inv s A \<Longrightarrow> (p, k) \<in> A \<Longrightarrow> 0 < p \<and> p + 2 ^ k \<le> limit s"
    and limit_small: "inv s A \<Longrightarrow> limit s \<le> 2 ^ 52"
    and apart: "inv s A \<Longrightarrow> (p, k) \<in> A \<Longrightarrow> (q, j) \<in> A \<Longrightarrow> x \<in> blk p k \<Longrightarrow> x \<in> blk q j \<Longrightarrow> p = q \<and> k = j"
begin

text \<open>The address of an allocated block fits into 64 bits.\<close>

lemma address:
  assumes "inv s A" and "(p, k) \<in> A"
  shows "unat (of_nat p * PAGE_SIZE :: u64) = p * 4096" and "(of_nat p * PAGE_SIZE :: u64) \<noteq> 0"
proof -
  have p: "0 < p" "p + 2 ^ k \<le> 2 ^ 52" using in_range [OF assms] limit_small [OF assms(1)] by auto
  then have lt: "p < 2 ^ 52" by (rule_tac less_le_trans [of _ "p + 2 ^ k"]) simp_all
  then have u: "unat (of_nat p :: u64) = p" by (intro unat_of_nat_lt) simp
  show "unat (of_nat p * PAGE_SIZE :: u64) = p * 4096" using unat_page [of "of_nat p"] u lt by simp
  show "(of_nat p * PAGE_SIZE :: u64) \<noteq> 0" using page_addr(2) [OF lt] p by simp
qed

lemma regions_apart:
  assumes "inv s A" and "(p, k) \<in> A" and "(q, j) \<in> A" and "x \<in> region h p k" and "x \<in> region h q j"
  shows "p = q \<and> k = j"
  using apart [OF assms(1-3)] region_page [OF assms(4)] region_page [OF assms(5)] by blast

lemma alloc_region:
  assumes "inv s A" and "k < PMM_MAX_ORDER" and "alloc k s = (a, s')" and "a \<noteq> 0"
  shows "\<exists>p. a = of_nat p * PAGE_SIZE \<and> unat a = p * 4096 \<and> (p, k) \<notin> A \<and> inv s' (insert (p, k) A) \<and>
    limit s' = limit s \<and> (\<forall>q j. (q, j) \<in> A \<longrightarrow> region h p k \<inter> region h q j = {})"
proof -
  from alloc_new [OF assms] obtain p where p: "a = of_nat p * PAGE_SIZE" "(p, k) \<notin> A"
    "inv s' (insert (p, k) A)" "limit s' = limit s" by blast
  have "region h p k \<inter> region h q j = {}" if "(q, j) \<in> A" for q j
    using regions_apart [OF p(3), of p k q j] that p(2) by auto
  with p address(1) [OF p(3), of p k] show ?thesis by auto
qed

end

definition pmm_ok :: "pmm \<Rightarrow> (nat \<times> nat) set \<Rightarrow> bool" where
  "pmm_ok s A \<longleftrightarrow> (\<exists>F. buddy_inv s F A) \<and> total_phys_pages s \<le> 2 ^ 52"

lemma total_alloc:
  assumes "buddy_inv s F A" and "k < PMM_MAX_ORDER" and "pmm_alloc_pages oom k s = (a, s')" and "a \<noteq> 0"
  shows "\<exists>p F'. a = of_nat p * PAGE_SIZE \<and> buddy_inv s' F' (insert (p, k) A) \<and>
    total_phys_pages s' = total_phys_pages s \<and> blk p k \<subseteq> pages_of (fblocks F)"
proof -
  obtain c where "find (\<lambda>c. freelist s c \<noteq> None) [k..<PMM_MAX_ORDER] = Some c"
    using assms(2-4) by (auto simp: pmm_alloc_pages_def split: option.splits if_splits)
  from alloc_block [OF assms(1,2) this, of oom] assms(3) show ?thesis by auto
qed

text \<open>When no block is found the state is what the out-of-memory handler leaves.\<close>

lemma alloc_null:
  assumes "pmm_ok s A" and "k < PMM_MAX_ORDER" and "pmm_alloc_pages oom k s = (0, s')"
  shows "s' = oom s"
proof (cases "find (\<lambda>c. freelist s c \<noteq> None) [k..<PMM_MAX_ORDER]")
  case None
  with assms(2,3) show ?thesis by (simp add: pmm_alloc_pages_def)
next
  case (Some c)
  from assms(1) obtain F where F: "buddy_inv s F A" "total_phys_pages s \<le> 2 ^ 52" by (auto simp: pmm_ok_def)
  from alloc_block [OF F(1) assms(2) Some, of oom] assms(3) obtain p F' where
    p: "(of_nat p * PAGE_SIZE :: u64) = 0" "buddy_inv s' F' (insert (p, k) A)"
      "total_phys_pages s' = total_phys_pages s" by auto
  have "0 < p" "p + 2 ^ k \<le> 2 ^ 52"
    using tiled_blk [of "total_phys_pages s'" "fblocks F' \<union> insert (p, k) A" p k] p(2,3) F(2)
    by (auto simp: buddy_inv_def)
  then have "p < 2 ^ 52" by (rule_tac less_le_trans [of _ "p + 2 ^ k"]) simp_all
  with page_addr(2) [of p] p(1) \<open>0 < p\<close> show ?thesis by simp
qed

interpretation pg: page_provider "pmm_alloc_pages oom" pmm_free_pages pmm_ok total_phys_pages
  for oom :: "pmm \<Rightarrow> pmm"
proof
  fix s s' :: pmm and A :: "(nat \<times> nat) set" and a :: u64 and k p q j x :: nat
  assume i: "pmm_ok s A"
  then obtain F where F: "buddy_inv s F A" and N: "total_phys_pages s \<le> 2 ^ 52" by (auto simp: pmm_ok_def)
  have t: "tiled (total_phys_pages s) (fblocks F \<union> A)" and d: "fblocks F \<inter> A = {}"
    using F by (auto simp: buddy_inv_def)
  show "total_phys_pages s \<le> 2 ^ 52" by (rule N)
  { assume "k < 16" "pmm_alloc_pages oom k s = (a, s')" "a \<noteq> 0"
    from total_alloc [OF F this] obtain r G where r: "a = of_nat r * PAGE_SIZE"
      "buddy_inv s' G (insert (r, k) A)" "total_phys_pages s' = total_phys_pages s"
      "blk r k \<subseteq> pages_of (fblocks F)" by blast
    have "(r, k) \<notin> A"
      using r(4) blk_self [of r k] tiled_disjoint [OF t, of r k _ _ r] d pages_of_iff by blast
    with r N show "\<exists>p. a = of_nat p * PAGE_SIZE \<and> (p, k) \<notin> A \<and> pmm_ok s' (insert (p, k) A) \<and>
        total_phys_pages s' = total_phys_pages s" by (auto simp: pmm_ok_def) }
  assume b: "(p, k) \<in> A"
  show "0 < p \<and> p + 2 ^ k \<le> total_phys_pages s" using tiled_blk [OF t, of p k] b by simp
  have "\<exists>F'. buddy_inv (pmm_free_pages (of_nat p * PAGE_SIZE) k s) F' (A - {(p, k)})"
    using free_block [OF float_of_allocated [OF F b] N] heads_alloc [of s "fblocks F" A p k] F b
    by (auto simp: buddy_inv_def)
  with N show "pmm_ok (pmm_free_pages (of_nat p * PAGE_SIZE) k s) (A - {(p, k)}) \<and>
      total_phys_pages (pmm_free_pages (of_nat p * PAGE_SIZE) k s) = total_phys_pages s"
    by (simp add: pmm_ok_def)
  assume "(q, j) \<in> A" "x \<in> blk p k" "x \<in> blk q j"
  with b show "p = q \<and> k = j" using tiled_disjoint [OF t, of p k q j x] by simp
qed

end
