(* ===== verification/Kmem.thy ===== *)
theory Kmem
  imports Prelude
begin

section \<open>Byte memory and the block operations of \<open>libs/string.c\<close>\<close>

text \<open>
  Memory is a function from addresses to bytes; an address is a \<open>nat\<close> (the kernel's own ranges never
  wrap around \<open>2 ^ 64\<close>). \<open>memcpy\<close>, \<open>memmove\<close>, \<open>memset\<close> and \<open>memcmp\<close> are translated with their
  loops, the word-wise fast path of \<open>memcpy\<close> included. \<open>block_copy\<close> is what a copy should do: all
  bytes at once. \<open>r64\<close> and \<open>w64\<close> are the accesses to 64-bit fields that the heap and other
  components make.
\<close>

type_synonym mem = "nat \<Rightarrow> u8"

subsection \<open>64-bit and 32-bit cells\<close>

definition byte_of :: "u64 \<Rightarrow> nat \<Rightarrow> u8" where
  "byte_of v i = ucast (drop_bit (8 * i) v)"

definition w64 :: "mem \<Rightarrow> nat \<Rightarrow> u64 \<Rightarrow> mem" where
  "w64 m a v = (\<lambda>x. if a \<le> x \<and> x < a + 8 then byte_of v (x - a) else m x)"

definition r32 :: "mem \<Rightarrow> nat \<Rightarrow> u32" where
  "r32 m a = ucast (m a) OR push_bit 8 (ucast (m (a + 1))) OR push_bit 16 (ucast (m (a + 2)))
     OR push_bit 24 (ucast (m (a + 3)))"

definition r64 :: "mem \<Rightarrow> nat \<Rightarrow> u64" where
  "r64 m a = ucast (r32 m a) OR push_bit 32 (ucast (r32 m (a + 4)))"

definition w32 :: "mem \<Rightarrow> nat \<Rightarrow> u32 \<Rightarrow> mem" where
  "w32 m a v = (\<lambda>x. if a \<le> x \<and> x < a + 4 then ucast (drop_bit (8 * (x - a)) v) else m x)"

lemma bytes4_join:
  fixes v :: "'a::len word"
  shows "(ucast (ucast v :: u8) :: u32) OR push_bit 8 (ucast (ucast (drop_bit 8 v) :: u8))
    OR push_bit 16 (ucast (ucast (drop_bit 16 v) :: u8))
    OR push_bit 24 (ucast (ucast (drop_bit 24 v) :: u8)) = ucast v" (is "?l = _")
proof (rule bit_word_eqI)
  fix n :: nat
  assume "n < LENGTH(32)"
  then show "bit ?l n = bit (ucast v :: u32) n"
    by (cases "n < 8"; cases "n < 16"; cases "n < 24") (auto simp: bit_simps)
qed

lemma words2_join: "(ucast (ucast v :: u32) :: u64) OR push_bit 32 (ucast (ucast (drop_bit 32 v) :: u32)) = v"
  by (rule bit_word_eqI) (auto simp: bit_simps)

lemma r32_w32 [simp]: "r32 (w32 m a v) a = v"
  using bytes4_join [of v] by (simp add: r32_def w32_def)

lemma r64_w64 [simp]: "r64 (w64 m a v) a = v"
proof -
  have "r32 (w64 m a v) a = ucast v"
    using bytes4_join [of v] by (simp add: r32_def w64_def byte_of_def)
  moreover have "r32 (w64 m a v) (a + 4) = ucast (drop_bit 32 v)"
    using bytes4_join [of "drop_bit 32 v"] by (simp add: r32_def w64_def byte_of_def)
  ultimately show ?thesis using words2_join by (simp add: r64_def)
qed

lemma r32_w64_low: "r32 (w64 m a v) a = ucast v"
  using bytes4_join [of v] by (simp add: r32_def w64_def byte_of_def)

text \<open>Frame rules: a cell depends on its own bytes only.\<close>

lemma r64_cong: "(\<And>x. a \<le> x \<Longrightarrow> x < a + 8 \<Longrightarrow> m' x = m x) \<Longrightarrow> r64 m' a = r64 m a"
  by (simp add: r64_def r32_def)

lemma r32_cong: "(\<And>x. a \<le> x \<Longrightarrow> x < a + 4 \<Longrightarrow> m' x = m x) \<Longrightarrow> r32 m' a = r32 m a"
  by (simp add: r32_def)

lemma w64_other [simp]: "x < a \<or> a + 8 \<le> x \<Longrightarrow> w64 m a v x = m x"
  by (auto simp: w64_def)

lemma w32_other [simp]: "x < a \<or> a + 4 \<le> x \<Longrightarrow> w32 m a v x = m x"
  by (auto simp: w32_def)

lemma r64_w64_other: "a + 8 \<le> b \<or> b + 8 \<le> a \<Longrightarrow> r64 (w64 m a v) b = r64 m b"
  by (rule r64_cong) auto

lemma r32_w64_other: "a + 8 \<le> b \<or> b + 4 \<le> a \<Longrightarrow> r32 (w64 m a v) b = r32 m b"
  by (rule r32_cong) auto

lemma r64_w32_other: "a + 4 \<le> b \<or> b + 8 \<le> a \<Longrightarrow> r64 (w32 m a v) b = r64 m b"
  by (rule r64_cong) auto

subsection \<open>Block operations\<close>

definition copy8 :: "nat \<Rightarrow> nat \<Rightarrow> mem \<Rightarrow> mem" where
  "copy8 d s m = w64 m d (r64 m s)"

text \<open>The word loop of \<open>memcpy\<close>; it hands the pointers and the rest of the count on.\<close>

function memcpy_words :: "nat \<Rightarrow> nat \<Rightarrow> nat \<Rightarrow> mem \<Rightarrow> nat \<times> nat \<times> nat \<times> mem" where
  "memcpy_words d s n m =
     (if n \<ge> 8 then memcpy_words (d + 8) (s + 8) (n - 8) (copy8 d s m) else (d, s, n, m))"
  by pat_completeness auto

termination memcpy_words
  by (relation "measure (\<lambda>(d, s, n, m). n)") auto

declare memcpy_words.simps [simp del]

fun memcpy_bytes :: "nat \<Rightarrow> nat \<Rightarrow> nat \<Rightarrow> mem \<Rightarrow> mem" where
  "memcpy_bytes d s 0 m = m"
| "memcpy_bytes d s (Suc n) m = memcpy_bytes (Suc d) (Suc s) n (m(d := m s))"

definition memcpy :: "nat \<Rightarrow> nat \<Rightarrow> nat \<Rightarrow> mem \<Rightarrow> mem" where
  "memcpy dest src n m =
     (let (d, s, k, m') = (if dest mod 8 = 0 \<and> src mod 8 = 0 then memcpy_words dest src n m
                           else (dest, src, n, m))
      in memcpy_bytes d s k m')"

definition memset :: "nat \<Rightarrow> u8 \<Rightarrow> nat \<Rightarrow> mem \<Rightarrow> mem" where
  "memset p c n m = fold (\<lambda>i m. m(p + i := c)) [0..<n] m"

definition memmove :: "nat \<Rightarrow> nat \<Rightarrow> nat \<Rightarrow> mem \<Rightarrow> mem" where
  "memmove d s n m =
     (if d = s \<or> n = 0 then m
      else if d < s then fold (\<lambda>i m. m(d + i := m (s + i))) [0..<n] m
      else fold (\<lambda>i m. m(d + i := m (s + i))) (rev [0..<n]) m)"

fun memcmp :: "mem \<Rightarrow> nat \<Rightarrow> nat \<Rightarrow> nat \<Rightarrow> int" where
  "memcmp m p1 p2 0 = 0"
| "memcmp m p1 p2 (Suc n) =
     (if m p1 \<noteq> m p2 then uint (m p1) - uint (m p2) else memcmp m (Suc p1) (Suc p2) n)"

subsection \<open>What they compute\<close>

definition block_copy :: "nat \<Rightarrow> nat \<Rightarrow> nat \<Rightarrow> mem \<Rightarrow> mem" where
  "block_copy d s n m = (\<lambda>x. if d \<le> x \<and> x < d + n then m (s + (x - d)) else m x)"

lemma bit_u8_high: "8 \<le> k \<Longrightarrow> \<not> bit (w :: u8) k"
  by (auto dest: bit_imp_le_length)

lemma byte_of_r64: "i < 8 \<Longrightarrow> byte_of (r64 m a) i = m (a + i)"
proof -
  assume "i < 8"
  then consider "i = 0" | "i = 1" | "i = 2" | "i = 3" | "i = 4" | "i = 5" | "i = 6" | "i = 7" by linarith
  then show ?thesis
    by cases (auto simp: byte_of_def r64_def r32_def ac_simps bit_simps bit_u8_high intro!: bit_word_eqI)
qed

lemma copy8_block: "copy8 d s m = block_copy d s 8 m"
  by (rule ext) (auto simp: copy8_def w64_def block_copy_def byte_of_r64)

lemma block_copy_0 [simp]: "block_copy d s 0 m = m"
  by (auto simp: block_copy_def fun_eq_iff)

lemma block_copy_split:
  assumes "d \<le> s \<or> s + (i + n) \<le> d"
  shows "block_copy (d + i) (s + i) n (block_copy d s i m) = block_copy d s (i + n) m"
  using assms by (auto simp: block_copy_def fun_eq_iff)

lemma memcpy_bytes_block:
  assumes "d \<le> s \<or> s + n \<le> d"
  shows "memcpy_bytes d s n m = block_copy d s n m"
  using assms
proof (induction n arbitrary: d s m)
  case (Suc n)
  have "m(d := m s) = block_copy d s 1 m" by (auto simp: block_copy_def fun_eq_iff)
  moreover have "memcpy_bytes (Suc d) (Suc s) n (m(d := m s)) = block_copy (Suc d) (Suc s) n (m(d := m s))"
    by (rule Suc.IH) (use Suc.prems in auto)
  ultimately show ?case
    using block_copy_split [of d s 1 n m] Suc.prems by simp
qed simp

lemma memcpy_words_block:
  assumes "d mod 8 = 0" and "s mod 8 = 0" and "d \<le> s \<or> s + n \<le> d"
  shows "\<exists>k m'. memcpy_words d s n m = (d + k, s + k, n - k, m') \<and> k \<le> n \<and> m' = block_copy d s k m"
  using assms
proof (induction d s n m rule: memcpy_words.induct)
  case (1 d s n m)
  show ?case
  proof (cases "n \<ge> 8")
    case True
    obtain k m' where k: "memcpy_words (d + 8) (s + 8) (n - 8) (copy8 d s m) =
        (d + 8 + k, s + 8 + k, n - 8 - k, m')" "k \<le> n - 8"
      "m' = block_copy (d + 8) (s + 8) k (copy8 d s m)"
      using 1 True by (auto simp: mod_add_right_eq)
    have "m' = block_copy d s (8 + k) m"
      unfolding k(3) copy8_block by (rule block_copy_split) (use "1.prems"(3) k(2) True in auto)
    with k True show ?thesis
      by (subst memcpy_words.simps) (auto intro!: exI [of _ "8 + k"])
  qed (subst memcpy_words.simps, auto)
qed

lemma memcpy_block:
  assumes "d \<le> s \<or> s + n \<le> d"
  shows "memcpy d s n m = block_copy d s n m"
proof (cases "d mod 8 = 0 \<and> s mod 8 = 0")
  case True
  then obtain k m' where k: "memcpy_words d s n m = (d + k, s + k, n - k, m')" "k \<le> n"
    "m' = block_copy d s k m"
    using memcpy_words_block [of d s n m] assms by auto
  have "memcpy_bytes (d + k) (s + k) (n - k) m' = block_copy (d + k) (s + k) (n - k) m'"
    by (rule memcpy_bytes_block) (use assms k(2) in auto)
  also have "\<dots> = block_copy d s n m"
    using block_copy_split [of d s k "n - k" m] assms k by auto
  finally show ?thesis using True k(1) by (simp add: memcpy_def)
qed (use assms in \<open>auto simp: memcpy_def memcpy_bytes_block\<close>)

lemma memset_block: "memset p c n m = (\<lambda>x. if p \<le> x \<and> x < p + n then c else m x)"
  by (induction n) (auto simp: memset_def fun_eq_iff)

lemma memmove_forward:
  "d < s \<Longrightarrow> fold (\<lambda>i m. m(d + i := m (s + i))) [0..<n] m = block_copy d s n m"
  by (induction n) (auto simp: block_copy_def fun_eq_iff)

lemma memmove_backward:
  "s < d \<Longrightarrow> fold (\<lambda>i m. m(d + i := m (s + i))) (rev [0..<n]) m = block_copy d s n m"
proof (induction n arbitrary: m)
  case (Suc n)
  then show ?case by (auto simp: block_copy_def fun_eq_iff)
qed simp

text \<open>C12. \<open>memmove\<close> copies the source range as it was before the call, however the two ranges
  overlap; \<open>memcpy\<close> does the same whenever the destination does not start inside the source, its
  aligned 8-byte fast path included.\<close>

theorem copies_are_block_copies:
  "memmove d s n m = block_copy d s n m \<and>
   (d \<le> s \<or> s + n \<le> d \<longrightarrow> memcpy d s n m = block_copy d s n m)"
proof -
  have "memmove d s n m = block_copy d s n m"
  proof (cases "d = s \<or> n = 0")
    case True
    then show ?thesis by (auto simp: memmove_def block_copy_def fun_eq_iff)
  next
    case False
    then show ?thesis using memmove_forward [of d s n m] memmove_backward [of s d n m]
      by (cases "d < s") (auto simp: memmove_def)
  qed
  then show ?thesis using memcpy_block by blast
qed

theorem copies_are_block_copies_witness:
  "memmove 2 0 4 of_nat 5 = (3 :: u8) \<and> memcpy 16 0 11 of_nat 26 = (10 :: u8)"
  using copies_are_block_copies [of 2 0 4 of_nat] copies_are_block_copies [of 16 0 11 of_nat]
  by (simp add: block_copy_def)

text \<open>\<open>memcmp\<close> returns 0 exactly for equal ranges.\<close>

lemma memcmp_zero: "memcmp m p1 p2 n = 0 \<longleftrightarrow> (\<forall>i < n. m (p1 + i) = m (p2 + i))"
proof (induction n arbitrary: p1 p2)
  case (Suc n)
  have "(\<forall>i < Suc n. m (p1 + i) = m (p2 + i)) \<longleftrightarrow>
      m p1 = m p2 \<and> (\<forall>i < n. m (Suc p1 + i) = m (Suc p2 + i))"
    by (auto simp: less_Suc_eq_0_disj)
  with Suc.IH show ?case by (auto dest: unsigned_word_eqI)
qed simp

end
