(* ===== verification/Kheap.thy ===== *)
theory Kheap
  imports Pages Kmem
begin

section \<open>The kernel heap (\<open>kernel/core/mem/memory.c\<close>)\<close>

text \<open>
  The slab allocator for objects up to 2048 bytes and the large allocations behind it. Everything the
  code keeps in memory is kept in memory here: the headers of the slab pages, the free lists threaded
  through the free objects, and the headers of large allocations are bytes of \<open>hmem\<close>, so that the
  theorems also say that a client writing into its own objects cannot damage the heap.
  Pointers are \<open>nat\<close> addresses (\<open>0\<close> is \<open>NULL\<close>); \<open>hhdm\<close> is the offset of the direct map, so
  \<open>VIRT(x)\<close> is \<open>x + hhdm\<close>. Sizes and counters are 64-bit words. The walk over the slab list of a
  bucket is a \<open>partial_function\<close>: that it ends is part of the theorems.

  Layout: \<open>slab_page_t\<close> has \<open>object_size\<close>, \<open>free_count\<close>, \<open>free_list\<close>, \<open>next\<close> at offsets 0, 8, 16, 24;
  \<open>large_alloc_header_t\<close> has \<open>magic\<close> (32 bits), \<open>page_count\<close>, \<open>size\<close> at offsets 0, 8, 16 and is padded
  to 32 bytes; \<open>slab_object_t\<close> has \<open>next\<close> at offset 0.
\<close>

record heap =
  hmem :: mem
  bucket_object_size :: "nat \<Rightarrow> u64"
  bucket_slabs :: "nat \<Rightarrow> nat"
  used_memory :: u64
  hpmm :: pmm

abbreviation (input) NUM_SLAB_BUCKETS :: nat where "NUM_SLAB_BUCKETS \<equiv> 8"
abbreviation (input) LARGE_ALLOC_MAGIC :: u32 where "LARGE_ALLOC_MAGIC \<equiv> 0x4C415247"
abbreviation (input) LARGE_HEADER :: nat where "LARGE_HEADER \<equiv> 32"
abbreviation (input) SLAB_HEADER :: nat where "SLAB_HEADER \<equiv> 32"

definition bucket_sizes :: "nat list" where
  "bucket_sizes = [16, 32, 64, 128, 256, 512, 1024, 2048]"

definition init_heap :: "heap \<Rightarrow> heap" where
  "init_heap h = h\<lparr>bucket_object_size := \<lambda>i. if i < NUM_SLAB_BUCKETS then of_nat (bucket_sizes ! i)
                       else bucket_object_size h i,
                   bucket_slabs := \<lambda>i. if i < NUM_SLAB_BUCKETS then 0 else bucket_slabs h i,
                   used_memory := 0\<rparr>"

subsection \<open>Slab pages\<close>

text \<open>The loop of \<open>create_slab_page\<close> that threads the free list through the new objects.\<close>

fun slab_thread :: "nat \<Rightarrow> nat \<Rightarrow> nat \<Rightarrow> mem \<Rightarrow> mem" where
  "slab_thread cur object_size 0 m = w64 m cur 0"
| "slab_thread cur object_size (Suc i) m =
     slab_thread (cur + object_size) object_size i (w64 m cur (of_nat (cur + object_size)))"

definition create_slab_page :: "nat \<Rightarrow> (pmm \<Rightarrow> pmm) \<Rightarrow> u64 \<Rightarrow> heap \<Rightarrow> nat \<times> heap" where
  "create_slab_page hhdm oom object_size h =
     (let (phys, s) = pmm_alloc oom (hpmm h); h1 = h\<lparr>hpmm := s\<rparr> in
      if phys = 0 then (0, h1)
      else
        let slab = unat phys + hhdm;
            m1 = w64 (hmem h1) slab object_size;
            m2 = w64 m1 (slab + 24) 0;
            payload_start = (slab + SLAB_HEADER + 15) div 16 * 16;
            available_space = 4096 - (payload_start - slab);
            capacity = available_space div unat object_size;
            m3 = w64 m2 (slab + 8) (of_nat capacity);
            m4 = w64 m3 (slab + 16) (of_nat payload_start);
            m5 = slab_thread payload_start (unat object_size) (capacity - 1) m4
        in (slab, h1\<lparr>hmem := m5\<rparr>))"

text \<open>The search for a slab page with free objects: \<open>Some 0\<close> when the list has none.\<close>

partial_function (option) find_slab :: "mem \<Rightarrow> nat \<Rightarrow> nat option" where
  "find_slab m slab =
     (if slab = 0 then Some 0
      else if r64 m (slab + 8) \<noteq> 0 then Some slab
      else find_slab m (unat (r64 m (slab + 24))))"

subsection \<open>Allocation\<close>

definition bucket_for :: "u64 \<Rightarrow> nat option" where
  "bucket_for sz = find (\<lambda>i. bucket_sizes ! i \<ge> unat sz) [0..<NUM_SLAB_BUCKETS]"

definition slab_pop :: "nat \<Rightarrow> nat \<Rightarrow> heap \<Rightarrow> nat \<times> heap" where
  "slab_pop i slab h =
     (let obj = unat (r64 (hmem h) (slab + 16));
          m1 = w64 (hmem h) (slab + 16) (r64 (hmem h) obj);
          m2 = w64 m1 (slab + 8) (r64 m1 (slab + 8) - 1)
      in (obj, h\<lparr>hmem := m2, used_memory := used_memory h + bucket_object_size h i\<rparr>))"

definition kmalloc_small :: "nat \<Rightarrow> (pmm \<Rightarrow> pmm) \<Rightarrow> nat \<Rightarrow> heap \<Rightarrow> (nat \<times> heap) option" where
  "kmalloc_small hhdm oom i h =
     (case find_slab (hmem h) (bucket_slabs h i) of
        None \<Rightarrow> None
      | Some slab \<Rightarrow>
          if slab \<noteq> 0 then Some (slab_pop i slab h)
          else
            let (slab, h1) = create_slab_page hhdm oom (bucket_object_size h i) h in
            if slab = 0 then Some (0, h1)
            else Some (slab_pop i slab
                   (h1\<lparr>hmem := w64 (hmem h1) (slab + 24) (of_nat (bucket_slabs h1 i)),
                       bucket_slabs := (bucket_slabs h1)(i := slab)\<rparr>)))"

definition kmalloc_large :: "nat \<Rightarrow> (pmm \<Rightarrow> pmm) \<Rightarrow> u64 \<Rightarrow> heap \<Rightarrow> (nat \<times> heap) option" where
  "kmalloc_large hhdm oom sz h =
     (let total_needed = sz + of_nat LARGE_HEADER;
          pages_needed = (total_needed + PAGE_SIZE - 1) div PAGE_SIZE
      in case pmm_alloc_continuous oom pages_needed (hpmm h) of
           None \<Rightarrow> None
         | Some (phys, s) \<Rightarrow>
             if phys = 0 then Some (0, h\<lparr>hpmm := s\<rparr>)
             else
               let header = unat phys + hhdm;
                   m = w64 (w64 (w32 (hmem h) header LARGE_ALLOC_MAGIC) (header + 8) pages_needed)
                         (header + 16) sz
               in Some (header + LARGE_HEADER,
                        h\<lparr>hpmm := s, hmem := m,
                          used_memory := used_memory h + pages_needed * PAGE_SIZE\<rparr>))"

definition kmalloc :: "nat \<Rightarrow> (pmm \<Rightarrow> pmm) \<Rightarrow> u64 \<Rightarrow> heap \<Rightarrow> (nat \<times> heap) option" where
  "kmalloc hhdm oom sz h =
     (if sz = 0 then Some (0, h)
      else if sz \<le> 2048 then
        (case bucket_for sz of
           Some i \<Rightarrow> kmalloc_small hhdm oom i h
         | None \<Rightarrow> kmalloc_large hhdm oom sz h)
      else kmalloc_large hhdm oom sz h)"

definition kzalloc :: "nat \<Rightarrow> (pmm \<Rightarrow> pmm) \<Rightarrow> u64 \<Rightarrow> heap \<Rightarrow> (nat \<times> heap) option" where
  "kzalloc hhdm oom sz h =
     map_option (\<lambda>(ptr, h1). if ptr \<noteq> 0 then (ptr, h1\<lparr>hmem := memset ptr 0 (unat sz) (hmem h1)\<rparr>)
                             else (ptr, h1)) (kmalloc hhdm oom sz h)"

subsection \<open>Release\<close>

definition is_large :: "mem \<Rightarrow> nat \<Rightarrow> bool" where
  "is_large m ptr = (let page_base = ptr div 4096 * 4096
     in ptr = page_base + LARGE_HEADER \<and> r32 m page_base = LARGE_ALLOC_MAGIC)"

definition kfree :: "nat \<Rightarrow> nat \<Rightarrow> heap \<Rightarrow> heap option" where
  "kfree hhdm ptr h =
     (if ptr = 0 then Some h
      else
        let page_base = ptr div 4096 * 4096 in
        if is_large (hmem h) ptr then
          let pages = r64 (hmem h) (page_base + 8);
              h1 = h\<lparr>used_memory := used_memory h - pages * PAGE_SIZE\<rparr>
          in map_option (\<lambda>order. h1\<lparr>hpmm := pmm_free_pages (of_nat (page_base - hhdm)) order (hpmm h1)\<rparr>)
               (order_for pages)
        else
          let m1 = w64 (hmem h) ptr (r64 (hmem h) (page_base + 16));
              m2 = w64 m1 (page_base + 16) (of_nat ptr);
              m3 = w64 m2 (page_base + 8) (r64 m2 (page_base + 8) + 1);
              os = r64 m3 page_base
          in Some (h\<lparr>hmem := m3,
                     used_memory := (if used_memory h \<ge> os then used_memory h - os else used_memory h)\<rparr>))"

definition krealloc :: "nat \<Rightarrow> (pmm \<Rightarrow> pmm) \<Rightarrow> nat \<Rightarrow> u64 \<Rightarrow> heap \<Rightarrow> (nat \<times> heap) option" where
  "krealloc hhdm oom ptr new_size h =
     (if ptr = 0 then kmalloc hhdm oom new_size h
      else if new_size = 0 then map_option (Pair 0) (kfree hhdm ptr h)
      else
        case kmalloc hhdm oom new_size h of
          None \<Rightarrow> None
        | Some (new_ptr, h1) \<Rightarrow>
            if new_ptr = 0 then Some (0, h1)
            else
              let page_base = ptr div 4096 * 4096;
                  old_size = (if is_large (hmem h1) ptr then r64 (hmem h1) (page_base + 16)
                              else r64 (hmem h1) page_base);
                  copy_size = (if new_size < old_size then new_size else old_size);
                  h2 = h1\<lparr>hmem := memcpy new_ptr ptr (unat copy_size) (hmem h1)\<rparr>
              in map_option (Pair new_ptr) (kfree hhdm ptr h2))"

subsection \<open>The heap invariant\<close>

text \<open>
  \<open>W\<close> maps the first page of every block the heap owns to what it holds: a slab page of bucket \<open>i\<close>
  with its free objects in list order, or a large allocation of order \<open>k\<close> with its page count and
  size. \<open>SL i\<close> is the slab list of bucket \<open>i\<close>, \<open>A\<close> the blocks that others have allocated.
\<close>

datatype owner = Slab nat "nat list" | Large nat u64 u64

fun owner_order :: "owner \<Rightarrow> nat" where
  "owner_order (Slab i fl) = 0"
| "owner_order (Large k n sz) = k"

definition bsize :: "nat \<Rightarrow> nat" where
  "bsize i = bucket_sizes ! i"

definition base :: "nat \<Rightarrow> nat \<Rightarrow> nat" where
  "base hhdm p = p * 4096 + hhdm"

definition slots :: "nat \<Rightarrow> nat \<Rightarrow> nat set" where
  "slots b sz = {b + 32 + j * sz |j. j < 4064 div sz}"

fun chain :: "mem \<Rightarrow> nat \<Rightarrow> nat list \<Rightarrow> bool" where
  "chain m a [] \<longleftrightarrow> r64 m a = 0"
| "chain m a (x # xs) \<longleftrightarrow> r64 m a = of_nat x \<and> chain m x xs"

fun owner_ok :: "mem \<Rightarrow> nat \<Rightarrow> nat \<Rightarrow> owner \<Rightarrow> bool" where
  "owner_ok m hhdm p (Slab i fl) \<longleftrightarrow> i < NUM_SLAB_BUCKETS \<and>
     r64 m (base hhdm p) = of_nat (bsize i) \<and> r64 m (base hhdm p + 8) = of_nat (length fl) \<and>
     chain m (base hhdm p + 16) fl \<and> distinct fl \<and> set fl \<subseteq> slots (base hhdm p) (bsize i)"
| "owner_ok m hhdm p (Large k n sz) \<longleftrightarrow> r32 m (base hhdm p) = LARGE_ALLOC_MAGIC \<and>
     r64 m (base hhdm p + 8) = n \<and> r64 m (base hhdm p + 16) = sz \<and> order_for n = Some k \<and>
     0 < unat sz \<and> 32 + unat sz \<le> 2 ^ k * 4096"

fun meta :: "nat \<Rightarrow> nat \<Rightarrow> owner \<Rightarrow> nat set" where
  "meta hhdm p (Slab i fl) = {base hhdm p..<base hhdm p + 32} \<union> (\<Union>x \<in> set fl. {x..<x + 8})"
| "meta hhdm p (Large k n sz) = {base hhdm p..<base hhdm p + 32}"

fun slab_list :: "mem \<Rightarrow> nat \<Rightarrow> nat \<Rightarrow> nat list \<Rightarrow> bool" where
  "slab_list m hhdm ptr [] \<longleftrightarrow> ptr = 0"
| "slab_list m hhdm ptr (p # ps) \<longleftrightarrow>
     ptr = base hhdm p \<and> slab_list m hhdm (unat (r64 m (base hhdm p + 24))) ps"

definition blocks_of :: "(nat \<rightharpoonup> owner) \<Rightarrow> (nat \<times> nat) set" where
  "blocks_of W = {(p, owner_order w) |p w. W p = Some w}"

definition owners_ok :: "mem \<Rightarrow> nat \<Rightarrow> (nat \<rightharpoonup> owner) \<Rightarrow> bool" where
  "owners_ok m hhdm W \<longleftrightarrow> (\<forall>p w. W p = Some w \<longrightarrow> owner_ok m hhdm p w)"

definition lists_ok :: "mem \<Rightarrow> nat \<Rightarrow> (nat \<Rightarrow> nat) \<Rightarrow> (nat \<Rightarrow> nat list) \<Rightarrow> (nat \<rightharpoonup> owner) \<Rightarrow> bool" where
  "lists_ok m hhdm heads SL W \<longleftrightarrow> (\<forall>i < NUM_SLAB_BUCKETS. slab_list m hhdm (heads i) (SL i) \<and>
     distinct (SL i) \<and> (\<forall>p. p \<in> set (SL i) \<longleftrightarrow> (\<exists>fl. W p = Some (Slab i fl))))"

definition heap_inv :: "nat \<Rightarrow> heap \<Rightarrow> (nat \<Rightarrow> nat list) \<Rightarrow> (nat \<rightharpoonup> owner) \<Rightarrow> (nat \<times> nat) set \<Rightarrow> bool" where
  "heap_inv hhdm h SL W A \<longleftrightarrow> 4096 dvd hhdm \<and> hhdm + 4096 * total_phys_pages (hpmm h) \<le> 2 ^ 64 \<and>
     (\<forall>i < NUM_SLAB_BUCKETS. bucket_object_size h i = of_nat (bsize i)) \<and>
     lists_ok (hmem h) hhdm (bucket_slabs h) SL W \<and> owners_ok (hmem h) hhdm W \<and>
     pmm_ok (hpmm h) (A \<union> blocks_of W) \<and> A \<inter> blocks_of W = {}"

text \<open>The objects in use, as address and length.\<close>

fun objs :: "nat \<Rightarrow> nat \<Rightarrow> owner \<Rightarrow> (nat \<times> nat) set" where
  "objs hhdm p (Slab i fl) = (\<lambda>x. (x, bsize i)) ` (slots (base hhdm p) (bsize i) - set fl)"
| "objs hhdm p (Large k n sz) = {(base hhdm p + 32, unat sz)}"

definition live :: "nat \<Rightarrow> (nat \<rightharpoonup> owner) \<Rightarrow> (nat \<times> nat) set" where
  "live hhdm W = {ob. \<exists>p w. W p = Some w \<and> ob \<in> objs hhdm p w}"

subsubsection \<open>Slots of a slab page\<close>

lemma bsize_cases: "i < NUM_SLAB_BUCKETS \<Longrightarrow> bsize i \<in> {16, 32, 64, 128, 256, 512, 1024, 2048}"
  by (auto simp: bsize_def bucket_sizes_def nth_Cons' numeral_eq_Suc less_Suc_eq)

lemma bsize_bounds: "i < NUM_SLAB_BUCKETS \<Longrightarrow> 16 \<le> bsize i \<and> bsize i \<le> 2048 \<and> 16 dvd bsize i"
  using bsize_cases [of i] by auto

lemma slot_bounds:
  assumes "x \<in> slots b sz"
  shows "b + 32 \<le> x" and "x + sz \<le> b + 4096"
proof -
  obtain j where j: "x = b + 32 + j * sz" "j < 4064 div sz" using assms by (auto simp: slots_def)
  have "Suc j * sz \<le> 4064 div sz * sz" using j(2) by (intro mult_le_mono1) simp
  also have "\<dots> \<le> 4064" by simp
  finally show "b + 32 \<le> x" and "x + sz \<le> b + 4096" using j(1) by simp_all
qed

lemma slots_apart:
  assumes "x \<in> slots b sz" and "y \<in> slots b sz" and "x \<noteq> y"
  shows "x + sz \<le> y \<or> y + sz \<le> x"
proof -
  obtain i j where x: "x = b + 32 + i * sz" and y: "y = b + 32 + j * sz"
    using assms(1,2) by (auto simp: slots_def)
  with assms(3) have "Suc i \<le> j \<or> Suc j \<le> i" by auto
  then have "Suc i * sz \<le> j * sz \<or> Suc j * sz \<le> i * sz" using mult_le_mono1 by blast
  then show ?thesis by (auto simp: x y)
qed

lemma meta_region:
  assumes "owner_ok m hhdm p w"
  shows "meta hhdm p w \<subseteq> region hhdm p (owner_order w)"
proof (cases w)
  case (Slab i fl)
  have "x + 8 \<le> base hhdm p + 4096 \<and> base hhdm p \<le> x" if "x \<in> set fl" for x
    using assms that bsize_bounds [of i] slot_bounds [of x "base hhdm p" "bsize i"] by (auto simp: Slab)
  then show ?thesis by (fastforce simp: Slab region_def base_def)
next
  case (Large k n sz)
  then show ?thesis using assms by (auto simp: region_def base_def add_mult_distrib)
qed

subsubsection \<open>Frame rules\<close>

lemma chain_cong:
  assumes "chain m a xs" and "r64 m' a' = r64 m a" and "\<And>x. x \<in> set xs \<Longrightarrow> r64 m' x = r64 m x"
  shows "chain m' a' xs"
  using assms by (induction xs arbitrary: a a') auto

lemma owner_ok_cong:
  assumes "owner_ok m hhdm p w" and "\<And>x. x \<in> meta hhdm p w \<Longrightarrow> m' x = m x"
  shows "owner_ok m' hhdm p w"
proof (cases w)
  case (Slab i fl)
  have hd: "r64 m' (base hhdm p + d) = r64 m (base hhdm p + d)" if "d + 8 \<le> 32" for d
    by (rule r64_cong) (use assms(2) that in \<open>auto simp: Slab\<close>)
  have "r64 m' x = r64 m x" if "x \<in> set fl" for x
    by (rule r64_cong) (use assms(2) that in \<open>auto simp: Slab\<close>)
  then show ?thesis
    using assms(1) hd [of 0] hd [of 8] hd [of 16] chain_cong [of m "base hhdm p + 16" fl m' "base hhdm p + 16"]
    by (auto simp: Slab)
next
  case (Large k n sz)
  have hd: "r64 m' (base hhdm p + d) = r64 m (base hhdm p + d)" if "d + 8 \<le> 32" for d
    by (rule r64_cong) (use assms(2) that in \<open>auto simp: Large\<close>)
  have "r32 m' (base hhdm p) = r32 m (base hhdm p)"
    by (rule r32_cong) (use assms(2) in \<open>auto simp: Large\<close>)
  then show ?thesis using assms(1) hd [of 8] hd [of 16] by (simp add: Large)
qed

lemma slab_list_cong:
  assumes "slab_list m hhdm ptr ps"
    and "\<And>p. p \<in> set ps \<Longrightarrow> r64 m' (base hhdm p + 24) = r64 m (base hhdm p + 24)"
  shows "slab_list m' hhdm ptr ps"
  using assms by (induction ps arbitrary: ptr) auto

lemma lists_ok_cong:
  assumes "lists_ok m hhdm heads SL W"
    and "\<And>p i fl. W p = Some (Slab i fl) \<Longrightarrow> i < NUM_SLAB_BUCKETS \<Longrightarrow>
           r64 m' (base hhdm p + 24) = r64 m (base hhdm p + 24)"
    and "\<And>p i. (\<exists>fl. W' p = Some (Slab i fl)) \<longleftrightarrow> (\<exists>fl. W p = Some (Slab i fl))"
  shows "lists_ok m' hhdm heads SL W'"
  unfolding lists_ok_def
proof (intro allI impI)
  fix i :: nat
  assume "i < 8"
  then have l: "slab_list m hhdm (heads i) (SL i)" "distinct (SL i)"
    "\<And>p. p \<in> set (SL i) \<longleftrightarrow> (\<exists>fl. W p = Some (Slab i fl))"
    using assms(1) by (auto simp: lists_ok_def)
  have "slab_list m' hhdm (heads i) (SL i)"
    by (rule slab_list_cong [OF l(1)]) (use l(3) assms(2) \<open>i < 8\<close> in blast)
  with l assms(3) show "slab_list m' hhdm (heads i) (SL i) \<and> distinct (SL i) \<and>
      (\<forall>p. p \<in> set (SL i) \<longleftrightarrow> (\<exists>fl. W' p = Some (Slab i fl)))" by blast
qed

text \<open>Blocks of the heap lie apart, so a write inside one leaves the others alone.\<close>

lemma owner_regions_apart:
  assumes "pmm_ok s (A \<union> blocks_of W)" and "W p = Some w" and "W q = Some v" and "p \<noteq> q"
  shows "region hhdm p (owner_order w) \<inter> region hhdm q (owner_order v) = {}"
proof -
  have "(p, owner_order w) \<in> A \<union> blocks_of W" "(q, owner_order v) \<in> A \<union> blocks_of W"
    using assms(2,3) by (auto simp: blocks_of_def)
  then show ?thesis using pg.regions_apart [OF assms(1)] assms(4) by blast
qed

lemma heap_invD:
  assumes "heap_inv hhdm h SL W A"
  shows "4096 dvd hhdm" "hhdm + 4096 * total_phys_pages (hpmm h) \<le> 2 ^ 64"
    "\<And>i. i < NUM_SLAB_BUCKETS \<Longrightarrow> bucket_object_size h i = of_nat (bsize i)"
    "lists_ok (hmem h) hhdm (bucket_slabs h) SL W" "owners_ok (hmem h) hhdm W"
    "pmm_ok (hpmm h) (A \<union> blocks_of W)" "A \<inter> blocks_of W = {}"
  using assms by (auto simp: heap_inv_def)

lemma base_bounds:
  assumes i: "heap_inv hhdm h SL W A" and w: "W p = Some w"
  shows "0 < base hhdm p" and "base hhdm p + 2 ^ owner_order w * 4096 \<le> 2 ^ 64"
proof -
  have b: "(p, owner_order w) \<in> A \<union> blocks_of W" using w by (auto simp: blocks_of_def)
  note r = pg.in_range [OF heap_invD(6) [OF i] b]
  then show "0 < base hhdm p" by (simp add: base_def)
  have "base hhdm p + 2 ^ owner_order w * 4096 = 4096 * (p + 2 ^ owner_order w) + hhdm"
    by (simp add: base_def algebra_simps)
  also have "\<dots> \<le> 4096 * total_phys_pages (hpmm h) + hhdm" using r by simp
  finally show "base hhdm p + 2 ^ owner_order w * 4096 \<le> 2 ^ 64" using heap_invD(2) [OF i] by simp
qed

text \<open>Replacing the contents of one slab page.\<close>

lemma heap_upd_slab:
  assumes i: "heap_inv hhdm h SL W A" and w: "W p = Some (Slab b fl)"
    and ok: "owner_ok m' hhdm p (Slab b fl')"
    and fr: "\<And>x. x \<notin> region hhdm p 0 \<Longrightarrow> m' x = hmem h x"
    and nx: "r64 m' (base hhdm p + 24) = r64 (hmem h) (base hhdm p + 24)"
  shows "heap_inv hhdm (h\<lparr>hmem := m', used_memory := u\<rparr>) SL (W(p \<mapsto> Slab b fl')) A"
proof -
  note d = heap_invD [OF i]
  have ap: "region hhdm p 0 \<inter> region hhdm q (owner_order v) = {}" if "W q = Some v" "q \<noteq> p" for q v
    using owner_regions_apart [OF d(6) w that(1)] that(2) by simp
  have same: "m' x = hmem h x" if "W q = Some v" "q \<noteq> p" "x \<in> region hhdm q (owner_order v)" for q v x
    using ap [OF that(1,2)] that(3) fr by blast
  have "owners_ok m' hhdm (W(p \<mapsto> Slab b fl'))"
    unfolding owners_ok_def
  proof (intro allI impI)
    fix q v assume v: "(W(p \<mapsto> Slab b fl')) q = Some v"
    show "owner_ok m' hhdm q v"
    proof (cases "q = p")
      case False
      with v have q: "W q = Some v" by simp
      then have o: "owner_ok (hmem h) hhdm q v" using d(5) by (auto simp: owners_ok_def)
      from o show ?thesis by (rule owner_ok_cong) (use meta_region [OF o] same [OF q False] in blast)
    qed (use v ok in simp)
  qed
  moreover have "lists_ok m' hhdm (bucket_slabs h) SL (W(p \<mapsto> Slab b fl'))"
  proof (rule lists_ok_cong [OF d(4)])
    fix q j gl assume q: "W q = Some (Slab j gl)"
    show "r64 m' (base hhdm q + 24) = r64 (hmem h) (base hhdm q + 24)"
    proof (cases "q = p")
      case False
      show ?thesis by (rule r64_cong) (use same [OF q False] in \<open>auto simp: region_def base_def\<close>)
    qed (simp add: nx)
  qed (use w in auto)
  moreover have "blocks_of (W(p \<mapsto> Slab b fl')) = blocks_of W"
  proof -
    have "blocks_of V = (\<lambda>q. (q, owner_order (the (V q)))) ` dom V" for V
      by (force simp: blocks_of_def image_iff)
    then show ?thesis using w by (auto simp: dom_def image_iff)
  qed
  ultimately show ?thesis using d by (simp add: heap_inv_def)
qed

subsubsection \<open>Taking and returning an object\<close>

lemma owner_okD: "heap_inv hhdm h SL W A \<Longrightarrow> W p = Some w \<Longrightarrow> owner_ok (hmem h) hhdm p w"
  by (auto simp: heap_inv_def owners_ok_def)

lemma slot_addr:
  assumes i: "heap_inv hhdm h SL W A" and w: "W p = Some (Slab b fl)" and b: "b < NUM_SLAB_BUCKETS"
    and x: "x \<in> slots (base hhdm p) (bsize b)"
  shows "unat (of_nat x :: u64) = x" and "0 < x" and "x div 4096 * 4096 = base hhdm p" and "16 dvd x"
proof -
  note bd = base_bounds [OF i w] and sl = slot_bounds [OF x] and bs = bsize_bounds [OF b]
  show "unat (of_nat x :: u64) = x" by (rule unat_of_nat_lt) (use bd sl bs in simp)
  show "0 < x" using sl by simp
  have al: "4096 dvd base hhdm p" using heap_invD(1) [OF i] by (simp add: base_def)
  then obtain c where c: "base hhdm p = 4096 * c" by (rule dvdE)
  show "x div 4096 * 4096 = base hhdm p"
    using sl bs c by (simp add: div_nat_eqI mult.commute)
  obtain j where "x = base hhdm p + 32 + j * bsize b" using x by (auto simp: slots_def)
  moreover have "16 dvd base hhdm p + 32" unfolding c using dvd_triv_left [of 16 "256 * c + 2"] by simp
  ultimately show "16 dvd x" using bs by simp
qed

lemma slab_pop_ok:
  assumes i: "heap_inv hhdm h SL W A" and w: "W p = Some (Slab b (x # xs))"
    and h': "slab_pop b (base hhdm p) h = (y, h')"
  shows "y = x" and "heap_inv hhdm h' SL (W(p \<mapsto> Slab b xs)) A"
    and "\<And>a. a \<notin> {base hhdm p..<base hhdm p + 32} \<Longrightarrow> hmem h' a = hmem h a"
proof -
  let ?b = "base hhdm p" and ?m = "hmem h"
  have o: "owner_ok ?m hhdm p (Slab b (x # xs))" by (rule owner_okD [OF i w])
  then have b: "b < 8" and x: "x \<in> slots ?b (bsize b)" and xs: "\<And>z. z \<in> set xs \<Longrightarrow> z \<in> slots ?b (bsize b)"
    by auto
  let ?m1 = "w64 ?m (?b + 16) (r64 ?m x)"
  let ?m2 = "w64 ?m1 (?b + 8) (r64 ?m1 (?b + 8) - 1)"
  have hh: "y = unat (r64 ?m (?b + 16))"
    "h' = h\<lparr>hmem := w64 (w64 ?m (?b + 16) (r64 ?m y)) (?b + 8) (r64 (w64 ?m (?b + 16) (r64 ?m y)) (?b + 8) - 1),
            used_memory := used_memory h + bucket_object_size h b\<rparr>"
    using h' by (auto simp: slab_pop_def Let_def)
  show yx: "y = x" using o slot_addr(1) [OF i w b x] by (simp add: hh(1))
  have r: "r64 ?m2 (?b + 16) = r64 ?m x" "r64 ?m2 (?b + 8) = r64 ?m (?b + 8) - 1"
    "r64 ?m2 ?b = r64 ?m ?b" "r64 ?m2 (?b + 24) = r64 ?m (?b + 24)"
    by (simp_all add: r64_w64_other)
  have "chain ?m2 (?b + 16) xs"
  proof (rule chain_cong)
    show "chain ?m x xs" using o by simp
    show "r64 ?m2 z = r64 ?m z" if "z \<in> set xs" for z
      using slot_bounds(1) [OF xs [OF that]] by (simp add: r64_w64_other)
  qed (rule r(1))
  then have ok: "owner_ok ?m2 hhdm p (Slab b xs)" using o r by simp
  have out: "?m2 a = ?m a" if "a \<notin> {?b..<?b + 32}" for a using that by (auto simp: w64_def)
  have "a \<in> region hhdm p 0" if "a \<in> {?b..<?b + 32}" for a using that by (auto simp: region_def base_def)
  then show "heap_inv hhdm h' SL (W(p \<mapsto> Slab b xs)) A"
    unfolding hh(2) yx by (intro heap_upd_slab [OF i w ok] r(4) out) auto
  show "\<And>a. a \<notin> {?b..<?b + 32} \<Longrightarrow> hmem h' a = ?m a" unfolding hh(2) yx using out by simp
qed

text \<open>Pushing an object back, the slab half of \<open>kfree\<close>.\<close>

lemma slab_push_ok:
  assumes i: "heap_inv hhdm h SL W A" and w: "W p = Some (Slab b fl)"
    and x: "x \<in> slots (base hhdm p) (bsize b)" "x \<notin> set fl" and h': "kfree hhdm x h = Some h'"
  shows "heap_inv hhdm h' SL (W(p \<mapsto> Slab b (x # fl))) A"
    and "\<And>a. a \<notin> {base hhdm p..<base hhdm p + 32} \<union> {x..<x + 8} \<Longrightarrow> hmem h' a = hmem h a"
proof -
  let ?b = "base hhdm p" and ?m = "hmem h"
  have o: "owner_ok ?m hhdm p (Slab b fl)" by (rule owner_okD [OF i w])
  then have b: "b < 8" and fl: "\<And>z. z \<in> set fl \<Longrightarrow> z \<in> slots ?b (bsize b)" by auto
  note xa = slot_addr [OF i w b x(1)] and bs = bsize_bounds [OF b]
  have "r32 ?m ?b = ucast (r64 ?m ?b)"
    by (rule bit_word_eqI) (auto simp: r64_def bit_simps)
  then have "r32 ?m ?b \<noteq> LARGE_ALLOC_MAGIC"
    using o bsize_cases [OF b] by auto
  then have nl: "\<not> is_large ?m x" using xa(3) by (simp add: is_large_def Let_def)
  define m1 where "m1 = w64 ?m x (r64 ?m (?b + 16))"
  define m2 where "m2 = w64 m1 (?b + 16) (of_nat x)"
  define m3 where "m3 = w64 m2 (?b + 8) (r64 m2 (?b + 8) + 1)"
  obtain u where hh: "h' = h\<lparr>hmem := m3, used_memory := u\<rparr>"
    using h' xa(2,3) nl by (auto simp: kfree_def Let_def m1_def m2_def m3_def)
  note sb = slot_bounds [OF x(1)]
  have r: "r64 m3 x = r64 ?m (?b + 16)" "r64 m3 (?b + 16) = of_nat x"
    "r64 m3 (?b + 8) = r64 ?m (?b + 8) + 1" "r64 m3 ?b = r64 ?m ?b" "r64 m3 (?b + 24) = r64 ?m (?b + 24)"
    using sb by (simp_all add: m1_def m2_def m3_def r64_w64_other)
  have fr: "r64 m3 z = r64 ?m z" if "z \<in> set fl" for z
  proof -
    have "x + bsize b \<le> z \<or> z + bsize b \<le> x" using slots_apart [OF x(1) fl [OF that]] x(2) that by auto
    then show ?thesis using slot_bounds(1) [OF fl [OF that]] sb bs
      by (auto simp: m1_def m2_def m3_def r64_w64_other)
  qed
  have "chain ?m (?b + 16) fl" using o by simp
  then have "chain m3 x fl" using r(1) fr by (rule chain_cong)
  then have ok: "owner_ok m3 hhdm p (Slab b (x # fl))" using o r x by simp
  have out: "m3 a = ?m a" if "a \<notin> {?b..<?b + 32} \<union> {x..<x + 8}" for a
    using that by (auto simp: m1_def m2_def m3_def w64_def)
  have "a \<in> region hhdm p 0" if "a \<in> {?b..<?b + 32} \<union> {x..<x + 8}" for a
    using that sb bs by (auto simp: region_def base_def)
  then show "heap_inv hhdm h' SL (W(p \<mapsto> Slab b (x # fl))) A"
    unfolding hh by (intro heap_upd_slab [OF i w ok] r(5) out) auto
  show "\<And>a. a \<notin> {?b..<?b + 32} \<union> {x..<x + 8} \<Longrightarrow> hmem h' a = ?m a" unfolding hh using out by simp
qed

subsubsection \<open>New blocks\<close>

lemma slab_thread_out:
  "a < cur \<or> cur + n * sz + 8 \<le> a \<Longrightarrow> slab_thread cur sz n m a = m a"
  by (induction n arbitrary: cur m) (auto simp: w64_def)

lemma slab_thread_chain:
  assumes "8 \<le> sz"
  shows "r64 (slab_thread cur sz n m) a = of_nat cur \<Longrightarrow>
    chain (slab_thread cur sz n m) a (map (\<lambda>j. cur + j * sz) [0..<Suc n])"
proof (induction n arbitrary: cur m a)
  case (Suc n)
  let ?m = "w64 m cur (of_nat (cur + sz))"
  have "r64 (slab_thread (cur + sz) sz n ?m) cur = r64 ?m cur"
    by (rule r64_cong) (rule slab_thread_out, use assms in auto)
  then have "chain (slab_thread (cur + sz) sz n ?m) cur (map (\<lambda>j. cur + sz + j * sz) [0..<Suc n])"
    by (intro Suc.IH) simp
  moreover have "map (\<lambda>j. cur + j * sz) [0..<Suc (Suc n)] = cur # map (\<lambda>j. cur + sz + j * sz) [0..<Suc n]"
    by (subst upt_conv_Cons) (simp_all add: map_upt_shift add.assoc del: upt_Suc)
  ultimately show ?case using Suc.prems by (simp del: upt_Suc)
qed simp

lemma set_slots: "set (map (\<lambda>j. b + 32 + j * sz) [0..<4064 div sz]) = slots b sz"
  by (auto simp: slots_def)

lemma new_slab_owner:
  assumes i: "i < NUM_SLAB_BUCKETS" and b: "4096 dvd hhdm"
    and m': "m' = slab_thread (base hhdm p + 32) (bsize i) (4064 div bsize i - 1)
      (w64 (w64 (w64 (w64 m (base hhdm p) (of_nat (bsize i))) (base hhdm p + 24) v) (base hhdm p + 8)
        (of_nat (4064 div bsize i))) (base hhdm p + 16) (of_nat (base hhdm p + 32)))"
  shows "owner_ok m' hhdm p (Slab i (map (\<lambda>j. base hhdm p + 32 + j * bsize i) [0..<4064 div bsize i]))"
    and "\<And>a. a \<notin> region hhdm p 0 \<Longrightarrow> m' a = m a" and "r64 m' (base hhdm p + 24) = v"
proof -
  let ?b = "base hhdm p" and ?s = "bsize i" and ?c = "4064 div bsize i"
  note bs = bsize_bounds [OF i]
  have c: "Suc (?c - 1) = ?c" using bsize_cases [OF i] by auto
  have top: "(?c - 1) * ?s + 8 \<le> 4064" using bsize_cases [OF i] by auto
  define m0 where "m0 = w64 (w64 (w64 (w64 m ?b (of_nat ?s)) (?b + 24) v) (?b + 8) (of_nat ?c)) (?b + 16) (of_nat (?b + 32))"
  have m: "m' = slab_thread (?b + 32) ?s (?c - 1) m0" unfolding m' m0_def by simp
  have cell: "r64 m' (?b + d) = r64 m0 (?b + d)" if "d + 8 \<le> 32" for d
    unfolding m by (rule r64_cong) (rule slab_thread_out, use that in auto)
  have "r64 m' ?b = of_nat ?s" "r64 m' (?b + 8) = of_nat ?c" "r64 m' (?b + 16) = of_nat (?b + 32)"
    "r64 m' (?b + 24) = v"
    using cell [of 0] cell [of 8] cell [of 16] cell [of 24] by (simp_all add: m0_def r64_w64_other)
  moreover from this(3) have "chain m' (?b + 16) (map (\<lambda>j. ?b + 32 + j * ?s) [0..<?c])"
    using slab_thread_chain [of ?s "?b + 32" "?c - 1" m0 "?b + 16"] bs unfolding m c by simp
  moreover have "distinct (map (\<lambda>j. ?b + 32 + j * ?s) [0..<?c])"
    using bs by (auto simp: distinct_map inj_on_def)
  ultimately show "owner_ok m' hhdm p (Slab i (map (\<lambda>j. ?b + 32 + j * ?s) [0..<?c]))"
    and "r64 m' (?b + 24) = v"
    using i set_slots [of ?b ?s] by simp_all
  fix a assume "a \<notin> region hhdm p 0"
  then have "a < ?b \<or> ?b + 4096 \<le> a" by (auto simp: region_def base_def)
  then show "m' a = m a" unfolding m using top by (subst slab_thread_out) (auto simp: m0_def)
qed

lemma owners_add:
  assumes i: "heap_inv hhdm h SL W A" and k: "owner_order w = k"
    and s': "pmm_ok s' (insert (p, k) (A \<union> blocks_of W))" and new: "(p, k) \<notin> A \<union> blocks_of W"
    and ok: "owner_ok m' hhdm p w" and fr: "\<And>x. x \<notin> region hhdm p k \<Longrightarrow> m' x = hmem h x"
  shows "W p = None" and "owners_ok m' hhdm (W(p \<mapsto> w))"
    and "blocks_of (W(p \<mapsto> w)) = insert (p, k) (blocks_of W)"
    and "\<And>q v x. W q = Some v \<Longrightarrow> x \<in> region hhdm q (owner_order v) \<Longrightarrow> m' x = hmem h x"
proof -
  have ap: "p \<noteq> q \<and> region hhdm p k \<inter> region hhdm q (owner_order v) = {}" if "W q = Some v" for q v
  proof -
    have q: "(q, owner_order v) \<in> A \<union> blocks_of W" using that by (auto simp: blocks_of_def)
    then have "region hhdm p k \<inter> region hhdm q (owner_order v) = {}"
      using pg.regions_apart [OF s', of p k q "owner_order v"] new by blast
    moreover have "p \<noteq> q"
      using pg.apart [OF s', of p k q "owner_order v" p] q new by auto
    ultimately show ?thesis by blast
  qed
  then show np: "W p = None" by (cases "W p") auto
  show same: "\<And>q v x. W q = Some v \<Longrightarrow> x \<in> region hhdm q (owner_order v) \<Longrightarrow> m' x = hmem h x"
    using ap fr by blast
  have "owner_ok m' hhdm q v" if "W q = Some v" for q v
    by (rule owner_ok_cong [OF owner_okD [OF i that]])
      (use meta_region [OF owner_okD [OF i that]] same [OF that] in blast)
  then show "owners_ok m' hhdm (W(p \<mapsto> w))" using ok by (auto simp: owners_ok_def)
  show "blocks_of (W(p \<mapsto> w)) = insert (p, k) (blocks_of W)"
    using np k by (auto simp: blocks_of_def)
qed

lemma heads_small:
  assumes i: "heap_inv hhdm h SL W A" and b: "b < NUM_SLAB_BUCKETS"
  shows "unat (of_nat (bucket_slabs h b) :: u64) = bucket_slabs h b"
proof (cases "SL b")
  case Nil
  then show ?thesis using heap_invD(4) [OF i] b by (auto simp: lists_ok_def)
next
  case (Cons p ps)
  then obtain fl where "bucket_slabs h b = base hhdm p" "W p = Some (Slab b fl)"
    using heap_invD(4) [OF i] b by (fastforce simp: lists_ok_def)
  with base_bounds(2) [OF i, of p "Slab b fl"] show ?thesis by (simp add: unat_of_nat_lt)
qed

lemma heap_add_slab:
  assumes i: "heap_inv hhdm h SL W A" and b: "b < NUM_SLAB_BUCKETS"
    and s': "pmm_ok s' (insert (p, 0) (A \<union> blocks_of W))" "total_phys_pages s' = total_phys_pages (hpmm h)"
    and new: "(p, 0) \<notin> A \<union> blocks_of W"
    and ok: "owner_ok m' hhdm p (Slab b fl)" and fr: "\<And>x. x \<notin> region hhdm p 0 \<Longrightarrow> m' x = hmem h x"
    and nx: "r64 m' (base hhdm p + 24) = of_nat (bucket_slabs h b)"
  shows "heap_inv hhdm (h\<lparr>hpmm := s', hmem := m', bucket_slabs := (bucket_slabs h)(b := base hhdm p)\<rparr>)
    (SL(b := p # SL b)) (W(p \<mapsto> Slab b fl)) A"
proof -
  note d = heap_invD [OF i]
  note a = owners_add [OF i _ s'(1) new ok fr, simplified]
  have "lists_ok m' hhdm ((bucket_slabs h)(b := base hhdm p)) (SL(b := p # SL b)) (W(p \<mapsto> Slab b fl))"
    unfolding lists_ok_def
  proof (intro allI impI)
    fix j :: nat
    assume j: "j < 8"
    then have l: "slab_list (hmem h) hhdm (bucket_slabs h j) (SL j)" "distinct (SL j)"
      "\<And>q. q \<in> set (SL j) \<longleftrightarrow> (\<exists>fl. W q = Some (Slab j fl))"
      using d(4) by (auto simp: lists_ok_def)
    have "slab_list m' hhdm (bucket_slabs h j) (SL j)"
    proof (rule slab_list_cong [OF l(1)])
      fix q assume "q \<in> set (SL j)"
      then obtain fl' where q: "W q = Some (Slab j fl')" using l(3) by blast
      show "r64 m' (base hhdm q + 24) = r64 (hmem h) (base hhdm q + 24)"
        by (rule r64_cong) (use a(4) [OF q] in \<open>auto simp: region_def base_def\<close>)
    qed
    with l a(1) nx heads_small [OF i j]
    show "slab_list m' hhdm (((bucket_slabs h)(b := base hhdm p)) j) ((SL(b := p # SL b)) j) \<and>
      distinct ((SL(b := p # SL b)) j) \<and>
      (\<forall>q. (q \<in> set ((SL(b := p # SL b)) j)) = (\<exists>fl'. (W(p \<mapsto> Slab b fl)) q = Some (Slab j fl')))"
      by auto
  qed
  then show ?thesis using d a(2,3) s' new by (auto simp: heap_inv_def)
qed

lemma find_slab_ok:
  assumes "slab_list m hhdm ptr ps" and "\<And>p. p \<in> set ps \<Longrightarrow> 0 < base hhdm p"
  shows "find_slab m ptr = Some 0 \<or>
    (\<exists>p \<in> set ps. find_slab m ptr = Some (base hhdm p) \<and> r64 m (base hhdm p + 8) \<noteq> 0)"
  using assms
proof (induction ps arbitrary: ptr)
  case Nil
  then show ?case by (simp add: find_slab.simps)
next
  case (Cons p ps)
  have ptr: "ptr = base hhdm p" "0 < base hhdm p" using Cons.prems by simp_all
  show ?case
  proof (cases "r64 m (base hhdm p + 8) = 0")
    case True
    have "find_slab m ptr = find_slab m (unat (r64 m (base hhdm p + 24)))"
      using ptr True by (subst find_slab.simps) simp
    with Cons show ?thesis by auto
  next
    case False
    then have "find_slab m ptr = Some (base hhdm p)" using ptr by (subst find_slab.simps) simp
    with False show ?thesis by simp
  qed
qed

subsubsection \<open>Objects in use\<close>

lemma objs_region:
  assumes "owner_ok m hhdm p w" and "(a, n) \<in> objs hhdm p w"
  shows "{a..<a + n} \<subseteq> region hhdm p (owner_order w)"
proof (cases w)
  case (Slab i fl)
  with assms slot_bounds [of a "base hhdm p" "bsize i"] show ?thesis
    by (auto simp: region_def base_def)
next
  case (Large k m sz)
  with assms show ?thesis by (auto simp: region_def base_def add_mult_distrib)
qed

lemma objs_meta:
  assumes "owner_ok m hhdm p w" and "(a, n) \<in> objs hhdm p w"
  shows "{a..<a + n} \<inter> meta hhdm p w = {}"
proof (cases w)
  case (Slab i fl)
  then have a: "a \<in> slots (base hhdm p) (bsize i)" "a \<notin> set fl" "n = bsize i" and i: "i < 8"
    using assms by auto
  have fr: "{a..<a + n} \<inter> {x..<x + 8} = {}" if "x \<in> set fl" for x
  proof -
    have "x \<in> slots (base hhdm p) (bsize i)" using assms(1) that by (auto simp: Slab)
    moreover have "a \<noteq> x" using a(2) that by auto
    ultimately show ?thesis using slots_apart [OF a(1), of x] a(3) bsize_bounds [OF i] by auto
  qed
  have "{a..<a + n} \<inter> {base hhdm p..<base hhdm p + 32} = {}" using slot_bounds(1) [OF a(1)] by auto
  with fr show ?thesis unfolding Slab meta.simps by blast
next
  case (Large k m sz)
  with assms show ?thesis by auto
qed

lemma objs_apart:
  assumes "owner_ok m hhdm p w" and "(a, n) \<in> objs hhdm p w" and "(c, l) \<in> objs hhdm p w"
    and "(a, n) \<noteq> (c, l)"
  shows "{a..<a + n} \<inter> {c..<c + l} = {}"
  using assms slots_apart [of a "base hhdm p" _ c] by (cases w) fastforce+

text \<open>Objects in use overlap neither each other nor the heap's own data.\<close>

lemma live_apart:
  assumes i: "heap_inv hhdm h SL W A" and "(a, n) \<in> live hhdm W" and "(c, l) \<in> live hhdm W"
    and "(a, n) \<noteq> (c, l)"
  shows "{a..<a + n} \<inter> {c..<c + l} = {}"
proof -
  obtain p w q v where w: "W p = Some w" "(a, n) \<in> objs hhdm p w"
    and v: "W q = Some v" "(c, l) \<in> objs hhdm q v" using assms(2,3) by (auto simp: live_def)
  show ?thesis
  proof (cases "p = q")
    case True
    with w v assms(4) objs_apart [OF owner_okD [OF i w(1)]] show ?thesis by auto
  next
    case False
    with owner_regions_apart [OF heap_invD(6) [OF i] w(1) v(1)]
      objs_region [OF owner_okD [OF i w(1)] w(2)] objs_region [OF owner_okD [OF i v(1)] v(2)]
    show ?thesis by blast
  qed
qed

lemma live_meta:
  assumes i: "heap_inv hhdm h SL W A" and "(a, n) \<in> live hhdm W" and v: "W q = Some v"
  shows "{a..<a + n} \<inter> meta hhdm q v = {}"
proof -
  obtain p w where w: "W p = Some w" "(a, n) \<in> objs hhdm p w" using assms(2) by (auto simp: live_def)
  show ?thesis
  proof (cases "p = q")
    case True
    with w v objs_meta [OF owner_okD [OF i w(1)] w(2)] show ?thesis by simp
  next
    case False
    with owner_regions_apart [OF heap_invD(6) [OF i] w(1) v]
      objs_region [OF owner_okD [OF i w(1)] w(2)] meta_region [OF owner_okD [OF i v]]
    show ?thesis by blast
  qed
qed

lemma live_split:
  "live hhdm V = (case V p of None \<Rightarrow> {} | Some v \<Rightarrow> objs hhdm p v) \<union> live hhdm (V(p := None))"
proof (cases "V p")
  case None
  then have "V(p := None) = V" by (rule fun_upd_idem)
  with None show ?thesis by simp
next
  case (Some v)
  have "ob \<in> live hhdm V \<longleftrightarrow> ob \<in> objs hhdm p v \<or> ob \<in> live hhdm (V(p := None))" for ob
  proof
    assume "ob \<in> live hhdm V"
    then obtain q w where "V q = Some w" "ob \<in> objs hhdm q w" by (auto simp: live_def)
    with Some show "ob \<in> objs hhdm p v \<or> ob \<in> live hhdm (V(p := None))"
      unfolding live_def by (cases "q = p") auto
  next
    assume "ob \<in> objs hhdm p v \<or> ob \<in> live hhdm (V(p := None))"
    with Some show "ob \<in> live hhdm V" unfolding live_def by (auto split: if_splits)
  qed
  with Some show ?thesis by auto
qed

lemma live_upd: "live hhdm (W(p \<mapsto> w)) = objs hhdm p w \<union> live hhdm (W(p := None))"
  using live_split [of hhdm "W(p \<mapsto> w)" p] by simp

lemma live_add:
  assumes "objs hhdm p w' = insert ob (case W p of None \<Rightarrow> {} | Some w \<Rightarrow> objs hhdm p w)"
  shows "live hhdm (W(p \<mapsto> w')) = insert ob (live hhdm W)"
  using live_upd [of hhdm W p w'] live_split [of hhdm W p] assms by simp

subsubsection \<open>Allocation\<close>

text \<open>
  What \<open>kmalloc\<close> promises: the search ends; on failure only the page allocator's out-of-memory handler
  has run; on success the heap is consistent with one more object of at least the requested size, and
  no byte of an object in use has changed.
\<close>

definition alloc_post :: "nat \<Rightarrow> (pmm \<Rightarrow> pmm) \<Rightarrow> heap \<Rightarrow> (nat \<rightharpoonup> owner) \<Rightarrow> (nat \<times> nat) set \<Rightarrow> nat \<Rightarrow> nat \<times> heap \<Rightarrow> bool" where
  "alloc_post hhdm oom h W A n r \<longleftrightarrow> (case r of (ptr, h') \<Rightarrow>
     if ptr = 0 then h' = h \<or> h' = h\<lparr>hpmm := oom (hpmm h)\<rparr>
     else 16 dvd ptr \<and> (\<exists>SL' W'. heap_inv hhdm h' SL' W' A \<and> (ptr, n) \<notin> live hhdm W \<and>
       live hhdm W' = insert (ptr, n) (live hhdm W)) \<and>
       (\<forall>(a, l) \<in> live hhdm W. \<forall>x \<in> {a..<a + l}. hmem h' x = hmem h x))"

lemma pop_post:
  assumes i: "heap_inv hhdm h SL W A" and w: "W p = Some (Slab b (x # xs))"
  shows "\<exists>h'. slab_pop b (base hhdm p) h = (x, h') \<and> x \<noteq> 0 \<and> 16 dvd x \<and>
    heap_inv hhdm h' SL (W(p \<mapsto> Slab b xs)) A \<and> (x, bsize b) \<notin> live hhdm W \<and>
    live hhdm (W(p \<mapsto> Slab b xs)) = insert (x, bsize b) (live hhdm W) \<and>
    (\<forall>a. a \<notin> {base hhdm p..<base hhdm p + 32} \<longrightarrow> hmem h' a = hmem h a)"
proof -
  obtain y h' where y: "slab_pop b (base hhdm p) h = (y, h')" by force
  note pop = slab_pop_ok [OF i w y]
  have o: "owner_ok (hmem h) hhdm p (Slab b (x # xs))" by (rule owner_okD [OF i w])
  then have b: "b < 8" and x: "x \<in> slots (base hhdm p) (bsize b)" and d: "x \<notin> set xs" by auto
  note xa = slot_addr [OF i w b x]
  have "objs hhdm p (Slab b xs) = insert (x, bsize b) (objs hhdm p (Slab b (x # xs)))"
    using x d by auto
  then have l: "live hhdm (W(p \<mapsto> Slab b xs)) = insert (x, bsize b) (live hhdm W)"
    using w by (intro live_add) simp
  have "(x, bsize b) \<notin> live hhdm W"
  proof
    assume "(x, bsize b) \<in> live hhdm W"
    moreover have "x \<in> {x..<x + bsize b}" "x \<in> meta hhdm p (Slab b (x # xs))"
      using bsize_bounds [OF b] by auto
    ultimately show False using live_meta [OF i _ w] by blast
  qed
  with y pop xa l show ?thesis by auto
qed

lemma new_slab_post:
  assumes i: "heap_inv hhdm h SL W A" and b: "b < NUM_SLAB_BUCKETS"
    and al: "pmm_alloc_pages oom 0 (hpmm h) = (phys, s')" and nz: "phys \<noteq> 0"
  shows "\<exists>h1 p SL' fl. create_slab_page hhdm oom (bucket_object_size h b) h = (base hhdm p, h1) \<and>
    0 < base hhdm p \<and> bucket_slabs h1 = bucket_slabs h \<and>
    heap_inv hhdm (h1\<lparr>hmem := w64 (hmem h1) (base hhdm p + 24) (of_nat (bucket_slabs h1 b)),
      bucket_slabs := (bucket_slabs h1)(b := base hhdm p)\<rparr>) SL' (W(p \<mapsto> Slab b fl)) A \<and>
    fl \<noteq> [] \<and> live hhdm (W(p \<mapsto> Slab b fl)) = live hhdm W \<and>
    (\<forall>x. x \<notin> region hhdm p 0 \<longrightarrow>
      w64 (hmem h1) (base hhdm p + 24) (of_nat (bucket_slabs h1 b)) x = hmem h x) \<and>
    (\<forall>q v. W q = Some v \<longrightarrow> region hhdm p 0 \<inter> region hhdm q (owner_order v) = {})"
proof -
  note d = heap_invD [OF i]
  from pg.alloc_region [OF d(6) _ al nz, of hhdm] obtain p where p: "unat phys = p * 4096"
    "(p, 0) \<notin> A \<union> blocks_of W" "pmm_ok s' (insert (p, 0) (A \<union> blocks_of W))"
    "total_phys_pages s' = total_phys_pages (hpmm h)"
    "\<forall>q j. (q, j) \<in> A \<union> blocks_of W \<longrightarrow> region hhdm p 0 \<inter> region hhdm q j = {}" by auto
  let ?b = "base hhdm p" and ?s = "bsize b" and ?c = "4064 div bsize b"
  let ?fl = "map (\<lambda>j. ?b + 32 + j * ?s) [0..<?c]"
  have pb: "unat phys + hhdm = ?b" by (simp add: p(1) base_def)
  have al16: "(?b + 32 + 15) div 16 * 16 = ?b + 32"
  proof -
    have "4096 dvd ?b" using d(1) by (simp add: base_def)
    then obtain c where c: "?b = 4096 * c" by (rule dvdE)
    then have "(?b + 32 + 15) div 16 = 256 * c + 2" by (intro div_nat_eqI) simp_all
    with c show ?thesis by simp
  qed
  have us: "unat (of_nat ?s :: u64) = ?s" using bsize_bounds [OF b] by (intro unat_of_nat_lt) simp
  define m1 where "m1 = slab_thread (?b + 32) ?s (?c - 1)
      (w64 (w64 (w64 (w64 (hmem h) ?b (of_nat ?s)) (?b + 24) 0) (?b + 8) (of_nat ?c)) (?b + 16) (of_nat (?b + 32)))"
  have cr: "create_slab_page hhdm oom (bucket_object_size h b) h = (?b, h\<lparr>hpmm := s', hmem := m1\<rparr>)"
    unfolding create_slab_page_def pmm_alloc_def al Let_def prod.case d(3) [OF b] pb al16 us m1_def
    using nz by simp
  note ns = new_slab_owner [OF b d(1) m1_def]
  let ?m = "w64 m1 (?b + 24) (of_nat (bucket_slabs h b))"
  have ne: "?fl \<noteq> []" using bsize_cases [OF b] by auto
  have "chain ?m (?b + 16) ?fl"
  proof (rule chain_cong)
    show "chain m1 (?b + 16) ?fl" using ns(1) by simp
    show "r64 ?m x = r64 m1 x" if "x \<in> set ?fl" for x
      using that slot_bounds(1) [of x ?b ?s] unfolding set_slots by (simp add: r64_w64_other)
  qed (simp add: r64_w64_other)
  then have ok: "owner_ok ?m hhdm p (Slab b ?fl)"
    using ns(1) by (simp add: r64_w64_other)
  have fr: "?m x = hmem h x" if "x \<notin> region hhdm p 0" for x
  proof -
    from that have "x < ?b + 24 \<or> ?b + 24 + 8 \<le> x" by (auto simp: region_def base_def)
    then show ?thesis using ns(2) [OF that] by simp
  qed
  have hi: "heap_inv hhdm (h\<lparr>hpmm := s', hmem := ?m, bucket_slabs := (bucket_slabs h)(b := ?b)\<rparr>)
      (SL(b := p # SL b)) (W(p \<mapsto> Slab b ?fl)) A"
    by (rule heap_add_slab [OF i b p(3,4,2) ok fr]) simp_all
  have np: "W p = None" by (rule owners_add(1) [OF i _ p(3,2) ok fr]) simp
  have "live hhdm (W(p \<mapsto> Slab b ?fl)) = live hhdm W"
    unfolding live_upd using live_split [of hhdm W p] np set_slots [of ?b ?s] by simp
  moreover have "0 < ?b" using base_bounds(1) [OF hi, of p] by simp
  moreover have "\<forall>q v. W q = Some v \<longrightarrow> region hhdm p 0 \<inter> region hhdm q (owner_order v) = {}"
    using p(5) by (auto simp: blocks_of_def)
  ultimately show ?thesis using cr hi ne fr
    by (intro exI [of _ "h\<lparr>hpmm := s', hmem := m1\<rparr>"] exI [of _ p] exI [of _ "SL(b := p # SL b)"] exI [of _ ?fl]) simp
qed

lemma kmalloc_small_ok:
  assumes i: "heap_inv hhdm h SL W A" and b: "b < NUM_SLAB_BUCKETS"
  shows "\<exists>r. kmalloc_small hhdm oom b h = Some r \<and> alloc_post hhdm oom h W A (bsize b) r"
proof -
  have l: "slab_list (hmem h) hhdm (bucket_slabs h b) (SL b)"
    "\<And>p. p \<in> set (SL b) \<longleftrightarrow> (\<exists>fl. W p = Some (Slab b fl))"
    using heap_invD(4) [OF i] b by (auto simp: lists_ok_def)
  have "\<And>p. p \<in> set (SL b) \<Longrightarrow> 0 < base hhdm p" using l(2) base_bounds(1) [OF i] by blast
  from find_slab_ok [OF l(1) this] consider
    (found) p where "p \<in> set (SL b)" "find_slab (hmem h) (bucket_slabs h b) = Some (base hhdm p)"
      "r64 (hmem h) (base hhdm p + 8) \<noteq> 0"
  | (none) "find_slab (hmem h) (bucket_slabs h b) = Some 0" by blast
  then show ?thesis
  proof cases
    case found
    then obtain fl where w: "W p = Some (Slab b fl)" using l(2) by blast
    with found(3) owner_okD [OF i w] have "fl \<noteq> []" by auto
    then obtain x xs where fl: "fl = x # xs" by (cases fl) auto
    from pop_post [OF i w [unfolded fl]] obtain h' where h': "slab_pop b (base hhdm p) h = (x, h')"
      "x \<noteq> 0" "16 dvd x" "heap_inv hhdm h' SL (W(p \<mapsto> Slab b xs)) A" "(x, bsize b) \<notin> live hhdm W"
      "live hhdm (W(p \<mapsto> Slab b xs)) = insert (x, bsize b) (live hhdm W)"
      "\<forall>a. a \<notin> {base hhdm p..<base hhdm p + 32} \<longrightarrow> hmem h' a = hmem h a" by blast
    have "hmem h' c = hmem h c" if "(a, k) \<in> live hhdm W" "c \<in> {a..<a + k}" for a k c
    proof -
      have "c \<notin> meta hhdm p (Slab b fl)" using live_meta [OF i that(1) w] that(2) by blast
      then show ?thesis using h'(7) by simp
    qed
    with h' found(2) base_bounds(1) [OF i w] show ?thesis
      by (auto simp: kmalloc_small_def alloc_post_def)
  next
    case none
    obtain phys s' where al: "pmm_alloc_pages oom 0 (hpmm h) = (phys, s')" by force
    show ?thesis
    proof (cases "phys = 0")
      case True
      then have "s' = oom (hpmm h)" using alloc_null [OF heap_invD(6) [OF i], of 0 oom s'] al by simp
      with none al True show ?thesis
        by (simp add: kmalloc_small_def create_slab_page_def pmm_alloc_def alloc_post_def)
    next
      case False
      from new_slab_post [OF i b al this] obtain h1 p SL' fl where n:
        "create_slab_page hhdm oom (bucket_object_size h b) h = (base hhdm p, h1)" "0 < base hhdm p"
        "bucket_slabs h1 = bucket_slabs h"
        "heap_inv hhdm (h1\<lparr>hmem := w64 (hmem h1) (base hhdm p + 24) (of_nat (bucket_slabs h1 b)),
           bucket_slabs := (bucket_slabs h1)(b := base hhdm p)\<rparr>) SL' (W(p \<mapsto> Slab b fl)) A"
        "fl \<noteq> []" "live hhdm (W(p \<mapsto> Slab b fl)) = live hhdm W"
        "\<And>x. x \<notin> region hhdm p 0 \<Longrightarrow> w64 (hmem h1) (base hhdm p + 24) (of_nat (bucket_slabs h1 b)) x = hmem h x"
        "\<And>q v. W q = Some v \<Longrightarrow> region hhdm p 0 \<inter> region hhdm q (owner_order v) = {}" by metis
      let ?h2 = "h1\<lparr>hmem := w64 (hmem h1) (base hhdm p + 24) (of_nat (bucket_slabs h1 b)),
           bucket_slabs := (bucket_slabs h1)(b := base hhdm p)\<rparr>"
      obtain x xs where fl: "fl = x # xs" using n(5) by (cases fl) auto
      from pop_post [OF n(4) [unfolded fl], of p b x xs] obtain h' where h':
        "slab_pop b (base hhdm p) ?h2 = (x, h')" "x \<noteq> 0" "16 dvd x"
        "heap_inv hhdm h' SL' (W(p \<mapsto> Slab b xs)) A" "(x, bsize b) \<notin> live hhdm W"
        "live hhdm (W(p \<mapsto> Slab b xs)) = insert (x, bsize b) (live hhdm W)"
        "\<forall>a. a \<notin> {base hhdm p..<base hhdm p + 32} \<longrightarrow> hmem h' a = hmem ?h2 a"
        using n(6) [unfolded fl] by auto
      have "hmem h' c = hmem h c" if ac: "(a, k) \<in> live hhdm W" "c \<in> {a..<a + k}" for a k c
      proof -
        obtain q v where v: "W q = Some v" "(a, k) \<in> objs hhdm q v" using ac(1) by (auto simp: live_def)
        have "c \<notin> region hhdm p 0"
          using n(8) [OF v(1)] objs_region [OF owner_okD [OF i v(1)] v(2)] ac(2) by blast
        then have "c \<notin> {base hhdm p..<base hhdm p + 32}" and "hmem ?h2 c = hmem h c"
          using n(7) by (auto simp: region_def base_def)
        with h'(7) show ?thesis by simp
      qed
      with h' none n(1,2) show ?thesis
        by (auto simp: kmalloc_small_def alloc_post_def)
    qed
  qed
qed

lemma heap_add_large:
  assumes i: "heap_inv hhdm h SL W A"
    and s': "pmm_ok s' (insert (p, k) (A \<union> blocks_of W))" "total_phys_pages s' = total_phys_pages (hpmm h)"
    and new: "(p, k) \<notin> A \<union> blocks_of W"
    and ok: "owner_ok m' hhdm p (Large k n sz)" and fr: "\<And>x. x \<notin> region hhdm p k \<Longrightarrow> m' x = hmem h x"
  shows "heap_inv hhdm (h\<lparr>hpmm := s', hmem := m', used_memory := u\<rparr>) SL (W(p \<mapsto> Large k n sz)) A"
proof -
  note d = heap_invD [OF i]
  note a = owners_add [OF i _ s'(1) new ok fr, simplified]
  have "lists_ok m' hhdm (bucket_slabs h) SL (W(p \<mapsto> Large k n sz))"
  proof (rule lists_ok_cong [OF d(4)])
    show "r64 m' (base hhdm q + 24) = r64 (hmem h) (base hhdm q + 24)" if "W q = Some (Slab j fl)" for q j fl
      by (rule r64_cong) (use a(4) [OF that] in \<open>auto simp: region_def base_def\<close>)
  qed (use a(1) in auto)
  then show ?thesis using d a(2,3) s' new by (auto simp: heap_inv_def)
qed

lemma order_for_Some:
  assumes "order_for n = Some k"
  shows "unat n \<le> 2 ^ k" and "k < 64"
  using assms by (auto simp: order_for_def find_Some_iff)

lemma order_for_defined: "unat n \<le> 2 ^ 63 \<Longrightarrow> \<exists>k. order_for n = Some k"
proof (cases "order_for n")
  case None
  then have "\<forall>k < 64. \<not> unat n \<le> 2 ^ k" by (simp add: order_for_def find_None_iff)
  then have "\<not> unat n \<le> 2 ^ 63" by (rule allE [of _ 63]) simp
  then show "unat n \<le> 2 ^ 63 \<Longrightarrow> ?thesis" by simp
qed simp

lemma pages_needed_bounds:
  assumes "unat sz + 32 + 4095 < 2 ^ 64"
  shows "unat sz + 32 \<le> unat ((sz + 32 + PAGE_SIZE - 1) div PAGE_SIZE :: u64) * 4096"
    and "unat ((sz + 32 + PAGE_SIZE - 1) div PAGE_SIZE :: u64) \<le> 2 ^ 52"
proof -
  have "unat (sz + 32 + 4095 :: u64) = unat sz + 32 + 4095"
    using assms by (simp add: unat_word_ariths)
  moreover have "sz + 32 + 4096 - 1 = (sz + 32 + 4095 :: u64)" by simp
  ultimately have u: "unat ((sz + 32 + PAGE_SIZE - 1) div PAGE_SIZE :: u64) = (unat sz + 32 + 4095) div 4096"
    by (simp only: unat_div) simp
  show "unat sz + 32 \<le> unat ((sz + 32 + PAGE_SIZE - 1) div PAGE_SIZE :: u64) * 4096"
    unfolding u using div_mult_mod_eq [of "unat sz + 32 + 4095" 4096]
      mod_less_divisor [of 4096 "unat sz + 32 + 4095"] by linarith
  show "unat ((sz + 32 + PAGE_SIZE - 1) div PAGE_SIZE :: u64) \<le> 2 ^ 52"
    unfolding u using assms by simp
qed

lemma kmalloc_large_ok:
  assumes i: "heap_inv hhdm h SL W A" and sz: "unat sz + 32 + 4095 < 2 ^ 64" "0 < unat sz"
  shows "\<exists>r. kmalloc_large hhdm oom sz h = Some r \<and> alloc_post hhdm oom h W A (unat sz) r"
proof -
  note d = heap_invD [OF i]
  define n where "n = (sz + 32 + PAGE_SIZE - 1 :: u64) div PAGE_SIZE"
  note nb = pages_needed_bounds [OF sz(1), folded n_def]
  obtain k where k: "order_for n = Some k" using order_for_defined [of n] nb(2) by auto
  obtain phys s' where al: "pmm_alloc_pages oom k (hpmm h) = (phys, s')" by force
  have km: "kmalloc_large hhdm oom sz h = (if phys = 0 then Some (0, h\<lparr>hpmm := s'\<rparr>)
    else let header = unat phys + hhdm in Some (header + 32, h\<lparr>hpmm := s',
      hmem := w64 (w64 (w32 (hmem h) header LARGE_ALLOC_MAGIC) (header + 8) n) (header + 16) sz,
      used_memory := used_memory h + n * PAGE_SIZE\<rparr>))"
    using k al by (simp add: kmalloc_large_def pmm_alloc_continuous_def Let_def n_def)
  show ?thesis
  proof (cases "phys = 0")
    case True
    have "s' = hpmm h \<or> s' = oom (hpmm h)"
      using alloc_null [OF d(6), of k oom s'] al True by (cases "k < 16") (auto simp: pmm_alloc_pages_def)
    then show ?thesis using km True by (auto simp: alloc_post_def)
  next
    case False
    then have k16: "k < 16" using al by (auto simp: pmm_alloc_pages_def split: if_splits)
    from pg.alloc_region [OF d(6) k16 al False, of hhdm] obtain p where p: "unat phys = p * 4096"
      "(p, k) \<notin> A \<union> blocks_of W" "pmm_ok s' (insert (p, k) (A \<union> blocks_of W))"
      "total_phys_pages s' = total_phys_pages (hpmm h)"
      "\<forall>q j. (q, j) \<in> A \<union> blocks_of W \<longrightarrow> region hhdm p k \<inter> region hhdm q j = {}" by auto
    let ?b = "base hhdm p"
    let ?m = "w64 (w64 (w32 (hmem h) ?b LARGE_ALLOC_MAGIC) (?b + 8) n) (?b + 16) sz"
    have big: "32 + unat sz \<le> 2 ^ k * 4096"
      using nb(1) mult_le_mono1 [OF order_for_Some(1) [OF k], of 4096] by linarith
    have ok: "owner_ok ?m hhdm p (Large k n sz)"
      using big k sz(2) by (simp add: r64_w64_other r32_w64_other)
    have fr: "?m x = hmem h x" if "x \<notin> {?b..<?b + 32}" for x using that by (auto simp: w64_def w32_def)
    have hr: "{?b..<?b + 32} \<subseteq> region hhdm p k"
      using big by (auto simp: region_def base_def add_mult_distrib)
    have frk: "?m x = hmem h x" if "x \<notin> region hhdm p k" for x using fr hr that by blast
    let ?h = "h\<lparr>hpmm := s', hmem := ?m, used_memory := used_memory h + n * PAGE_SIZE\<rparr>"
    have hi: "heap_inv hhdm ?h SL (W(p \<mapsto> Large k n sz)) A"
      by (rule heap_add_large [OF i p(3,4,2) ok frk])
    have np: "W p = None" by (rule owners_add(1) [OF i _ p(3,2) ok frk]) simp
    have lv: "live hhdm (W(p \<mapsto> Large k n sz)) = insert (?b + 32, unat sz) (live hhdm W)"
      using np by (intro live_add) simp
    have old: "c \<notin> region hhdm p k" if ac: "(a, l) \<in> live hhdm W" "c \<in> {a..<a + l}" for a l c
    proof -
      obtain q v where v: "W q = Some v" "(a, l) \<in> objs hhdm q v" using ac(1) by (auto simp: live_def)
      then have "(q, owner_order v) \<in> A \<union> blocks_of W" by (auto simp: blocks_of_def)
      then show ?thesis using p(5) objs_region [OF owner_okD [OF i v(1)] v(2)] ac(2) by blast
    qed
    have "?b + 32 \<in> region hhdm p k" using big sz(2) by (auto simp: region_def base_def add_mult_distrib)
    then have "(?b + 32, unat sz) \<notin> live hhdm W" using old [of "?b + 32" "unat sz" "?b + 32"] sz(2) by auto
    moreover have "16 dvd ?b + 32"
    proof -
      have "4096 dvd ?b" using d(1) by (simp add: base_def)
      then have "16 dvd ?b" by (rule dvd_trans [rotated]) (simp add: dvd_def exI [of _ 256])
      then show ?thesis by simp
    qed
    moreover have "\<forall>(a, l) \<in> live hhdm W. \<forall>x \<in> {a..<a + l}. ?m x = hmem h x" using old frk by blast
    ultimately have "alloc_post hhdm oom h W A (unat sz) (?b + 32, ?h)"
      using hi lv unfolding alloc_post_def by (auto simp del: fun_upd_apply)
    then show ?thesis using km False p(1) by (simp add: Let_def base_def)
  qed
qed

lemma bucket_for_ok:
  assumes "sz \<le> 2048"
  shows "\<exists>i. bucket_for sz = Some i \<and> i < NUM_SLAB_BUCKETS \<and> unat sz \<le> bsize i"
proof (cases "bucket_for sz")
  case None
  have "bucket_sizes ! 7 = 2048" by (simp add: bucket_sizes_def)
  moreover have "unat sz \<le> 2048" using assms by (simp add: word_le_nat_alt)
  ultimately show ?thesis using None by (auto simp: bucket_for_def find_None_iff dest!: spec [of _ 7])
next
  case (Some i)
  then show ?thesis by (auto simp: bucket_for_def find_Some_iff bsize_def)
qed

lemma kmalloc_ok:
  assumes i: "heap_inv hhdm h SL W A" and sz: "0 < unat sz" "unat sz + 32 + 4095 < 2 ^ 64"
  shows "\<exists>r n. kmalloc hhdm oom sz h = Some r \<and> unat sz \<le> n \<and> alloc_post hhdm oom h W A n r"
proof (cases "sz \<le> 2048")
  case True
  from bucket_for_ok [OF True] obtain b where b: "bucket_for sz = Some b" "b < 8" "unat sz \<le> bsize b" by blast
  with kmalloc_small_ok [OF i b(2), of oom] sz(1) True show ?thesis
    by (auto simp: kmalloc_def)
next
  case False
  with kmalloc_large_ok [OF i sz(2,1), of oom] sz(1) show ?thesis by (auto simp: kmalloc_def)
qed

subsubsection \<open>Release and writes\<close>

lemma blocks_of_remove:
  assumes "W p = Some w"
  shows "blocks_of (W(p := None)) = blocks_of W - {(p, owner_order w)}"
proof -
  have iff: "(q, j) \<in> blocks_of V \<longleftrightarrow> (\<exists>v. V q = Some v \<and> j = owner_order v)" for q j V
    by (auto simp: blocks_of_def)
  show ?thesis using assms by (auto simp: iff split: if_splits)
qed

lemma free_large_ok:
  assumes i: "heap_inv hhdm h SL W A" and w: "W p = Some (Large k n sz)"
    and h': "kfree hhdm (base hhdm p + 32) h = Some h'"
  shows "heap_inv hhdm h' SL (W(p := None)) A" and "hmem h' = hmem h"
proof -
  note d = heap_invD [OF i]
  have o: "owner_ok (hmem h) hhdm p (Large k n sz)" by (rule owner_okD [OF i w])
  have "4096 dvd base hhdm p" using d(1) by (simp add: base_def)
  then have pb: "(base hhdm p + 32) div 4096 * 4096 = base hhdm p" by (auto elim!: dvdE)
  have blk: "(p, k) \<in> A \<union> blocks_of W" using w by (force simp: blocks_of_def)
  have off: "base hhdm p - hhdm = p * 4096" by (simp add: base_def)
  let ?s = "pmm_free_pages (of_nat p * PAGE_SIZE) k (hpmm h)"
  have hh: "h' = h\<lparr>used_memory := used_memory h - n * PAGE_SIZE, hpmm := ?s\<rparr>"
    using h' o unfolding kfree_def is_large_def Let_def pb off by simp
  note rel = pg.release_block [OF d(6) blk]
  have "A \<union> blocks_of (W(p := None)) = A \<union> blocks_of W - {(p, k)}"
    using blocks_of_remove [of W p, OF w] d(7) w by (force simp: blocks_of_def)
  then have "pmm_ok ?s (A \<union> blocks_of (W(p := None)))" using rel by simp
  moreover have "lists_ok (hmem h) hhdm (bucket_slabs h) SL (W(p := None))"
    by (rule lists_ok_cong [OF d(4)]) (use w in auto)
  moreover have "owners_ok (hmem h) hhdm (W(p := None))" using d(5) by (auto simp: owners_ok_def)
  moreover have "A \<inter> blocks_of (W(p := None)) = {}" using d(7) blocks_of_remove [of W p, OF w] by blast
  ultimately show "heap_inv hhdm h' SL (W(p := None)) A"
    using d rel unfolding hh by (simp add: heap_inv_def)
  show "hmem h' = hmem h" by (simp add: hh)
qed

text \<open>\<open>kfree\<close> of an object in use always succeeds: the header's page count has an order.\<close>

lemma kfree_defined:
  assumes i: "heap_inv hhdm h SL W A" and "(a, n) \<in> live hhdm W"
  shows "\<exists>h'. kfree hhdm a h = Some h'"
proof -
  obtain p w where w: "W p = Some w" "(a, n) \<in> objs hhdm p w" using assms(2) by (auto simp: live_def)
  have o: "owner_ok (hmem h) hhdm p w" by (rule owner_okD [OF i w(1)])
  have "order_for (r64 (hmem h) (a div 4096 * 4096 + 8)) \<noteq> None" if "is_large (hmem h) a"
  proof (cases w)
    case (Slab b fl)
    then have b: "b < 8" and x: "a \<in> slots (base hhdm p) (bsize b)" using o w(2) by auto
    have "r32 (hmem h) (base hhdm p) = ucast (r64 (hmem h) (base hhdm p))"
      by (rule bit_word_eqI) (auto simp: r64_def bit_simps)
    with that slot_addr(3) [OF i w(1) [unfolded Slab] b x] o Slab bsize_cases [OF b] show ?thesis
      by (auto simp: is_large_def Let_def)
  next
    case (Large k m sz)
    have "4096 dvd base hhdm p" using heap_invD(1) [OF i] by (simp add: base_def)
    then have "(base hhdm p + 32) div 4096 * 4096 = base hhdm p" by (auto elim!: dvdE)
    with o w(2) Large show ?thesis by simp
  qed
  then show ?thesis by (auto simp: kfree_def Let_def)
qed

lemma live_remove_slab:
  assumes "W p = Some (Slab b fl)" and "x \<in> slots (base hhdm p) (bsize b)" and "x \<notin> set fl"
    and "(x, bsize b) \<notin> live hhdm (W(p := None))"
  shows "live hhdm (W(p \<mapsto> Slab b (x # fl))) = live hhdm W - {(x, bsize b)}"
  using live_split [of hhdm W p] assms unfolding live_upd by auto

lemma kfree_ok:
  assumes i: "heap_inv hhdm h SL W A" and l: "(a, n) \<in> live hhdm W" and h': "kfree hhdm a h = Some h'"
  shows "\<exists>SL' W'. heap_inv hhdm h' SL' W' A \<and> live hhdm W' = live hhdm W - {(a, n)}"
    and "\<And>c k x. (c, k) \<in> live hhdm W \<Longrightarrow> (c, k) \<noteq> (a, n) \<Longrightarrow> x \<in> {c..<c + k} \<Longrightarrow> hmem h' x = hmem h x"
proof -
  obtain p w where w: "W p = Some w" "(a, n) \<in> objs hhdm p w" using l by (auto simp: live_def)
  have o: "owner_ok (hmem h) hhdm p w" by (rule owner_okD [OF i w(1)])
  have reg: "{a..<a + n} \<subseteq> region hhdm p (owner_order w)" by (rule objs_region [OF o w(2)])
  have "0 < bsize j" if "j < 8" for j using bsize_bounds [OF that] by simp
  then have "0 < n" using o w(2) by (cases w) auto
  have other: "(a, n) \<notin> live hhdm (W(p := None))"
  proof
    assume "(a, n) \<in> live hhdm (W(p := None))"
    then obtain q v where v: "W q = Some v" "(a, n) \<in> objs hhdm q v" "q \<noteq> p"
      by (auto simp: live_def split: if_splits)
    with owner_regions_apart [OF heap_invD(6) [OF i] w(1) v(1)] reg \<open>0 < n\<close>
      objs_region [OF owner_okD [OF i v(1)] v(2)] show False by force
  qed
  have "(\<exists>SL' W'. heap_inv hhdm h' SL' W' A \<and> live hhdm W' = live hhdm W - {(a, n)}) \<and>
    (\<forall>x. x \<notin> meta hhdm p w \<longrightarrow> x \<notin> {a..<a + n} \<longrightarrow> hmem h' x = hmem h x)"
  proof (cases w)
    case (Slab b fl)
    then have b: "b < 8" and x: "a \<in> slots (base hhdm p) (bsize b)" "a \<notin> set fl" "n = bsize b"
      using o w(2) by auto
    note psh = slab_push_ok [OF i w(1) [unfolded Slab] x(1,2) h']
    have "live hhdm (W(p \<mapsto> Slab b (a # fl))) = live hhdm W - {(a, n)}"
      using live_remove_slab [of W p b fl a hhdm] w(1) Slab x other by simp
    moreover have "hmem h' c = hmem h c" if "c \<notin> meta hhdm p w" "c \<notin> {a..<a + n}" for c
      using psh(2) [of c] that bsize_bounds [OF b] x(3) by (auto simp: Slab)
    ultimately show ?thesis using psh(1) by blast
  next
    case (Large k m sz)
    then have a: "a = base hhdm p + 32" "n = unat sz" using w(2) by auto
    note fl = free_large_ok [OF i w(1) [unfolded Large] h' [unfolded a]]
    have "live hhdm (W(p := None)) = live hhdm W - {(a, n)}"
      using live_split [of hhdm W p] w(1) Large other a by auto
    with fl show ?thesis by auto
  qed
  note r = this
  from r show "\<exists>SL' W'. heap_inv hhdm h' SL' W' A \<and> live hhdm W' = live hhdm W - {(a, n)}" ..
  fix c k x assume c: "(c, k) \<in> live hhdm W" "(c, k) \<noteq> (a, n)" "x \<in> {c..<c + k}"
  have "x \<notin> meta hhdm p w" using live_meta [OF i c(1) w(1)] c(3) by blast
  moreover have "x \<notin> {a..<a + n}" using live_apart [OF i c(1) l c(2)] c(3) by blast
  ultimately show "hmem h' x = hmem h x" using r by blast
qed

text \<open>A client that writes only inside one of its objects leaves the heap consistent.\<close>

lemma heap_client_write:
  assumes i: "heap_inv hhdm h SL W A" and l: "(a, n) \<in> live hhdm W"
    and fr: "\<And>x. x \<notin> {a..<a + n} \<Longrightarrow> m' x = hmem h x"
  shows "heap_inv hhdm (h\<lparr>hmem := m'\<rparr>) SL W A"
proof -
  note d = heap_invD [OF i]
  have same: "m' x = hmem h x" if "W p = Some w" "x \<in> meta hhdm p w" for p w x
    using live_meta [OF i l that(1)] that(2) fr by blast
  have "owners_ok m' hhdm W"
    unfolding owners_ok_def using owner_okD [OF i] same by (blast intro: owner_ok_cong)
  moreover have "lists_ok m' hhdm (bucket_slabs h) SL W"
  proof (rule lists_ok_cong [OF d(4)])
    show "r64 m' (base hhdm p + 24) = r64 (hmem h) (base hhdm p + 24)" if "W p = Some (Slab j fl)" for p j fl
      by (rule r64_cong) (use same [OF that] in auto)
  qed simp
  ultimately show ?thesis using d by (simp add: heap_inv_def)
qed

lemma live_old_size:
  assumes i: "heap_inv hhdm h SL W A" and l: "(a, n) \<in> live hhdm W"
  shows "unat (if is_large (hmem h) a then r64 (hmem h) (a div 4096 * 4096 + 16)
    else r64 (hmem h) (a div 4096 * 4096)) = n"
proof -
  obtain p w where w: "W p = Some w" "(a, n) \<in> objs hhdm p w" using l by (auto simp: live_def)
  have o: "owner_ok (hmem h) hhdm p w" by (rule owner_okD [OF i w(1)])
  show ?thesis
  proof (cases w)
    case (Slab b fl)
    then have b: "b < 8" and x: "a \<in> slots (base hhdm p) (bsize b)" "n = bsize b" using o w(2) by auto
    have "r32 (hmem h) (base hhdm p) = ucast (r64 (hmem h) (base hhdm p))"
      by (rule bit_word_eqI) (auto simp: r64_def bit_simps)
    then have "\<not> is_large (hmem h) a"
      using slot_addr(3) [OF i w(1) [unfolded Slab] b x(1)] o Slab bsize_cases [OF b]
      by (auto simp: is_large_def Let_def)
    moreover have "unat (of_nat (bsize b) :: u64) = bsize b"
      using bsize_bounds [OF b] by (intro unat_of_nat_lt) simp
    ultimately show ?thesis using slot_addr(3) [OF i w(1) [unfolded Slab] b x(1)] o Slab x(2) by simp
  next
    case (Large k m sz)
    have "4096 dvd base hhdm p" using heap_invD(1) [OF i] by (simp add: base_def)
    then have "(base hhdm p + 32) div 4096 * 4096 = base hhdm p" by (auto elim!: dvdE)
    with o w(2) Large show ?thesis by (simp add: is_large_def Let_def)
  qed
qed

lemma live_pos:
  assumes "heap_inv hhdm h SL W A" and "(a, n) \<in> live hhdm W"
  shows "0 < a"
proof -
  obtain p w where w: "W p = Some w" "(a, n) \<in> objs hhdm p w" using assms(2) by (auto simp: live_def)
  with base_bounds(1) [OF assms(1) w(1)] slot_bounds(1) [of a "base hhdm p"] show ?thesis
    by (cases w) (auto, fastforce)
qed

subsection \<open>Properties\<close>

text \<open>C8. \<open>kmalloc\<close> always terminates. A non-null result is 16-byte aligned and at least as large as
  asked; the new object overlaps no other object in use (\<open>live\<close> objects of a consistent heap never
  overlap, nor do they touch heap metadata), the heap stays consistent and the contents of all
  objects in use are unchanged. On failure only the out-of-memory handler has run.\<close>

theorem kmalloc_correct:
  assumes "heap_inv hhdm h SL W A" and "0 < unat sz" and "unat sz < 2 ^ 64 - 4127"
  shows "\<exists>ptr h'. kmalloc hhdm oom sz h = Some (ptr, h') \<and>
    (if ptr = 0 then h' = h \<or> h' = h\<lparr>hpmm := oom (hpmm h)\<rparr>
     else 16 dvd ptr \<and>
       (\<exists>n SL' W'. unat sz \<le> n \<and> heap_inv hhdm h' SL' W' A \<and> live hhdm W' = insert (ptr, n) (live hhdm W) \<and>
         (\<forall>(a, l) \<in> live hhdm W. {a..<a + l} \<inter> {ptr..<ptr + n} = {})) \<and>
       (\<forall>(a, l) \<in> live hhdm W. \<forall>x \<in> {a..<a + l}. hmem h' x = hmem h x))"
proof -
  obtain ptr h' n where r: "kmalloc hhdm oom sz h = Some (ptr, h')" "unat sz \<le> n"
    "alloc_post hhdm oom h W A n (ptr, h')"
    using kmalloc_ok [OF assms(1,2), of oom] assms(3) by auto
  show ?thesis
  proof (cases "ptr = 0")
    case True
    with r show ?thesis by (simp add: alloc_post_def)
  next
    case False
    with r(3) obtain SL' W' where w: "16 dvd ptr" "heap_inv hhdm h' SL' W' A" "(ptr, n) \<notin> live hhdm W"
      "live hhdm W' = insert (ptr, n) (live hhdm W)"
      "\<forall>(a, l) \<in> live hhdm W. \<forall>x \<in> {a..<a + l}. hmem h' x = hmem h x"
      by (auto simp: alloc_post_def)
    have "{a..<a + l} \<inter> {ptr..<ptr + n} = {}" if "(a, l) \<in> live hhdm W" for a l
      using live_apart [OF w(2), of a l ptr n] that w(3,4) by auto
    then have "\<forall>(a, l) \<in> live hhdm W. {a..<a + l} \<inter> {ptr..<ptr + n} = {}" by blast
    with r(2) w(2,4) have "\<exists>n SL' W'. unat sz \<le> n \<and> heap_inv hhdm h' SL' W' A \<and>
      live hhdm W' = insert (ptr, n) (live hhdm W) \<and>
      (\<forall>(a, l) \<in> live hhdm W. {a..<a + l} \<inter> {ptr..<ptr + n} = {})" by blast
    with r(1) w(1,5) False show ?thesis by simp
  qed
qed

text \<open>The freshly initialised heap over the four-page machine.\<close>

definition demo_heap :: heap where
  "demo_heap = init_heap \<lparr>hmem = \<lambda>_. 0, bucket_object_size = \<lambda>_. 0, bucket_slabs = \<lambda>_. 0,
     used_memory = 0, hpmm = demo_pmm\<rparr>"

lemma demo_heap_inv: "heap_inv 0 demo_heap (\<lambda>_. []) Map.empty {}"
proof -
  have "pmm_ok demo_pmm {}" using demo_inv by (auto simp: pmm_ok_def demo_pmm_def empty_pmm_def)
  then show ?thesis
    by (simp add: heap_inv_def demo_heap_def init_heap_def lists_ok_def owners_ok_def blocks_of_def
        bsize_def demo_pmm_def empty_pmm_def)
qed

theorem kmalloc_correct_witness:
  "\<exists>ptr h'. kmalloc 0 id 100 demo_heap = Some (ptr, h') \<and> (ptr \<noteq> 0 \<longrightarrow> 16 dvd ptr)"
proof -
  have "0 < unat (100 :: u64)" "unat (100 :: u64) < 2 ^ 64 - 4127" by simp_all
  from kmalloc_correct [OF demo_heap_inv this, of id] show ?thesis by fastforce
qed

text \<open>C9. \<open>kfree\<close> of an object in use succeeds, removes exactly this object, keeps the heap
  consistent and leaves the contents of every other object unchanged. This includes the decision
  whether the pointer is a slab object or a large allocation, for any contents of the objects.\<close>

theorem kfree_correct:
  assumes "heap_inv hhdm h SL W A" and "(a, n) \<in> live hhdm W"
  shows "\<exists>h'. kfree hhdm a h = Some h' \<and>
    (\<exists>SL' W'. heap_inv hhdm h' SL' W' A \<and> live hhdm W' = live hhdm W - {(a, n)}) \<and>
    (\<forall>(c, k) \<in> live hhdm W - {(a, n)}. \<forall>x \<in> {c..<c + k}. hmem h' x = hmem h x)"
proof -
  obtain h' where h': "kfree hhdm a h = Some h'" using kfree_defined [OF assms] by blast
  note f = kfree_ok [OF assms h']
  have "\<forall>(c, k) \<in> live hhdm W - {(a, n)}. \<forall>x \<in> {c..<c + k}. hmem h' x = hmem h x"
    using f(2) by (clarify, blast)
  with h' f(1) show ?thesis by blast
qed

text \<open>A heap with one large allocation of 8000 bytes in pages 2 and 3.\<close>

definition demo_large :: heap where
  "demo_large = init_heap \<lparr>hmem = w64 (w64 (w32 (\<lambda>_. 0) 8192 LARGE_ALLOC_MAGIC) 8200 2) 8208 8000,
     bucket_object_size = \<lambda>_. 0, bucket_slabs = \<lambda>_. 0, used_memory = 0, hpmm = demo_used\<rparr>"

lemma demo_large_inv: "heap_inv 0 demo_large (\<lambda>_. []) [2 \<mapsto> Large 1 2 8000] {}"
proof -
  have "pmm_ok demo_used {(2, 1)}"
    using demo_used_inv by (auto simp: pmm_ok_def demo_used_def empty_pmm_def)
  moreover have "blocks_of [2 \<mapsto> Large 1 2 8000] = {(2, 1)}" by (auto simp: blocks_of_def)
  moreover have "order_for 2 = Some 1" by (simp add: order_for_def upt_conv_Cons)
  ultimately show ?thesis
    by (simp add: heap_inv_def demo_large_def init_heap_def lists_ok_def owners_ok_def base_def
        bsize_def demo_used_def empty_pmm_def r64_w64_other r32_w64_other)
qed

lemma demo_large_live: "live 0 [2 \<mapsto> Large 1 2 8000] = {(8224, 8000)}"
  by (auto simp: live_def base_def)

theorem kfree_correct_witness:
  "\<exists>h'. kfree 0 8224 demo_large = Some h' \<and> (\<exists>SL' W'. heap_inv 0 h' SL' W' {} \<and> live 0 W' = {})"
  using kfree_correct [OF demo_large_inv, of 8224 8000, unfolded demo_large_live] by simp

lemma krealloc_ok:
  assumes i: "heap_inv hhdm h SL W A" and l: "(a, n) \<in> live hhdm W"
    and sz: "0 < unat sz" "unat sz < 2 ^ 64 - 4127"
  shows "\<exists>ptr h'. krealloc hhdm oom a sz h = Some (ptr, h') \<and>
    (ptr = 0 \<longrightarrow> h' = h \<or> h' = h\<lparr>hpmm := oom (hpmm h)\<rparr>) \<and> (ptr \<noteq> 0 \<longrightarrow>
    (\<forall>x < min n (unat sz). hmem h' (ptr + x) = hmem h (a + x)) \<and>
    (\<exists>l SL' W'. unat sz \<le> l \<and> (ptr, l) \<notin> live hhdm W \<and> heap_inv hhdm h' SL' W' A \<and>
       live hhdm W' = insert (ptr, l) (live hhdm W - {(a, n)})) \<and>
    (\<forall>(c, k) \<in> live hhdm W - {(a, n)}. \<forall>x \<in> {c..<c + k}. hmem h' x = hmem h x))"
proof -
  obtain ptr h1 k where r: "kmalloc hhdm oom sz h = Some (ptr, h1)" "unat sz \<le> k"
    "alloc_post hhdm oom h W A k (ptr, h1)"
    using kmalloc_ok [OF i sz(1), of oom] sz(2) by auto
  have a: "a \<noteq> 0" using live_pos [OF i l] by simp
  show ?thesis
  proof (cases "ptr = 0")
    case True
    with r a sz(1) show ?thesis by (auto simp: krealloc_def alloc_post_def)
  next
    case False
    with r(3) obtain SL1 W1 where w: "heap_inv hhdm h1 SL1 W1 A" "(ptr, k) \<notin> live hhdm W"
      "live hhdm W1 = insert (ptr, k) (live hhdm W)"
      "\<forall>(a, l) \<in> live hhdm W. \<forall>x \<in> {a..<a + l}. hmem h1 x = hmem h x"
      by (auto simp: alloc_post_def)
    have l1: "(a, n) \<in> live hhdm W1" "(ptr, k) \<in> live hhdm W1" "(a, n) \<noteq> (ptr, k)"
      using l w(2,3) by auto
    define old where "old = (if is_large (hmem h1) a then r64 (hmem h1) (a div 4096 * 4096 + 16)
      else r64 (hmem h1) (a div 4096 * 4096))"
    have old: "unat old = n" unfolding old_def by (rule live_old_size [OF w(1) l1(1)])
    define c where "c = unat (if sz < old then sz else old)"
    have c: "c = min n (unat sz)" using old by (auto simp: c_def word_less_nat_alt)
    have ap: "{a..<a + n} \<inter> {ptr..<ptr + k} = {}" by (rule live_apart [OF w(1) l1])
    define h2 where "h2 = h1\<lparr>hmem := memcpy ptr a c (hmem h1)\<rparr>"
    have "ptr \<le> a \<or> a + c \<le> ptr"
    proof (rule ccontr)
      assume "\<not> ?thesis"
      then have "ptr \<in> {a..<a + n} \<inter> {ptr..<ptr + k}" using c r(2) sz(1) by auto
      with ap show False by blast
    qed
    then have m2: "hmem h2 = block_copy ptr a c (hmem h1)" by (simp add: h2_def memcpy_block)
    have "hmem h2 x = hmem h1 x" if "x \<notin> {ptr..<ptr + k}" for x
      using that c r(2) by (auto simp: m2 block_copy_def)
    then have i2: "heap_inv hhdm h2 SL1 W1 A"
      unfolding h2_def using heap_client_write [OF w(1) l1(2)] by (simp add: h2_def)
    obtain h' where h': "kfree hhdm a h2 = Some h'" using kfree_defined [OF i2 l1(1)] by blast
    note f = kfree_ok [OF i2 l1(1) h']
    have kr: "krealloc hhdm oom a sz h = Some (ptr, h')"
      using a sz(1) r(1) False h' by (auto simp: krealloc_def Let_def old_def c_def h2_def)
    have "hmem h' (ptr + x) = hmem h (a + x)" if "x < min n (unat sz)" for x
    proof -
      have "hmem h' (ptr + x) = hmem h2 (ptr + x)"
        by (rule f(2) [OF l1(2)]) (use l1(3) that r(2) in auto)
      also have "\<dots> = hmem h1 (a + x)" using that c by (simp add: m2 block_copy_def)
      also have "\<dots> = hmem h (a + x)" using w(4) l that by auto
      finally show ?thesis .
    qed
    moreover have "live hhdm W1 - {(a, n)} = insert (ptr, k) (live hhdm W - {(a, n)})"
      using w(3) l1(3) by auto
    moreover have "hmem h' x = hmem h x" if o: "(c, j) \<in> live hhdm W" "(c, j) \<noteq> (a, n)" "x \<in> {c..<c + j}" for c j x
    proof -
      have "(c, j) \<in> live hhdm W1" "(c, j) \<noteq> (ptr, k)" using o(1) w(2,3) by auto
      then have "x \<notin> {ptr..<ptr + k}" using live_apart [OF w(1) _ l1(2)] o(3) by blast
      moreover have "hmem h' x = hmem h2 x" by (rule f(2) [OF \<open>(c, j) \<in> live hhdm W1\<close>]) (use o in auto)
      ultimately show ?thesis using c r(2) w(4) o(1,3) by (auto simp: m2 block_copy_def)
    qed
    ultimately show ?thesis using kr f(1) r(2) w(2) False by (intro exI [of _ ptr] exI [of _ h']) auto
  qed
qed



text \<open>C11. The size of a large request is not checked for wrap-around: a request of \<open>2 ^ 64 - 1\<close>
  bytes is served from a single page.\<close>

theorem kmalloc_size_wraps:
  assumes "pmm_alloc_pages oom 0 (hpmm h) = (phys, s')" and "phys \<noteq> 0"
  shows "\<exists>h'. kmalloc hhdm oom (- 1) h = Some (unat phys + hhdm + 32, h')"
proof -
  have "order_for 1 = Some 0" by (simp add: order_for_def upt_conv_Cons)
  moreover have "\<not> (- 1 :: u64) \<le> 2048" by code_simp
  ultimately show ?thesis
    using assms by (simp add: kmalloc_def kmalloc_large_def pmm_alloc_continuous_def Let_def)
qed

theorem kmalloc_size_wraps_witness:
  "\<exists>h'. kmalloc 0 id (- 1) demo_heap = Some (8224, h')"
proof -
  have "[0..<16] = 0 # 1 # [2..<16]" by (simp add: upt_conv_Cons)
  then have "fst (pmm_alloc_pages id 0 (hpmm demo_heap)) = 8192"
    by (simp add: pmm_alloc_pages_def demo_pmm_def demo_heap_def init_heap_def Let_def)
  then have "pmm_alloc_pages id 0 (hpmm demo_heap) = (8192, snd (pmm_alloc_pages id 0 (hpmm demo_heap)))"
    by (simp add: prod_eq_iff)
  from kmalloc_size_wraps [OF this, of 0] show ?thesis by simp
qed

end
