(* ===== verification/Kstring.thy ===== *)
theory Kstring
  imports Prelude "HOL-Library.Sublist" "HOL-Library.List_Lexorder"
begin

section \<open>C strings (\<open>libs/string.c\<close>)\<close>

text \<open>
  The string functions. A pointer into an object is the list of bytes from the pointer to the end of
  the object, so that reading past the object is \<open>None\<close>; a returned pointer is an offset, \<open>NULL\<close> is
  an inner \<open>None\<close>. \<open>strtok\<close> keeps its static pointer as an offset into the buffer it works on.
  Signed overflow in \<open>atoi\<close> and \<open>atoll\<close> is undefined and therefore \<open>None\<close>.
  A well-formed C string is \<open>s @ 0 # rest\<close> with no zero byte in \<open>s\<close>.
\<close>

subsection \<open>Length, comparison, copying\<close>

fun strlen :: "bytes \<Rightarrow> nat option" where
  "strlen [] = None"
| "strlen (c # cs) = (if c = 0 then Some 0 else map_option Suc (strlen cs))"

fun strcmp :: "bytes \<Rightarrow> bytes \<Rightarrow> int option" where
  "strcmp (a # s1) (b # s2) =
     (if a \<noteq> 0 \<and> a = b then strcmp s1 s2 else Some (uint a - uint b))"
| "strcmp _ _ = None"

fun strncmp :: "bytes \<Rightarrow> bytes \<Rightarrow> nat \<Rightarrow> int option" where
  "strncmp s1 s2 0 = Some 0"
| "strncmp (a # s1) (b # s2) (Suc n) =
     (if a \<noteq> 0 \<and> a = b then strncmp s1 s2 n else Some (uint a - uint b))"
| "strncmp _ _ (Suc n) = None"

text \<open>The copying functions return the new contents of the destination object.\<close>

fun strcpy :: "bytes \<Rightarrow> bytes \<Rightarrow> bytes option" where
  "strcpy (d # dest) (c # src) =
     (if c = 0 then Some (0 # dest) else map_option (Cons c) (strcpy dest src))"
| "strcpy _ _ = None"

fun zero_fill :: "bytes \<Rightarrow> nat \<Rightarrow> bytes option" where
  "zero_fill dest 0 = Some dest"
| "zero_fill (d # dest) (Suc n) = map_option (Cons 0) (zero_fill dest n)"
| "zero_fill [] (Suc n) = None"

fun strncpy :: "bytes \<Rightarrow> bytes \<Rightarrow> nat \<Rightarrow> bytes option" where
  "strncpy dest src 0 = Some dest"
| "strncpy (d # dest) (c # src) (Suc n) =
     (if c \<noteq> 0 then map_option (Cons c) (strncpy dest src n) else zero_fill (d # dest) (Suc n))"
| "strncpy _ _ (Suc n) = None"

definition strcat :: "bytes \<Rightarrow> bytes \<Rightarrow> bytes option" where
  "strcat dest src =
     (case strlen dest of
        None \<Rightarrow> None
      | Some n \<Rightarrow> map_option (\<lambda>r. take n dest @ r) (strcpy (drop n dest) src))"

subsection \<open>Searching\<close>

text \<open>The inner loop of \<open>strstr\<close>; it returns where the needle stops to match.\<close>

fun str_match :: "bytes \<Rightarrow> bytes \<Rightarrow> bytes option" where
  "str_match (a # p1) (b # p2) =
     (if a \<noteq> 0 \<and> b \<noteq> 0 \<and> a = b then str_match p1 p2 else Some (b # p2))"
| "str_match _ _ = None"

fun strstr_scan :: "bytes \<Rightarrow> bytes \<Rightarrow> nat option option" where
  "strstr_scan [] needle = None"
| "strstr_scan (c # p1) needle =
     (if c = 0 then Some None
      else case str_match (c # p1) needle of
        None \<Rightarrow> None
      | Some p2 \<Rightarrow> if hd p2 = 0 then Some (Some 0)
                   else map_option (map_option Suc) (strstr_scan p1 needle))"

definition strstr :: "bytes \<Rightarrow> bytes \<Rightarrow> nat option option" where
  "strstr haystack needle =
     (case needle of
        [] \<Rightarrow> None
      | c # _ \<Rightarrow> if c = 0 then Some (Some 0) else strstr_scan haystack needle)"

fun strchr :: "bytes \<Rightarrow> u8 \<Rightarrow> nat option option" where
  "strchr [] c = None"
| "strchr (a # s) c =
     (if a \<noteq> 0 then if a = c then Some (Some 0) else map_option (map_option Suc) (strchr s c)
      else if c = 0 then Some (Some 0) else Some None)"

text \<open>\<open>strrchr\<close>: the loop with its variable \<open>last\<close>; \<open>i\<close> is the offset of \<open>s\<close>.\<close>

fun strrchr_from :: "bytes \<Rightarrow> u8 \<Rightarrow> nat \<Rightarrow> nat option \<Rightarrow> nat option option" where
  "strrchr_from [] c i lst = None"
| "strrchr_from (a # s) c i lst =
     (let lst' = (if a = c then Some i else lst)
      in if a \<noteq> 0 then strrchr_from s c (Suc i) lst' else Some lst')"

definition strrchr :: "bytes \<Rightarrow> u8 \<Rightarrow> nat option option" where
  "strrchr s c = strrchr_from s c 0 None"

text \<open>The loop over the delimiters shared by \<open>strpbrk\<close> and \<open>strsep\<close>.\<close>

fun in_delim :: "u8 \<Rightarrow> bytes \<Rightarrow> bool option" where
  "in_delim c [] = None"
| "in_delim c (p # ps) = (if p = 0 then Some False else if c = p then Some True else in_delim c ps)"

fun strpbrk :: "bytes \<Rightarrow> bytes \<Rightarrow> nat option option" where
  "strpbrk [] s2 = None"
| "strpbrk (c # s1) s2 =
     (if c = 0 then Some None
      else case in_delim c s2 of
        None \<Rightarrow> None
      | Some True \<Rightarrow> Some (Some 0)
      | Some False \<Rightarrow> map_option (map_option Suc) (strpbrk s1 s2))"

subsection \<open>Splitting\<close>

text \<open>
  The two loops of \<open>strtok\<close>: skip while the first character is (\<open>want = True\<close>) or is not
  (\<open>want = False\<close>) a delimiter, decided by comparing the result of \<open>strpbrk\<close> with the pointer.
  They return the number of characters skipped.
\<close>

fun tok_skip :: "bool \<Rightarrow> bytes \<Rightarrow> bytes \<Rightarrow> nat option" where
  "tok_skip want [] delim = None"
| "tok_skip want (c # s) delim =
     (if c = 0 then Some 0
      else case strpbrk (c # s) delim of
        None \<Rightarrow> None
      | Some r \<Rightarrow> if (r = Some 0) = want then map_option Suc (tok_skip want s delim) else Some 0)"

text \<open>
  \<open>strtok buf s last delim\<close>: \<open>s\<close> and \<open>last\<close> are offsets into \<open>buf\<close>. The result is the start of the
  token, the new static pointer and the buffer.
\<close>

definition strtok :: "bytes \<Rightarrow> nat option \<Rightarrow> nat option \<Rightarrow> bytes \<Rightarrow> (nat option \<times> nat option \<times> bytes) option" where
  "strtok buf s strtok_last delim =
     (case (if s = None then strtok_last else s) of
        None \<Rightarrow> Some (None, strtok_last, buf)
      | Some s \<Rightarrow>
          (case tok_skip True (drop s buf) delim of
             None \<Rightarrow> None
           | Some k \<Rightarrow>
               let s1 = s + k in
               if buf ! s1 = 0 then Some (None, None, buf)
               else
                 (case tok_skip False (drop s1 buf) delim of
                    None \<Rightarrow> None
                  | Some n \<Rightarrow>
                      let s2 = s1 + n in
                      if buf ! s2 \<noteq> 0 then Some (Some s1, Some (s2 + 1), buf[s2 := 0])
                      else Some (Some s1, None, buf))))"

text \<open>\<open>strsep\<close>: the offset of the first delimiter, and the buffer cut there.\<close>

fun sep_find :: "bytes \<Rightarrow> bytes \<Rightarrow> nat option option" where
  "sep_find [] delim = None"
| "sep_find (c # s) delim =
     (if c = 0 then Some None
      else case in_delim c delim of
        None \<Rightarrow> None
      | Some True \<Rightarrow> Some (Some 0)
      | Some False \<Rightarrow> map_option (map_option Suc) (sep_find s delim))"

definition strsep :: "bytes \<Rightarrow> nat option \<Rightarrow> bytes \<Rightarrow> (nat option \<times> nat option \<times> bytes) option" where
  "strsep buf stringp delim =
     (case stringp of
        None \<Rightarrow> Some (None, None, buf)
      | Some start \<Rightarrow>
          (case sep_find (drop start buf) delim of
             None \<Rightarrow> None
           | Some None \<Rightarrow> Some (Some start, None, buf)
           | Some (Some k) \<Rightarrow> Some (Some start, Some (start + k + 1), buf[start + k := 0])))"

subsection \<open>Numbers\<close>

definition digit_char :: "u8 \<Rightarrow> u64 \<Rightarrow> u8" where
  "digit_char alpha r = (if r > 9 then ucast (r - 10) + alpha else ucast r + 48)"

text \<open>The digit loop of \<open>itoa\<close> and \<open>itoa_hex\<close>, least significant digit first.\<close>

function num_digits :: "u8 \<Rightarrow> u64 \<Rightarrow> u64 \<Rightarrow> bytes" where
  "num_digits alpha base v =
     (if v = 0 \<or> base < 2 then []
      else digit_char alpha (v mod base) # num_digits alpha base (v div base))"
  by pat_completeness auto

termination num_digits
proof (relation "measure (\<lambda>(alpha, base, v). unat v)")
  fix alpha :: u8 and base v :: u64
  assume "\<not> (v = 0 \<or> base < 2)"
  then have "0 < unat v" "2 \<le> unat base"
    by (auto simp: word_less_nat_alt unat_gt_0 word_le_nat_alt not_less)
  then have "unat v div unat base < unat v" by (intro div_less_dividend) auto
  then show "((alpha, base, v div base), (alpha, base, v)) \<in> measure (\<lambda>(alpha, base, v). unat v)"
    by (simp add: unat_div)
qed simp

declare num_digits.simps [simp del]

text \<open>The loop that turns the buffer around in place.\<close>

function reverse_range :: "bytes \<Rightarrow> nat \<Rightarrow> nat \<Rightarrow> bytes" where
  "reverse_range buf st en =
     (if st < en then reverse_range (buf[st := buf ! en, en := buf ! st]) (st + 1) (en - 1) else buf)"
  by pat_completeness auto

termination reverse_range
  by (relation "measure (\<lambda>(buf, st, en). en - st)") auto

declare reverse_range.simps [simp del]

text \<open>
  \<open>itoa\<close> returns what it has written into the buffer, the terminator included; a base below 2 would
  divide by zero or not end (\<open>None\<close>). \<open>num\<close> is the 64-bit pattern of the signed argument.
\<close>

definition itoa :: "u64 \<Rightarrow> int \<Rightarrow> bytes option" where
  "itoa num base =
     (if num = 0 then Some [48, 0]
      else if base < 2 then None
      else
        let is_negative = (sint num < 0 \<and> base = 10);
            v = (if is_negative then - (num + 1) + 1 else num);
            buf = num_digits 97 (of_int base) v;
            buf' = (if is_negative then buf @ [45] else buf)
        in Some (reverse_range (buf' @ [0]) 0 (length buf' - 1)))"

definition itoa_hex :: "u64 \<Rightarrow> bytes" where
  "itoa_hex num =
     (if num = 0 then [48, 0]
      else let buf = num_digits 65 16 num
           in reverse_range (buf @ [0]) 0 (length buf - 1))"

definition is_space :: "u8 \<Rightarrow> bool" where
  "is_space c \<longleftrightarrow> c = 32 \<or> c = 9 \<or> c = 10 \<or> c = 13 \<or> c = 12 \<or> c = 11"

fun skip_space :: "bytes \<Rightarrow> bytes option" where
  "skip_space [] = None"
| "skip_space (c # s) = (if is_space c then skip_space s else Some (c # s))"

text \<open>The digit loop of \<open>atoi\<close> (\<open>w = 31\<close>) and \<open>atoll\<close> (\<open>w = 63\<close>); leaving \<open>w\<close> bits is overflow.\<close>

fun digits_value :: "nat \<Rightarrow> bytes \<Rightarrow> int \<Rightarrow> int option" where
  "digits_value w [] res = None"
| "digits_value w (c # s) res =
     (if 48 \<le> c \<and> c \<le> 57 then
        let res' = res * 10 + (uint c - 48)
        in if res' < 2 ^ w then digits_value w s res' else None
      else Some res)"

definition parse_int :: "nat \<Rightarrow> bytes \<Rightarrow> int option" where
  "parse_int w s =
     (case skip_space s of
        None \<Rightarrow> None
      | Some [] \<Rightarrow> None
      | Some (c # cs) \<Rightarrow>
          if c = 45 then map_option (\<lambda>res. - res) (digits_value w cs 0)
          else if c = 43 then digits_value w cs 0
          else digits_value w (c # cs) 0)"

definition atoi :: "bytes option \<Rightarrow> int option" where
  "atoi str = (case str of None \<Rightarrow> Some 0 | Some s \<Rightarrow> parse_int 31 s)"

definition atoll :: "bytes option \<Rightarrow> int option" where
  "atoll str = (case str of None \<Rightarrow> Some 0 | Some s \<Rightarrow> parse_int 63 s)"

subsection \<open>Correctness on well-formed strings\<close>

lemma strlen_cstr [simp]: "0 \<notin> set s \<Longrightarrow> strlen (s @ 0 # r) = Some (length s)"
  by (induction s) auto

lemma strcpy_cstr:
  "0 \<notin> set s \<Longrightarrow> length s < length d \<Longrightarrow> strcpy d (s @ 0 # r) = Some (s @ 0 # drop (Suc (length s)) d)"
proof (induction s arbitrary: d)
  case Nil
  then show ?case by (cases d) auto
next
  case (Cons c s)
  then show ?case by (cases d) auto
qed

lemma strcat_cstr:
  assumes "0 \<notin> set t" and "0 \<notin> set s" and "length s \<le> length room"
  shows "strcat (t @ 0 # room) (s @ 0 # r) = Some (t @ s @ 0 # drop (length s) room)"
  using assms strcpy_cstr [of s "0 # room" r] by (simp add: strcat_def)

lemma zero_fill_ok: "n \<le> length d \<Longrightarrow> zero_fill d n = Some (replicate n 0 @ drop n d)"
  by (induction d n rule: zero_fill.induct) auto

lemma strncpy_cstr:
  assumes "0 \<notin> set s" and "n \<le> length d"
  shows "strncpy d (s @ 0 # r) n = Some (take n s @ replicate (n - length s) 0 @ drop n d)"
  using assms
proof (induction s arbitrary: d n)
  case Nil
  show ?case
  proof (cases n)
    case (Suc k)
    with Nil.prems obtain x xs where "d = x # xs" by (cases d) auto
    with Suc Nil.prems zero_fill_ok [of n d] show ?thesis by simp
  qed simp
next
  case (Cons c s)
  show ?case
  proof (cases n)
    case (Suc k)
    with Cons.prems obtain x xs where "d = x # xs" by (cases d) auto
    with Suc Cons show ?thesis by simp
  qed simp
qed

lemma uint_pos: "b \<noteq> 0 \<Longrightarrow> 0 < uint (b :: u8)"
proof -
  have "0 \<le> uint b" by simp
  moreover assume "b \<noteq> 0"
  ultimately show ?thesis using uint_0_iff [of b] by linarith
qed

lemma strcmp_cstr:
  assumes "0 \<notin> set s" and "0 \<notin> set t"
  shows "\<exists>d. strcmp (s @ 0 # r) (t @ 0 # r') = Some d \<and> (d = 0 \<longleftrightarrow> s = t) \<and> (d < 0 \<longleftrightarrow> s < t)"
  using assms
proof (induction s arbitrary: t)
  case Nil
  show ?case
  proof (cases t)
    case (Cons b u)
    then have "0 < uint b" using Nil.prems uint_pos [of b] by auto
    then show ?thesis using Cons by simp
  qed simp
next
  case (Cons a s)
  show ?case
  proof (cases t)
    case Nil
    have "0 < uint a" using Cons.prems(1) uint_pos [of a] by auto
    then show ?thesis using Nil Cons.prems by auto
  next
    case (Cons b u)
    then show ?thesis
      using Cons.IH [of u] Cons.prems by (auto simp: word_less_alt dest: unsigned_word_eqI)
  qed
qed

lemma str_match_cstr:
  assumes "0 \<notin> set h" and "0 \<notin> set n"
  shows "\<exists>p2. str_match (h @ 0 # r) (n @ 0 # r') = Some p2 \<and> (hd p2 = 0 \<longleftrightarrow> prefix n h)"
  using assms
proof (induction h arbitrary: n)
  case Nil
  then show ?case by (cases n) auto
next
  case (Cons a h)
  then show ?case by (cases n) auto
qed

lemma Least_Suc_shift:
  assumes "\<not> P 0" and "P (Suc i)"
  shows "(LEAST i. P i) = Suc (LEAST i. P (Suc i))"
  by (rule Least_Suc) (use assms in auto)

lemma strstr_scan_cstr:
  assumes "0 \<notin> set h" and "0 \<notin> set n" and "n \<noteq> []"
  shows "strstr_scan (h @ 0 # r) (n @ 0 # r') =
    Some (if \<exists>i. prefix n (drop i h) then Some (LEAST i. prefix n (drop i h)) else None)"
  using assms(1)
proof (induction h)
  case Nil
  then show ?case using assms(3) by simp
next
  case (Cons c h)
  obtain p2 where p2: "str_match ((c # h) @ 0 # r) (n @ 0 # r') = Some p2" "hd p2 = 0 \<longleftrightarrow> prefix n (c # h)"
    using str_match_cstr [OF Cons.prems assms(2)] by blast
  show ?case
  proof (cases "prefix n (c # h)")
    case True
    then have "prefix n (drop 0 (c # h))" by simp
    moreover from this have "(LEAST i. prefix n (drop i (c # h))) = 0" by (rule Least_eq_0)
    ultimately show ?thesis using p2 True Cons.prems by (auto intro: exI [of _ 0])
  next
    case False
    have e: "(\<exists>i. prefix n (drop i (c # h))) \<longleftrightarrow> (\<exists>i. prefix n (drop i h))"
      using False by (metis drop_Suc_Cons drop0 not0_implies_Suc)
    have "(LEAST i. prefix n (drop i (c # h))) = Suc (LEAST i. prefix n (drop i h))"
      if "prefix n (drop j h)" for j
      using Least_Suc_shift [of "\<lambda>i. prefix n (drop i (c # h))" j] False that by simp
    then show ?thesis using p2 False Cons.IH Cons.prems unfolding e by auto
  qed
qed

text \<open>C13. \<open>strstr\<close> returns the first position at which the needle occurs in the haystack, and \<open>NULL\<close>
  exactly when it does not occur.\<close>

theorem strstr_first_occurrence:
  assumes "0 \<notin> set h" and "0 \<notin> set n"
  shows "strstr (h @ 0 # r) (n @ 0 # r') =
    Some (if \<exists>i. prefix n (drop i h) then Some (LEAST i. prefix n (drop i h)) else None)"
proof (cases n)
  case Nil
  have "(LEAST i. prefix [] (drop i h)) = 0" by (rule Least_eq_0) simp
  with Nil show ?thesis by (simp add: strstr_def)
next
  case (Cons c cs)
  then show ?thesis using strstr_scan_cstr [OF assms, of r r'] assms(2) by (simp add: strstr_def)
qed

theorem strstr_first_occurrence_witness:
  "strstr [97, 98, 97, 98, 99, 0] [98, 99, 0] = Some (Some 3) \<and>
   Some (Some 3) = Some (if \<exists>i. prefix [98, 99] (drop i [97, 98, 97, 98, 99 :: u8])
     then Some (LEAST i. prefix [98, 99] (drop i [97, 98, 97, 98, 99 :: u8])) else None)"
proof -
  have "strstr [97, 98, 97, 98, 99, 0] [98, 99, 0] = Some (Some 3)" by code_simp
  with strstr_first_occurrence [of "[97, 98, 97, 98, 99]" "[98, 99]" "[]" "[]"] show ?thesis by simp
qed

subsection \<open>Tokens\<close>

text \<open>What \<open>strtok\<close> should compute: the maximal runs without delimiters.\<close>

function tokens :: "(u8 \<Rightarrow> bool) \<Rightarrow> bytes \<Rightarrow> bytes list" where
  "tokens P s =
     (if dropWhile P s = [] then []
      else takeWhile (\<lambda>c. \<not> P c) (dropWhile P s) # tokens P (dropWhile (\<lambda>c. \<not> P c) (dropWhile P s)))"
  by pat_completeness auto

termination tokens
proof (relation "measure (\<lambda>(P, s). length s)")
  fix P :: "u8 \<Rightarrow> bool" and s :: bytes
  assume ne: "dropWhile P s \<noteq> []"
  then have "\<not> P (hd (dropWhile P s))" by (rule hd_dropWhile)
  with ne have "length (dropWhile (\<lambda>c. \<not> P c) (dropWhile P s)) < length (dropWhile P s)"
    by (cases "dropWhile P s") (auto simp: le_imp_less_Suc length_dropWhile_le)
  also have "\<dots> \<le> length s" by (rule length_dropWhile_le)
  finally show "((P, dropWhile (\<lambda>c. \<not> P c) (dropWhile P s)), P, s) \<in> measure (\<lambda>(P, s). length s)" by simp
qed simp

declare tokens.simps [simp del]

lemma in_delim_cstr: "0 \<notin> set d \<Longrightarrow> in_delim c (d @ 0 # r) = Some (c \<in> set d)"
  by (induction d) auto

lemma strpbrk_cstr:
  assumes "0 \<notin> set d" and "0 \<notin> set s"
  shows "\<exists>x. strpbrk (s @ 0 # r) (d @ 0 # r') = Some x \<and> (x = Some 0 \<longleftrightarrow> s \<noteq> [] \<and> hd s \<in> set d)"
  using assms(2)
proof (induction s)
  case (Cons c s)
  then show ?case using in_delim_cstr [OF assms(1)] by (cases "c \<in> set d") auto
qed simp

lemma tok_skip_cstr:
  assumes "0 \<notin> set d" and "0 \<notin> set s"
  shows "tok_skip want (s @ 0 # r) (d @ 0 # r') = Some (length (takeWhile (\<lambda>c. (c \<in> set d) = want) s))"
  using assms(2)
proof (induction s)
  case (Cons c s)
  then show ?case using strpbrk_cstr [OF assms(1), of "c # s" r r'] by auto
qed simp

text \<open>
  One call: with \<open>s\<close> the text from the position of the call on, \<open>strtok\<close> either finds no token or
  returns the first one, terminated in place, and resumes behind it.
\<close>

lemma strtok_step:
  assumes d: "0 \<notin> set d" and s: "0 \<notin> set s" and a: "a = length pre"
    and arg: "(if st = None then lst else st) = Some a"
  defines "sk \<equiv> dropWhile (\<lambda>c. c \<in> set d) s"
  defines "k \<equiv> length (takeWhile (\<lambda>c. c \<in> set d) s)"
  shows "sk = [] \<Longrightarrow> strtok (pre @ s @ 0 # r) st lst (d @ 0 # r') = Some (None, None, pre @ s @ 0 # r)"
    and "sk = tok @ c # post \<Longrightarrow> tok = takeWhile (\<lambda>c. c \<notin> set d) sk \<Longrightarrow> sk \<noteq> [] \<Longrightarrow>
      strtok (pre @ s @ 0 # r) st lst (d @ 0 # r') =
        Some (Some (a + k), Some (a + k + length tok + 1), pre @ take k s @ tok @ 0 # post @ 0 # r)"
    and "sk = takeWhile (\<lambda>c. c \<notin> set d) sk \<Longrightarrow> sk \<noteq> [] \<Longrightarrow>
      strtok (pre @ s @ 0 # r) st lst (d @ 0 # r') = Some (Some (a + k), None, pre @ s @ 0 # r)"
proof -
  let ?D = "d @ 0 # r'" and ?b = "pre @ s @ 0 # r"
  have sp: "s = take k s @ sk" unfolding sk_def k_def by (metis takeWhile_dropWhile_id takeWhile_eq_take)
  have kl: "k \<le> length s" by (simp add: k_def length_takeWhile_le)
  then have lk: "length (take k s) = k" by simp
  have dr: "drop (a + k) ?b = sk @ 0 # r"
  proof -
    have "drop (a + k) ?b = drop k (s @ 0 # r)" using a by simp
    also have "\<dots> = sk @ 0 # r" by (subst sp) (simp add: kl)
    finally show ?thesis .
  qed
  have nth: "?b ! (a + k + j) = (sk @ 0 # r) ! j" for j
  proof -
    have "drop (a + k) ?b ! j = ?b ! (a + k + j)" by (rule nth_drop) (use kl in \<open>simp add: a\<close>)
    with dr show ?thesis by simp
  qed
  have s0: "0 \<notin> set sk" using s unfolding sk_def by (auto dest: set_dropWhileD)
  have t1: "tok_skip True (drop a ?b) ?D = Some k"
    using tok_skip_cstr [OF d s, of True r r'] by (simp add: a k_def)
  have t2: "tok_skip False (drop (a + k) ?b) ?D = Some (length (takeWhile (\<lambda>c. c \<notin> set d) sk))"
    unfolding dr using tok_skip_cstr [OF d s0, of False r r'] by simp
  show "sk = [] \<Longrightarrow> strtok ?b st lst ?D = Some (None, None, ?b)"
    using arg t1 nth [of 0] by (simp add: strtok_def)
  { assume sk: "sk = tok @ c # post" "tok = takeWhile (\<lambda>c. c \<notin> set d) sk" "sk \<noteq> []"
    have z: "?b ! (a + k) \<noteq> 0" using nth [of 0] sk(3) s0 by (cases sk) auto
    have c: "?b ! (a + k + length tok) = c" using nth [of "length tok"] sk(1) by (simp add: nth_append)
    have "c \<noteq> 0" using s0 sk(1) by auto
    have "?b[a + k + length tok := 0] = pre @ take k s @ tok @ 0 # post @ 0 # r"
    proof -
      have "?b = (pre @ take k s @ tok) @ c # post @ 0 # r" by (subst sp) (simp add: sk(1))
      moreover have "a + k + length tok = length (pre @ take k s @ tok)" using kl by (simp add: a)
      ultimately show ?thesis by (simp only: list_update_length) simp
    qed
    then show "strtok ?b st lst ?D =
        Some (Some (a + k), Some (a + k + length tok + 1), pre @ take k s @ tok @ 0 # post @ 0 # r)"
      using arg t1 t2 z c \<open>c \<noteq> 0\<close> sk(2) by (simp add: strtok_def Let_def) }
  { assume sk: "sk = takeWhile (\<lambda>c. c \<notin> set d) sk" "sk \<noteq> []"
    have z: "?b ! (a + k) \<noteq> 0" using nth [of 0] sk(2) s0 by (cases sk) auto
    have c: "?b ! (a + k + length sk) = 0" using nth [of "length sk"] by (simp add: nth_append)
    show "strtok ?b st lst ?D = Some (Some (a + k), None, ?b)"
      using arg t1 t2 z c sk(1) by (simp add: strtok_def Let_def) }
qed

text \<open>The usual loop around \<open>strtok\<close>: the first call gets the string, the others \<open>NULL\<close>.\<close>

fun strtok_all :: "nat \<Rightarrow> bytes \<Rightarrow> nat option \<Rightarrow> nat option \<Rightarrow> bytes \<Rightarrow> bytes list option" where
  "strtok_all 0 buf st lst delim = None"
| "strtok_all (Suc n) buf st lst delim =
     (case strtok buf st lst delim of
        None \<Rightarrow> None
      | Some (None, _, _) \<Rightarrow> Some []
      | Some (Some t, lst', buf') \<Rightarrow>
          map_option (Cons (takeWhile (\<lambda>c. c \<noteq> 0) (drop t buf'))) (strtok_all n buf' None lst' delim))"

lemma tokens_delim: "P c \<Longrightarrow> tokens P (c # s) = tokens P s"
  by (subst (1 2) tokens.simps) simp

lemma takeWhile_cstr: "0 \<notin> set s \<Longrightarrow> takeWhile (\<lambda>c. c \<noteq> 0) (s @ 0 # r) = s"
  by (induction s) auto

lemma strtok_all_tokens:
  assumes d: "0 \<notin> set d"
  shows "0 \<notin> set s \<Longrightarrow> length s + 2 \<le> n \<Longrightarrow> (if st = None then lst else st) = Some (length pre) \<Longrightarrow>
    strtok_all n (pre @ s @ 0 # r) st lst (d @ 0 # r') = Some (tokens (\<lambda>c. c \<in> set d) s)"
proof (induction "length s" arbitrary: s n st lst pre rule: less_induct)
  case less
  let ?P = "\<lambda>c. c \<in> set d" and ?b = "pre @ s @ 0 # r" and ?D = "d @ 0 # r'"
  define sk where "sk = dropWhile ?P s"
  define k where "k = length (takeWhile ?P s)"
  obtain n' where n: "n = Suc (Suc n')" using less.prems(2) by (metis add_2_eq_Suc' le_iff_add add_Suc)
  note step = strtok_step [OF d less.prems(1) refl less.prems(3), folded sk_def k_def, where r = r and r' = r']
  have kl: "k \<le> length s" by (simp add: k_def length_takeWhile_le)
  have sp: "s = take k s @ sk" unfolding sk_def k_def by (metis takeWhile_dropWhile_id takeWhile_eq_take)
  have s0: "0 \<notin> set sk" using less.prems(1) unfolding sk_def by (auto dest: set_dropWhileD)
  define tok where "tok = takeWhile (\<lambda>c. \<not> ?P c) sk"
  have tks: "tokens ?P s = (if sk = [] then [] else tok # tokens ?P (dropWhile (\<lambda>c. \<not> ?P c) sk))"
    by (subst tokens.simps) (simp add: sk_def tok_def)
  have t0: "0 \<notin> set tok" using s0 unfolding tok_def by (auto dest: set_takeWhileD)
  have sktok: "sk = tok @ dropWhile (\<lambda>c. \<not> ?P c) sk" by (simp add: tok_def)
  consider "sk = []" | (end_) "sk \<noteq> []" "dropWhile (\<lambda>c. \<not> ?P c) sk = []"
    | (mid) c post where "sk \<noteq> []" "dropWhile (\<lambda>c. \<not> ?P c) sk = c # post"
    by (cases "dropWhile (\<lambda>c. \<not> ?P c) sk") auto
  then show ?case
  proof cases
    case 1
    with step(1) tks n show ?thesis by simp
  next
    case end_
    then have e: "sk = tok" using sktok by (metis append_Nil2)
    have "strtok ?b st lst ?D = Some (Some (length pre + k), None, ?b)"
      using e [unfolded tok_def] end_(1) by (rule step(3))
    moreover have "drop (length pre + k) ?b = tok @ 0 # r"
      by (subst sp) (use kl e in simp)
    moreover have "strtok ?b None None ?D = Some (None, None, ?b)" by (simp add: strtok_def)
    moreover have "tokens ?P [] = []" by (subst tokens.simps) simp
    ultimately show ?thesis using n tks end_ takeWhile_cstr [OF t0] by simp
  next
    case mid
    let ?pre = "pre @ take k s @ tok @ [0]"
    have sk: "sk = tok @ c # post" using sktok mid(2) by simp
    have "strtok ?b st lst ?D = Some (Some (length pre + k), Some (length ?pre), ?pre @ post @ 0 # r)"
      using step(2) [OF sk] mid(1) kl by (simp add: tok_def)
    moreover have "drop (length pre + k) (?pre @ post @ 0 # r) = tok @ 0 # post @ 0 # r"
      using kl by simp
    moreover have "strtok_all (Suc n') (?pre @ post @ 0 # r) None (Some (length ?pre)) ?D =
        Some (tokens ?P post)"
    proof (rule less.hyps)
      have "length s = k + length tok + 1 + length post" by (subst sp) (use kl sk in simp)
      then show "length post < length s" "length post + 2 \<le> Suc n'" using less.prems(2) n by simp_all
      show "0 \<notin> set post" using s0 sk by auto
    qed simp
    moreover have "?P c" using mid(2) by (metis hd_dropWhile list.sel(1) list.simps(3))
    then have "tokens ?P (c # post) = tokens ?P post" by (rule tokens_delim)
    ultimately show ?thesis using n tks mid takeWhile_cstr [OF t0] by simp
  qed
qed

text \<open>C14. Calling \<open>strtok\<close> until it returns \<open>NULL\<close> yields exactly the maximal runs of characters that
  are not delimiters, in order; the loop needs at most one call more than there are characters, plus one.\<close>

theorem strtok_splits:
  assumes "0 \<notin> set d" and "0 \<notin> set s"
  shows "strtok_all (length s + 2) (s @ 0 # r) (Some 0) lst (d @ 0 # r') = Some (tokens (\<lambda>c. c \<in> set d) s)"
  using strtok_all_tokens [OF assms, of "length s + 2" "Some 0" lst "[]"] by simp

theorem strtok_splits_witness:
  "strtok_all 8 [32, 97, 98, 32, 32, 99, 0] (Some 0) None [32, 0] = Some [[97, 98], [99]] \<and>
   tokens (\<lambda>c. c \<in> set [32]) [32, 97, 98, 32, 32, 99] = [[97, 98], [99]]"
proof -
  have "strtok_all 8 [32, 97, 98, 32, 32, 99, 0] (Some 0) None [32, 0] = Some [[97, 98], [99]]" by code_simp
  moreover have "length [32, 97, 98, 32, 32, 99 :: u8] + 2 = 8" by simp
  moreover have "0 \<notin> set [32 :: u8]" "0 \<notin> set [32, 97, 98, 32, 32, 99 :: u8]" by simp_all
  from strtok_splits [OF this, of "[]" None "[]"]
  have "strtok_all (length [32, 97, 98, 32, 32, 99 :: u8] + 2) [32, 97, 98, 32, 32, 99, 0] (Some 0) None [32, 0] =
      Some (tokens (\<lambda>c. c \<in> set [32]) [32, 97, 98, 32, 32, 99])" by (simp only: append.simps)
  ultimately show ?thesis by (simp only: option.inject)
qed

subsection \<open>Numbers\<close>

lemma reverse_range_rev:
  "reverse_range (pre @ mid @ post) (length pre) (length pre + length mid - 1) = pre @ rev mid @ post"
proof (induction "length mid" arbitrary: pre mid post rule: less_induct)
  case less
  show ?case
  proof (cases "length mid \<ge> 2")
    case False
    then obtain "mid = [] \<or> (\<exists>x. mid = [x])" by (cases mid rule: list.exhaust; cases "tl mid") auto
    then show ?thesis by (subst reverse_range.simps) auto
  next
    case True
    then obtain x m y where mid: "mid = x # m @ [y]"
      by (cases mid; cases "tl mid" rule: rev_cases) auto
    let ?n = "length pre"
    have upd: "(pre @ mid @ post)[?n := y, ?n + length mid - 1 := x] = (pre @ [y]) @ m @ x # post"
      by (simp add: mid list_update_append)
    have nth: "(pre @ mid @ post) ! ?n = x" "(pre @ mid @ post) ! (?n + length mid - 1) = y"
      by (simp_all add: mid nth_append)
    have "reverse_range (pre @ mid @ post) ?n (?n + length mid - 1) =
        reverse_range ((pre @ [y]) @ m @ x # post) (length (pre @ [y])) (length (pre @ [y]) + length m - 1)"
      by (subst reverse_range.simps) (use True upd nth in \<open>simp add: mid\<close>)
    also have "\<dots> = (pre @ [y]) @ rev m @ x # post" by (rule less.hyps) (simp add: mid)
    finally show ?thesis by (simp add: mid)
  qed
qed

lemma reverse_buf: "reverse_range (buf @ [0]) 0 (length buf - 1) = rev buf @ [0]"
  using reverse_range_rev [of "[]" buf "[0]"] by simp

lemma digit_char_dec:
  assumes "r < 10"
  shows "uint (digit_char a r) = uint r + 48" and "48 \<le> digit_char a r \<and> digit_char a r \<le> 57"
proof -
  have "unat r < 10" using assms by (simp add: word_less_nat_alt)
  moreover have "r = of_nat (unat r)" by simp
  ultimately obtain n where n: "r = of_nat n" "n < 10" by blast
  have "\<forall>k \<in> set [0..<10]. \<not> 9 < (of_nat k :: u64) \<and> uint (ucast (of_nat k :: u64) + 48 :: u8) = uint (of_nat k :: u64) + 48 \<and>
      48 \<le> (ucast (of_nat k :: u64) + 48 :: u8) \<and> (ucast (of_nat k :: u64) + 48 :: u8) \<le> 57" by code_simp
  then show "uint (digit_char a r) = uint r + 48" and "48 \<le> digit_char a r \<and> digit_char a r \<le> 57"
    using n by (simp_all add: digit_char_def)
qed

lemma num_digits_value:
  assumes "uint v < 2 ^ w"
  shows "digits_value w (rev (num_digits a 10 v) @ t) 0 = digits_value w t (uint v)"
  using assms
proof (induction a "10 :: u64" v arbitrary: t rule: num_digits.induct)
  case (1 a v)
  show ?case
  proof (cases "v = 0")
    case True
    then show ?thesis by (simp add: num_digits.simps)
  next
    case False
    let ?r = "v mod 10"
    have r: "?r < 10" by (simp add: word_mod_less_divisor)
    note dc = digit_char_dec [OF r, of a]
    have e: "uint (v div 10) * 10 + uint ?r = uint v"
      by (simp add: uint_div uint_mod)
    have "0 \<le> uint (v div 10)" "0 \<le> uint ?r" by simp_all
    then have "uint (v div 10) \<le> uint v" using e by linarith
    then have "digits_value w (rev (num_digits a 10 (v div 10)) @ digit_char a ?r # t) 0 =
        digits_value w (digit_char a ?r # t) (uint (v div 10))"
      using False 1 by (intro "1.hyps") auto
    also have "\<dots> = digits_value w t (uint v)"
      using dc e "1.prems" by (simp add: Let_def)
    finally show ?thesis using False by (subst num_digits.simps) simp
  qed
qed

lemma num_digits_0 [simp]: "num_digits a b 0 = []"
  by (subst num_digits.simps) simp

lemma num_digits_ne: "v \<noteq> 0 \<Longrightarrow> num_digits a 10 v \<noteq> []"
  by (subst num_digits.simps) simp

lemma num_digits_dec: "c \<in> set (num_digits a 10 v) \<Longrightarrow> 48 \<le> c \<and> c \<le> 57"
proof (induction a "10 :: u64" v rule: num_digits.induct)
  case (1 a v)
  have "v mod 10 < 10" by (simp add: word_mod_less_divisor)
  with 1 digit_char_dec(2) [of "v mod 10" a] show ?case
    by (cases "v = 0") (auto simp: num_digits.simps [of a 10 v])
qed

lemma parse_digits:
  assumes "v \<noteq> 0" and "uint v < 2 ^ w"
  shows "parse_int w (rev (num_digits a 10 v) @ [0]) = Some (uint v)"
    and "parse_int w (45 # rev (num_digits a 10 v) @ [0]) = Some (- uint v)"
proof -
  let ?ds = "rev (num_digits a 10 v)"
  have val: "digits_value w (?ds @ [0]) 0 = Some (uint v)"
    using num_digits_value [OF assms(2), of a "[0]"] by simp
  obtain c cs where ds: "?ds = c # cs" using num_digits_ne [OF assms(1), of a] by (cases ?ds) auto
  have "c \<in> set (num_digits a 10 v)" using ds by (metis list.set_intros(1) set_rev)
  then have c: "48 \<le> c" using num_digits_dec by blast
  then have nc: "c \<noteq> 45" "c \<noteq> 43" "\<not> is_space c" by (auto simp: is_space_def)
  show "parse_int w (?ds @ [0]) = Some (uint v)"
    using val nc by (simp add: parse_int_def ds)
  show "parse_int w (45 # ?ds @ [0]) = Some (- uint v)"
    using val by (simp add: parse_int_def is_space_def)
qed

text \<open>C15. Printing a number with \<open>itoa\<close> in base 10 and reading it back with \<open>atoll\<close> gives the number,
  for every 64-bit value but the smallest one, whose magnitude \<open>atoll\<close> cannot hold.\<close>

theorem itoa_atoll_roundtrip:
  assumes "sint num \<noteq> - (2 ^ 63)"
  shows "\<exists>buf. itoa num 10 = Some buf \<and> atoll (Some buf) = Some (sint num)"
proof (cases "num = 0")
  case True
  have "atoll (Some [48, 0]) = Some 0" by code_simp
  with True show ?thesis by (simp add: itoa_def)
next
  case False
  have rng: "- (2 ^ 63) \<le> sint num" "sint num < 2 ^ 63"
    using sint_greater_eq [of num] sint_less [of num] by simp_all
  show ?thesis
  proof (cases "sint num < 0")
    case True
    have v: "uint (- num) = - sint num"
    proof -
      have "uint (- num) = (- sint num) mod 2 ^ 64"
        by (simp add: uint_word_ariths sint_uint signed_take_bit_eq_take_bit_minus take_bit_eq_mod mod_simps)
      then show ?thesis using True assms rng by simp
    qed
    have "uint (- num) < 2 ^ 63" using v rng assms by linarith
    moreover have "- num \<noteq> 0" using False by simp
    ultimately have "parse_int 63 (45 # rev (num_digits 97 10 (- num)) @ [0]) = Some (sint num)"
      using parse_digits(2) [of "- num" 63 97] v by simp
    moreover have "itoa num 10 = Some (45 # rev (num_digits 97 10 (- num)) @ [0])"
      using False True reverse_buf [of "num_digits 97 10 (- num) @ [45]"]
      by (simp add: itoa_def Let_def)
    ultimately show ?thesis by (simp add: atoll_def)
  next
    case nonneg: False
    have "uint num < 2 ^ LENGTH(64)" by (rule unsigned_less)
    then have "uint num = sint num mod 2 ^ 64"
      by (simp add: sint_uint signed_take_bit_eq_take_bit_minus take_bit_eq_mod mod_simps)
    then have v: "uint num = sint num" using nonneg rng by simp
    then have "parse_int 63 (rev (num_digits 97 10 num) @ [0]) = Some (sint num)"
      using parse_digits(1) [OF False, of 63 97] rng by simp
    moreover have "itoa num 10 = Some (rev (num_digits 97 10 num) @ [0])"
      using False nonneg reverse_buf [of "num_digits 97 10 num"] by (simp add: itoa_def Let_def)
    ultimately show ?thesis by (simp add: atoll_def)
  qed
qed

theorem itoa_atoll_roundtrip_witness:
  "itoa (- 1207) 10 = Some [45, 49, 50, 48, 55, 0] \<and> atoll (Some [45, 49, 50, 48, 55, 0]) = Some (- 1207)"
proof -
  have "itoa (- 1207) 10 = Some [45, 49, 50, 48, 55, 0]" by code_simp
  with itoa_atoll_roundtrip [of "- 1207"] show ?thesis by simp
qed

end
