(* ===== verification/Kstdio.thy ===== *)
theory Kstdio
  imports Kstring
begin

section \<open>Formatted output (\<open>libs/stdio.c\<close>)\<close>

text \<open>
  \<open>vsnprintf\<close> with its parser for \<open>%[0][width][l[l]]conversion\<close>. The variable arguments are a list of
  typed values, so that taking an argument of the wrong type, or one too many, is \<open>None\<close>, like reading
  past the format string. What has been written to the buffer is the list \<open>out\<close>; \<open>written\<close> is its length.
\<close>

datatype varg = VInt u32 | VLong u64 | VStr "bytes option"

definition is_digit :: "u8 \<Rightarrow> bool" where
  "is_digit c \<longleftrightarrow> 48 \<le> c \<and> c \<le> 57"

fun fmt_width :: "bytes \<Rightarrow> int \<Rightarrow> (int \<times> bytes) option" where
  "fmt_width [] width = None"
| "fmt_width (c # f) width =
     (if is_digit c then
        let w = width * 10 + (uint c - 48) in if w < 2 ^ 31 then fmt_width f w else None
      else Some (width, c # f))"

text \<open>The part between the percent sign and the conversion: padding, width, long modifier.\<close>

definition fmt_spec :: "bytes \<Rightarrow> (u8 \<times> int \<times> bool \<times> bytes) option" where
  "fmt_spec f =
     (case f of
        [] \<Rightarrow> None
      | c # f0 \<Rightarrow>
          let (pad, f1) = (if c = 48 then (48, f0) else (32, f)) in
          (case fmt_width f1 0 of
             None \<Rightarrow> None
           | Some (width, f2) \<Rightarrow>
               (case f2 of
                  [] \<Rightarrow> None
                | c2 # f3 \<Rightarrow>
                    if c2 = 108 then
                      (case f3 of
                         [] \<Rightarrow> None
                       | c3 # f4 \<Rightarrow> Some (pad, width, True, if c3 = 108 then f4 else f3))
                    else Some (pad, width, False, f2))))"

fun pad_out :: "nat \<Rightarrow> nat \<Rightarrow> u8 \<Rightarrow> bytes \<Rightarrow> bytes" where
  "pad_out 0 max_chars pad out = out"
| "pad_out (Suc k) max_chars pad out =
     (if length out < max_chars then pad_out k max_chars pad (out @ [pad]) else out)"

fun put_str :: "bytes \<Rightarrow> nat \<Rightarrow> bytes \<Rightarrow> bytes option" where
  "put_str [] max_chars out = None"
| "put_str (c # s) max_chars out =
     (if c \<noteq> 0 \<and> length out < max_chars then put_str s max_chars (out @ [c]) else Some out)"

definition null_str :: bytes where
  "null_str = [40, 110, 117, 108, 108, 41, 0]"

fun take_long :: "varg list \<Rightarrow> (u64 \<times> varg list) option" where
  "take_long (VLong v # args) = Some (v, args)"
| "take_long _ = None"

fun take_int :: "varg list \<Rightarrow> (u32 \<times> varg list) option" where
  "take_int (VInt v # args) = Some (v, args)"
| "take_int _ = None"

fun take_str :: "varg list \<Rightarrow> (bytes \<times> varg list) option" where
  "take_str (VStr (Some s) # args) = Some (s, args)"
| "take_str (VStr None # args) = Some (null_str, args)"
| "take_str _ = None"

text \<open>The conversion \<open>c\<close>: new output and remaining arguments.\<close>

definition convert :: "nat \<Rightarrow> u8 \<Rightarrow> u8 \<Rightarrow> int \<Rightarrow> bool \<Rightarrow> varg list \<Rightarrow> bytes \<Rightarrow> (bytes \<times> varg list) option" where
  "convert max_chars c pad width is_long args out =
     (if c \<in> {117, 100, 120, 88, 112} then
        (case (if c = 112 \<or> is_long then take_long args
               else map_option (\<lambda>(v, r). (ucast v, r)) (take_int args)) of
           None \<Rightarrow> None
         | Some (val, args') \<Rightarrow>
             (case (if c = 112 \<or> c = 120 \<or> c = 88 then Some (itoa_hex val) else itoa val 10) of
                None \<Rightarrow> None
              | Some temp_buf \<Rightarrow>
                  (case strlen temp_buf of
                     None \<Rightarrow> None
                   | Some len \<Rightarrow>
                       map_option (\<lambda>o'. (o', args'))
                         (put_str temp_buf max_chars
                            (pad_out (nat (width - int len)) max_chars pad out)))))
      else if c = 115 then
        (case take_str args of
           None \<Rightarrow> None
         | Some (s, args') \<Rightarrow> map_option (\<lambda>o'. (o', args')) (put_str s max_chars out))
      else if c = 99 then
        map_option (\<lambda>(v, args'). (out @ [ucast v], args')) (take_int args)
      else if c = 37 then Some (out @ [37], args)
      else Some (out, args))"

lemma fmt_width_shorter: "fmt_width f w = Some (w', f') \<Longrightarrow> length f' \<le> length f"
  by (induction f w rule: fmt_width.induct) (auto simp: Let_def split: if_splits)

lemma fmt_spec_shorter: "fmt_spec f = Some (pad, w, l, f') \<Longrightarrow> length f' \<le> length f"
  by (auto simp: fmt_spec_def Let_def split: list.splits option.splits if_splits
      dest!: fmt_width_shorter)

function vsn_loop :: "nat \<Rightarrow> bytes \<Rightarrow> varg list \<Rightarrow> bytes \<Rightarrow> bytes option" where
  "vsn_loop max_chars f args out =
     (case f of
        [] \<Rightarrow> None
      | c # f1 \<Rightarrow>
          if c = 0 \<or> \<not> length out < max_chars then Some out
          else if c \<noteq> 37 then vsn_loop max_chars f1 args (out @ [c])
          else
            (case fmt_spec f1 of
               None \<Rightarrow> None
             | Some (pad, width, is_long, f2) \<Rightarrow>
                 (case f2 of
                    [] \<Rightarrow> None
                  | c2 # f3 \<Rightarrow>
                      (case convert max_chars c2 pad width is_long args out of
                         None \<Rightarrow> None
                       | Some (out', args') \<Rightarrow>
                           vsn_loop max_chars (if c2 \<noteq> 0 then f3 else f2) args' out'))))"
  by pat_completeness auto

termination vsn_loop
  by (relation "measure (\<lambda>(mx, f, args, out). length f)")
    (auto dest!: fmt_spec_shorter split: if_splits)

declare vsn_loop.simps [simp del]

text \<open>The buffer after \<open>vsnprintf\<close> (what was written and the terminator) and the result.\<close>

definition vsnprintf :: "nat \<Rightarrow> bytes \<Rightarrow> varg list \<Rightarrow> (bytes \<times> nat) option" where
  "vsnprintf sz format args =
     (if sz = 0 then Some ([], 0)
      else map_option (\<lambda>out. (out @ [0], length out)) (vsn_loop (sz - 1) format args []))"

definition vsprintf :: "bytes \<Rightarrow> varg list \<Rightarrow> (bytes \<times> nat) option" where
  "vsprintf format args = vsnprintf (2 ^ 64 - 1) format args"

text \<open>\<open>printf\<close>: the text handed to \<open>term_print\<close>.\<close>

definition printf :: "bytes \<Rightarrow> varg list \<Rightarrow> bytes option" where
  "printf format args = map_option fst (vsnprintf 1024 format args)"

subsection \<open>The number buffers\<close>

text \<open>The text of a number, without the terminator.\<close>

definition decimal :: "u64 \<Rightarrow> bytes" where
  "decimal v = (if v = 0 then [48]
     else if sint v < 0 then 45 # rev (num_digits 97 10 (- v)) else rev (num_digits 97 10 v))"

definition hexadecimal :: "u64 \<Rightarrow> bytes" where
  "hexadecimal v = (if v = 0 then [48] else rev (num_digits 65 16 v))"

lemma digit_char_hex:
  assumes "r < 16"
  shows "digit_char 65 r \<noteq> 0"
proof -
  have "unat r < 16" using assms by (simp add: word_less_nat_alt)
  moreover have "r = of_nat (unat r)" by simp
  ultimately obtain n where n: "r = of_nat n" "n < 16" by blast
  have "\<forall>k \<in> set [0..<16]. digit_char 65 (of_nat k) \<noteq> 0" by code_simp
  then show ?thesis using n by simp
qed

lemma num_digits_hex: "0 \<notin> set (num_digits 65 16 v)"
proof (induction "65 :: u8" "16 :: u64" v rule: num_digits.induct)
  case (1 v)
  have "v mod 16 < 16" by (simp add: word_mod_less_divisor)
  with 1 digit_char_hex [of "v mod 16"] show ?case
    by (cases "v = 0") (auto simp: num_digits.simps [of 65 16 v])
qed

lemma num_digits_dec_nz: "0 \<notin> set (num_digits a 10 v)"
  using num_digits_dec [of 0 a v] by auto

lemma itoa_decimal: "itoa v 10 = Some (decimal v @ [0])" "0 \<notin> set (decimal v)"
  using reverse_buf [of "num_digits 97 10 (- v) @ [45]"] reverse_buf [of "num_digits 97 10 v"]
    num_digits_dec_nz
  by (auto simp: itoa_def decimal_def Let_def)

lemma itoa_hexadecimal: "itoa_hex v = hexadecimal v @ [0]" "0 \<notin> set (hexadecimal v)"
  using reverse_buf [of "num_digits 65 16 v"] num_digits_hex
  by (auto simp: itoa_hex_def hexadecimal_def Let_def)

lemma num_digits_length:
  assumes "2 \<le> unat b" and "unat v < unat b ^ k"
  shows "length (num_digits a b v) \<le> k"
  using assms
proof (induction k arbitrary: v)
  case 0
  then have "v = 0" by (simp add: unat_eq_zero)
  then show ?case by simp
next
  case (Suc k)
  have "unat (v div b) < unat b ^ k"
    using Suc.prems by (simp add: unat_div less_mult_imp_div_less mult.commute)
  then show ?case using Suc.IH [of "v div b"] Suc.prems(1) by (subst num_digits.simps) simp
qed

text \<open>Every number fits the temporary buffer of 64 bytes, sign and terminator included.\<close>

theorem number_buffers_fit: "length (itoa_hex v) \<le> 17 \<and> (\<exists>buf. itoa v 10 = Some buf \<and> length buf \<le> 22)"
proof -
  have u: "unat w < 2 ^ 64" for w :: u64 using unat_less [of w] by simp
  have "length (num_digits 97 10 w) \<le> 20" for w
    by (rule num_digits_length) (use u [of w] in simp_all)
  from this [of v] this [of "- v"] have "length (decimal v) \<le> 21" by (auto simp: decimal_def)
  moreover have "length (num_digits 65 16 v) \<le> 16"
    by (rule num_digits_length) (use u [of v] in simp_all)
  then have "length (hexadecimal v) \<le> 16" by (simp add: hexadecimal_def)
  ultimately show ?thesis by (simp add: itoa_decimal itoa_hexadecimal)
qed

subsection \<open>Bounds\<close>

lemma pad_out_length: "length out \<le> mx \<Longrightarrow> length (pad_out k mx pad out) \<le> mx"
  by (induction k mx pad out rule: pad_out.induct) auto

lemma put_str_length: "put_str s mx out = Some out' \<Longrightarrow> length out \<le> mx \<Longrightarrow> length out' \<le> mx"
  by (induction s mx out rule: put_str.induct) (auto split: if_splits)

lemma convert_length:
  assumes "convert mx c pad width l args out = Some (out', args')" and "length out < mx"
  shows "length out' \<le> mx"
  using assms pad_out_length [of out mx] put_str_length
  by (fastforce simp: convert_def split: if_splits option.splits prod.splits)

lemma vsn_loop_stop: "c = 0 \<or> \<not> length out < mx \<Longrightarrow> vsn_loop mx (c # f) args out = Some out"
  by (subst vsn_loop.simps) simp

lemma vsn_loop_char:
  "c \<noteq> 0 \<Longrightarrow> c \<noteq> 37 \<Longrightarrow> length out < mx \<Longrightarrow> vsn_loop mx (c # f) args out = vsn_loop mx f args (out @ [c])"
  by (subst vsn_loop.simps) simp

lemma vsn_loop_length:
  "vsn_loop mx f args out = Some out' \<Longrightarrow> length out \<le> mx \<Longrightarrow> length out' \<le> mx"
proof (induction mx f args out rule: vsn_loop.induct)
  case (1 mx f args out)
  show ?case
  proof (cases f)
    case Nil
    with "1.prems"(1) show ?thesis by (simp add: vsn_loop.simps)
  next
    case (Cons c f1)
    show ?thesis
    proof (cases "c = 0 \<or> \<not> length out < mx")
      case True
      with "1.prems" Cons vsn_loop_stop [of c out mx f1 args] show ?thesis by simp
    next
      case run: False
      show ?thesis
      proof (cases "c = 37")
        case False
        with "1.prems"(1) Cons run have "vsn_loop mx f1 args (out @ [c]) = Some out'"
          using vsn_loop_char [of c out mx f1 args] by simp
        with "1.IH"(1) [OF Cons] run False show ?thesis by simp
      next
        case True
        obtain pad w l f2 c2 f3 out1 args1 where sp: "fmt_spec f1 = Some (pad, w, l, f2)" "f2 = c2 # f3"
          and cv: "convert mx c2 pad w l args out = Some (out1, args1)"
          and rest: "vsn_loop mx (if c2 \<noteq> 0 then f3 else f2) args1 out1 = Some out'"
          using "1.prems"(1) Cons run True
          by (auto simp: vsn_loop.simps [of mx "37 # f1"] split: option.splits prod.splits list.splits)
        have "length out1 \<le> mx" by (rule convert_length [OF cv]) (use run in simp)
        with "1.IH"(2) [OF Cons _ _ sp(1) refl refl refl sp(2) cv refl] run True rest show ?thesis by auto
      qed
    qed
  qed
qed

text \<open>C16. \<open>vsnprintf\<close> never writes outside the buffer: for every format and all arguments, what it writes,
  the terminating zero included, fits into the given size, and the result is the length of the text.\<close>

theorem vsnprintf_bounds:
  assumes "vsnprintf sz format args = Some (buf, n)" and "0 < sz"
  shows "length buf \<le> sz \<and> n < sz \<and> buf = take n buf @ [0] \<and> length buf = n + 1"
  using assms vsn_loop_length [of "sz - 1" format args "[]"] by (auto simp: vsnprintf_def)

theorem vsnprintf_bounds_witness:
  "vsnprintf 4 [37, 115, 33, 0] [VStr (Some [97, 98, 99, 100, 101, 0])] = Some ([97, 98, 99, 0], 3) \<and>
   length [97, 98, 99, 0 :: u8] \<le> 4"
proof -
  have "vsnprintf 4 [37, 115, 33, 0] [VStr (Some [97, 98, 99, 100, 101, 0])] = Some ([97, 98, 99, 0], 3)"
    by code_simp
  with vsnprintf_bounds [of 4 "[37, 115, 33, 0]"] show ?thesis by simp
qed

subsection \<open>What the conversions print\<close>

text \<open>
  A format as a list of pieces: literal text, \<open>%s\<close>, \<open>%d\<close> or \<open>%u\<close> (an \<open>int\<close>), \<open>%ld\<close> (64 bits), \<open>%x\<close>,
  \<open>%c\<close>, with the text each of them stands for.
\<close>

datatype piece = Lit bytes | Str bytes | Dec u32 | Unsigned u32 | LDec u64 | Hex u32 | Chr u8

fun piece_ok :: "piece \<Rightarrow> bool" where
  "piece_ok (Lit s) \<longleftrightarrow> 0 \<notin> set s \<and> 37 \<notin> set s"
| "piece_ok (Str s) \<longleftrightarrow> 0 \<notin> set s"
| "piece_ok _ \<longleftrightarrow> True"

fun piece_fmt :: "piece \<Rightarrow> bytes" where
  "piece_fmt (Lit s) = s"
| "piece_fmt (Str s) = [37, 115]"
| "piece_fmt (Dec v) = [37, 100]"
| "piece_fmt (Unsigned v) = [37, 117]"
| "piece_fmt (LDec v) = [37, 108, 100]"
| "piece_fmt (Hex v) = [37, 120]"
| "piece_fmt (Chr c) = [37, 99]"

fun piece_args :: "piece \<Rightarrow> varg list" where
  "piece_args (Lit s) = []"
| "piece_args (Str s) = [VStr (Some (s @ [0]))]"
| "piece_args (Dec v) = [VInt v]"
| "piece_args (Unsigned v) = [VInt v]"
| "piece_args (LDec v) = [VLong v]"
| "piece_args (Hex v) = [VInt v]"
| "piece_args (Chr c) = [VInt (ucast c)]"

fun piece_text :: "piece \<Rightarrow> bytes" where
  "piece_text (Lit s) = s"
| "piece_text (Str s) = s"
| "piece_text (Dec v) = decimal (ucast v)"
| "piece_text (Unsigned v) = decimal (ucast v)"
| "piece_text (LDec v) = decimal v"
| "piece_text (Hex v) = hexadecimal (ucast v)"
| "piece_text (Chr c) = [c]"

lemma put_str_cstr:
  "0 \<notin> set s \<Longrightarrow> length out \<le> mx \<Longrightarrow> put_str (s @ 0 # r) mx out = Some (take mx (out @ s))"
proof (induction s arbitrary: out)
  case (Cons c s)
  then show ?case by (cases "length out < mx") (auto simp: take_Cons')
qed simp

lemma vsn_loop_lit:
  assumes "0 \<notin> set s" and "37 \<notin> set s" and "f \<noteq> []" and "length out \<le> mx"
  shows "vsn_loop mx (s @ f) args out =
    (if length out + length s \<le> mx then vsn_loop mx f args (out @ s) else Some (take mx (out @ s)))"
  using assms
proof (induction s arbitrary: out)
  case (Cons c s)
  show ?case
  proof (cases "length out < mx")
    case True
    with Cons show ?thesis by (simp add: vsn_loop_char)
  next
    case False
    with Cons.prems vsn_loop_stop [of c out mx "s @ f" args] show ?thesis by simp
  qed
qed simp

lemma fmt_spec_plain: "c \<noteq> 48 \<Longrightarrow> \<not> is_digit c \<Longrightarrow> c \<noteq> 108 \<Longrightarrow> fmt_spec (c # f) = Some (32, 0, False, c # f)"
  by (simp add: fmt_spec_def)

lemma fmt_spec_long: "fmt_spec (108 # 100 # f) = Some (32, 0, True, 100 # f)"
  by (simp add: fmt_spec_def is_digit_def)

lemma convert_number:
  assumes "0 \<notin> set tx" and "length out \<le> mx"
  shows "(case strlen (tx @ [0]) of None \<Rightarrow> None
    | Some len \<Rightarrow> map_option (\<lambda>o'. (o', args)) (put_str (tx @ [0]) mx (pad_out (nat (0 - int len)) mx pad out))) =
    Some (take mx (out @ tx), args)"
  using assms put_str_cstr [of tx out mx "[]"] strlen_cstr [of tx "[]"] by simp

lemma vsn_loop_dir:
  assumes "length out < mx" and "fmt_spec f1 = Some (pad, w, l, c2 # f3)" and "c2 \<noteq> 0"
    and "convert mx c2 pad w l args out = Some (out', args')"
  shows "vsn_loop mx (37 # f1) args out = vsn_loop mx f3 args' out'"
  using assms by (subst vsn_loop.simps) simp

lemma vsn_loop_piece:
  assumes "piece_ok p" and "length out < mx"
  shows "vsn_loop mx (piece_fmt p @ c # f) (piece_args p @ args) out =
    vsn_loop mx (c # f) args (take mx (out @ piece_text p))"
proof (cases p)
  case (Lit s)
  show ?thesis
  proof (cases "length out + length s \<le> mx")
    case True
    with assms vsn_loop_lit [of s "c # f" out mx args] show ?thesis by (simp add: Lit)
  next
    case False
    with assms vsn_loop_lit [of s "c # f" out mx args] show ?thesis
      by (simp add: Lit vsn_loop_stop)
  qed
next
  case (Str s)
  with assms put_str_cstr [of s out mx "[]"] show ?thesis
    using vsn_loop_dir [of out mx "115 # c # f" 32 0 False 115 "c # f" "VStr (Some (s @ [0])) # args" "take mx (out @ s)" args]
    by (simp add: fmt_spec_plain is_digit_def convert_def)
next
  case (Dec v)
  then show ?thesis
    using vsn_loop_dir [of out mx "100 # c # f" 32 0 False 100 "c # f" "VInt v # args"
      "take mx (out @ decimal (ucast v))" args] assms convert_number [of "decimal (ucast v)" out mx args 32, OF itoa_decimal(2)]
    by (simp add: fmt_spec_plain is_digit_def convert_def itoa_decimal(1))
next
  case (Unsigned v)
  then show ?thesis
    using vsn_loop_dir [of out mx "117 # c # f" 32 0 False 117 "c # f" "VInt v # args"
      "take mx (out @ decimal (ucast v))" args] assms convert_number [of "decimal (ucast v)" out mx args 32, OF itoa_decimal(2)]
    by (simp add: fmt_spec_plain is_digit_def convert_def itoa_decimal(1))
next
  case (LDec v)
  then show ?thesis
    using vsn_loop_dir [of out mx "108 # 100 # c # f" 32 0 True 100 "c # f" "VLong v # args"
      "take mx (out @ decimal v)" args] assms convert_number [of "decimal v" out mx args 32, OF itoa_decimal(2)]
    by (simp add: fmt_spec_long convert_def itoa_decimal(1))
next
  case (Hex v)
  then show ?thesis
    using vsn_loop_dir [of out mx "120 # c # f" 32 0 False 120 "c # f" "VInt v # args"
      "take mx (out @ hexadecimal (ucast v))" args] assms
      convert_number [of "hexadecimal (ucast v)" out mx args 32, OF itoa_hexadecimal(2)]
    by (simp add: fmt_spec_plain is_digit_def convert_def itoa_hexadecimal(1))
next
  case (Chr d)
  have "ucast (ucast d :: u32) = d" by (rule bit_word_eqI) (auto simp: bit_simps)
  with Chr show ?thesis
    using vsn_loop_dir [of out mx "99 # c # f" 32 0 False 99 "c # f" "VInt (ucast d) # args" "out @ [d]" args] assms
    by (simp add: fmt_spec_plain is_digit_def convert_def)
qed

lemma vsn_loop_pieces:
  assumes "list_all piece_ok ps" and "length out \<le> mx"
  shows "vsn_loop mx (concat (map piece_fmt ps) @ [0]) (concat (map piece_args ps)) out =
    Some (take mx (out @ concat (map piece_text ps)))"
  using assms
proof (induction ps arbitrary: out)
  case (Cons p ps)
  show ?case
  proof (cases "length out < mx")
    case True
    obtain c f where cf: "concat (map piece_fmt ps) @ [0] = c # f"
      by (cases "concat (map piece_fmt ps) @ [0]") auto
    have "vsn_loop mx (piece_fmt p @ concat (map piece_fmt ps) @ [0]) (piece_args p @ concat (map piece_args ps)) out =
        vsn_loop mx (concat (map piece_fmt ps) @ [0]) (concat (map piece_args ps)) (take mx (out @ piece_text p))"
      unfolding cf by (rule vsn_loop_piece) (use Cons.prems True in auto)
    also have "\<dots> = Some (take mx (take mx (out @ piece_text p) @ concat (map piece_text ps)))"
      by (rule Cons.IH) (use Cons.prems in auto)
    finally show ?thesis by (auto simp: min_def)
  next
    case False
    obtain c f where cf: "concat (map piece_fmt (p # ps)) @ [0] = c # f"
      by (cases "concat (map piece_fmt (p # ps)) @ [0]") auto
    with False Cons.prems(2) show ?thesis unfolding cf by (simp add: vsn_loop_stop)
  qed
qed (simp add: vsn_loop_stop)

text \<open>C17. \<open>vsnprintf\<close> prints every piece of the format as it stands, in order, cut off at the buffer size;
  the count it returns is the length of the text it has written. A plain \<open>%d\<close> prints its argument like
  \<open>%u\<close>, as an unsigned 32-bit number.\<close>

theorem vsnprintf_text:
  assumes "list_all piece_ok ps" and "0 < sz"
  shows "vsnprintf sz (concat (map piece_fmt ps) @ [0]) (concat (map piece_args ps)) =
    Some (take (sz - 1) (concat (map piece_text ps)) @ [0], min (sz - 1) (length (concat (map piece_text ps))))"
  using vsn_loop_pieces [OF assms(1), of "[]" "sz - 1"] assms(2)
  by (simp add: vsnprintf_def min.commute del: length_concat)

theorem vsnprintf_text_witness:
  "vsnprintf 16 [120, 61, 37, 100, 0] [VInt (- 1)] =
     Some ([120, 61, 52, 50, 57, 52, 57, 54, 55, 50, 57, 53, 0], 12)"
proof -
  have t: "concat (map piece_text [Lit [120, 61], Dec (- 1)]) = [120, 61, 52, 50, 57, 52, 57, 54, 55, 50, 57, 53]"
    by code_simp
  have "list_all piece_ok [Lit [120, 61], Dec (- 1)]" by simp
  from vsnprintf_text [OF this, of 16] show ?thesis unfolding t by simp
qed

end
