(* ===== verification/Objects.thy ===== *)
theory Objects
  imports Kheap
begin

section \<open>The kernel heap as an interface\<close>

text \<open>
  What the clients of \<open>kmalloc\<close>, \<open>kzalloc\<close> and \<open>kfree\<close> rely on: the set of objects in use, as pairs of
  address and length, grows by exactly the new object and shrinks by exactly the released one. The
  locale is interpreted on the heap of \<open>Kheap\<close>. The out-of-memory killer, which a failing page
  allocation calls, is a parameter; the clients rely on it leaving the pages of the kernel alone
  (\<open>oom_ok\<close>).
\<close>

locale object_heap =
  fixes malloc :: "u64 \<Rightarrow> 's \<Rightarrow> (nat \<times> 's) option"
    and free :: "nat \<Rightarrow> 's \<Rightarrow> 's option"
    and ok :: "'s \<Rightarrow> (nat \<times> nat) set \<Rightarrow> bool"
  assumes malloc_object: "ok h L \<Longrightarrow> 0 < unat sz \<Longrightarrow> unat sz < 2 ^ 64 - 4127 \<Longrightarrow>
      \<exists>ptr h'. malloc sz h = Some (ptr, h') \<and>
        (if ptr = 0 then ok h' L else \<exists>n. unat sz \<le> n \<and> (ptr, n) \<notin> L \<and> ok h' (insert (ptr, n) L))"
    and free_object: "ok h L \<Longrightarrow> (a, n) \<in> L \<Longrightarrow> \<exists>h'. free a h = Some h' \<and> ok h' (L - {(a, n)})"
    and object_unique: "ok h L \<Longrightarrow> (a, n) \<in> L \<Longrightarrow> (a, k) \<in> L \<Longrightarrow> n = k"
    and object_pos: "ok h L \<Longrightarrow> (a, n) \<in> L \<Longrightarrow> 0 < a"
begin

lemma malloc_fresh:
  assumes "ok h L" and "0 < unat sz" and "unat sz < 2 ^ 64 - 4127"
  obtains (full) h' where "malloc sz h = Some (0, h')" and "ok h' L"
  | (new) ptr n h' where "malloc sz h = Some (ptr, h')" and "ptr \<noteq> 0" and "unat sz \<le> n" and "ptr \<notin> fst ` L"
      and "ok h' (insert (ptr, n) L)"
proof -
  from malloc_object [OF assms] obtain ptr h' where r: "malloc sz h = Some (ptr, h')"
    "if ptr = 0 then ok h' L else \<exists>n. unat sz \<le> n \<and> (ptr, n) \<notin> L \<and> ok h' (insert (ptr, n) L)" by blast
  show thesis
  proof (cases "ptr = 0")
    case True
    with r full show thesis by simp
  next
    case False
    with r(2) obtain n where n: "unat sz \<le> n" "(ptr, n) \<notin> L" "ok h' (insert (ptr, n) L)" by auto
    then have "ptr \<notin> fst ` L" using object_unique [OF n(3), of ptr n] by force
    with new [OF r(1) False n(1) _ n(3)] show thesis by blast
  qed
qed

text \<open>Releasing the object just allocated restores the set of objects.\<close>

lemma free_new:
  assumes "ok h (insert (a, n) L)" and "a \<notin> fst ` L"
  shows "\<exists>h'. free a h = Some h' \<and> ok h' L"
proof -
  have "insert (a, n) L - {(a, n)} = L" using assms(2) by (auto simp: image_iff)
  with free_object [OF assms(1), of a n] show ?thesis by simp
qed

end

definition oom_ok :: "(pmm \<Rightarrow> pmm) \<Rightarrow> bool" where
  "oom_ok oom \<longleftrightarrow> (\<forall>s A. pmm_ok s A \<longrightarrow> pmm_ok (oom s) A \<and> total_phys_pages (oom s) = total_phys_pages s)"

definition heap_ok :: "nat \<Rightarrow> (pmm \<Rightarrow> pmm) \<Rightarrow> (nat \<times> nat) set \<Rightarrow> heap \<Rightarrow> (nat \<times> nat) set \<Rightarrow> bool" where
  "heap_ok hhdm oom A h L \<longleftrightarrow> oom_ok oom \<and> (\<exists>SL W. heap_inv hhdm h SL W A \<and> live hhdm W = L) \<and>
     (\<forall>(a, n) \<in> L. 0 < n)"

lemma oom_ok_id [simp]: "oom_ok id"
  by (simp add: oom_ok_def)

lemma heap_inv_oom:
  assumes "heap_inv hhdm h SL W A" and "oom_ok oom"
  shows "heap_inv hhdm (h\<lparr>hpmm := oom (hpmm h)\<rparr>) SL W A"
proof -
  have "pmm_ok (oom (hpmm h)) (A \<union> blocks_of W)" "total_phys_pages (oom (hpmm h)) = total_phys_pages (hpmm h)"
    using assms(2) heap_invD(6) [OF assms(1)] by (auto simp: oom_ok_def)
  with assms(1) show ?thesis by (simp add: heap_inv_def)
qed

lemma kmalloc_heap_ok:
  assumes h: "heap_ok hhdm oom A h L" and sz: "0 < unat sz" "unat sz < 2 ^ 64 - 4127"
  shows "\<exists>ptr h'. kmalloc hhdm oom sz h = Some (ptr, h') \<and> (if ptr = 0 then heap_ok hhdm oom A h' L
    else \<exists>n. unat sz \<le> n \<and> (ptr, n) \<notin> L \<and> heap_ok hhdm oom A h' (insert (ptr, n) L))"
proof -
  from h obtain SL W where w: "heap_inv hhdm h SL W A" "live hhdm W = L" "oom_ok oom" "\<forall>(a, n) \<in> L. 0 < n"
    by (auto simp: heap_ok_def)
  from kmalloc_ok [OF w(1) sz(1), of oom] sz(2) obtain ptr h' n where
    r: "kmalloc hhdm oom sz h = Some (ptr, h')" "unat sz \<le> n" "alloc_post hhdm oom h W A n (ptr, h')" by auto
  show ?thesis
  proof (cases "ptr = 0")
    case True
    with r(3) w heap_inv_oom [OF w(1,3)] have "heap_ok hhdm oom A h' L"
      by (auto simp: alloc_post_def heap_ok_def)
    with r True show ?thesis by simp
  next
    case False
    with r(3) w sz r(2) have "(ptr, n) \<notin> L \<and> heap_ok hhdm oom A h' (insert (ptr, n) L)"
      by (auto simp: alloc_post_def heap_ok_def)
    with r False show ?thesis by auto
  qed
qed

interpretation hp: object_heap "kmalloc hhdm oom" "kfree hhdm" "heap_ok hhdm oom A" for hhdm oom A
proof unfold_locales
  fix h L a n
  assume h: "heap_ok hhdm oom A h L" and o: "(a, n) \<in> L"
  then obtain SL W where w: "heap_inv hhdm h SL W A" "live hhdm W = L" "oom_ok oom" "\<forall>(a, n) \<in> L. 0 < n"
    by (auto simp: heap_ok_def)
  obtain h' where h': "kfree hhdm a h = Some h'" using kfree_defined [OF w(1), of a n] o w(2) by blast
  with kfree_ok(1) [OF w(1) _ h', of n] o w show "\<exists>h'. kfree hhdm a h = Some h' \<and> heap_ok hhdm oom A h' (L - {(a, n)})"
    by (auto simp: heap_ok_def)
  show "0 < a" using live_pos [OF w(1), of a n] o w(2) by simp
  fix k
  assume "(a, k) \<in> L"
  with live_apart [OF w(1), of a n a k] o w(2,4) show "n = k" by force
qed (rule kmalloc_heap_ok)

text \<open>\<open>kzalloc\<close> clears the new object, which the heap does not notice.\<close>

lemma kzalloc_heap_ok:
  assumes h: "heap_ok hhdm oom A h L" and sz: "0 < unat sz" "unat sz < 2 ^ 64 - 4127"
  shows "\<exists>ptr h'. kzalloc hhdm oom sz h = Some (ptr, h') \<and> (if ptr = 0 then heap_ok hhdm oom A h' L
    else \<exists>n. unat sz \<le> n \<and> (ptr, n) \<notin> L \<and> heap_ok hhdm oom A h' (insert (ptr, n) L))"
  using h sz
proof (cases rule: hp.malloc_fresh)
  case (full h')
  then show ?thesis by (simp add: kzalloc_def)
next
  case (new ptr n h')
  let ?h = "h'\<lparr>hmem := memset ptr 0 (unat sz) (hmem h')\<rparr>"
  from new(5) obtain SL W where w: "heap_inv hhdm h' SL W A" "live hhdm W = insert (ptr, n) L" "oom_ok oom"
    "\<forall>(a, n) \<in> insert (ptr, n) L. 0 < n" by (auto simp: heap_ok_def)
  have "heap_inv hhdm ?h SL W A"
    by (rule heap_client_write [OF w(1), of ptr n]) (use w(2) new(3) in \<open>auto simp: memset_block\<close>)
  with w have "heap_ok hhdm oom A ?h (insert (ptr, n) L)" by (auto simp: heap_ok_def)
  moreover have "(ptr, n) \<notin> L" using new(4) by (force simp: image_iff)
  ultimately show ?thesis using new(1-3) by (auto simp: kzalloc_def)
qed

interpretation hz: object_heap "kzalloc hhdm oom" "kfree hhdm" "heap_ok hhdm oom A" for hhdm oom A
  by unfold_locales (rule kzalloc_heap_ok hp.free_object hp.object_unique hp.object_pos; assumption)+

subsection \<open>The contents of objects\<close>

text \<open>
  The interface extended by the memory behind the objects: they are disjoint, a client may write inside
  its objects, and allocation and release leave the contents of the other objects alone.
\<close>

locale object_memory = object_heap malloc free ok
  for malloc :: "u64 \<Rightarrow> 's \<Rightarrow> (nat \<times> 's) option" and free :: "nat \<Rightarrow> 's \<Rightarrow> 's option"
    and ok :: "'s \<Rightarrow> (nat \<times> nat) set \<Rightarrow> bool" +
  fixes contents :: "'s \<Rightarrow> mem"
    and put :: "mem \<Rightarrow> 's \<Rightarrow> 's"
  assumes malloc_keeps: "ok h L \<Longrightarrow> 0 < unat sz \<Longrightarrow> unat sz < 2 ^ 64 - 4127 \<Longrightarrow> malloc sz h = Some (ptr, h') \<Longrightarrow>
      (a, n) \<in> L \<Longrightarrow> x \<in> {a..<a + n} \<Longrightarrow> contents h' x = contents h x"
    and free_keeps: "ok h L \<Longrightarrow> (a, n) \<in> L \<Longrightarrow> free a h = Some h' \<Longrightarrow> (c, k) \<in> L \<Longrightarrow> (c, k) \<noteq> (a, n) \<Longrightarrow>
      x \<in> {c..<c + k} \<Longrightarrow> contents h' x = contents h x"
    and objects_apart: "ok h L \<Longrightarrow> (a, n) \<in> L \<Longrightarrow> (c, k) \<in> L \<Longrightarrow> (a, n) \<noteq> (c, k) \<Longrightarrow> {a..<a + n} \<inter> {c..<c + k} = {}"
    and contents_put: "contents (put m h) = m"
    and put_object: "ok h L \<Longrightarrow> (a, n) \<in> L \<Longrightarrow> \<forall>x. x \<notin> {a..<a + n} \<longrightarrow> m x = contents h x \<Longrightarrow> ok (put m h) L"
begin

text \<open>Filling a part of an object changes no other object.\<close>

lemma copy_into:
  assumes h: "ok h L" and o: "(a, n) \<in> L" and k: "i + k \<le> n" and m: "\<forall>x. x \<notin> {a + i..<a + i + k} \<longrightarrow> m x = contents h x"
  shows "ok (put m h) L" and "(c, l) \<in> L \<Longrightarrow> (c, l) \<noteq> (a, n) \<Longrightarrow> x \<in> {c..<c + l} \<Longrightarrow> contents (put m h) x = contents h x"
proof -
  have out: "x \<notin> {a..<a + n} \<longrightarrow> m x = contents h x" for x using m k by auto
  show "ok (put m h) L" by (rule put_object [OF h o]) (use out in blast)
  show "contents (put m h) x = contents h x" if "(c, l) \<in> L" "(c, l) \<noteq> (a, n)" "x \<in> {c..<c + l}"
    using objects_apart [OF h that(1) o that(2)] that(3) out by (auto simp: contents_put)
qed

end

interpretation hm: object_memory "kmalloc hhdm oom" "kfree hhdm" "heap_ok hhdm oom A" hmem "\<lambda>m h. h\<lparr>hmem := m\<rparr>"
  for hhdm oom A
proof unfold_locales
  fix h L
  assume h: "heap_ok hhdm oom A h L"
  then obtain SL W where w: "heap_inv hhdm h SL W A" "live hhdm W = L" "oom_ok oom" by (auto simp: heap_ok_def)
  {
    fix sz ptr h' a n x
    assume sz: "0 < unat sz" "unat sz < 2 ^ 64 - 4127" and r: "kmalloc hhdm oom sz h = Some (ptr, h')"
      and a: "(a, n) \<in> L" "x \<in> {a..<a + n}"
    from kmalloc_ok [OF w(1) sz(1), of oom] sz(2) r obtain k where "alloc_post hhdm oom h W A k (ptr, h')" by auto
    with a w(2) show "hmem h' x = hmem h x" by (auto simp: alloc_post_def split: if_splits)
  next
    fix a n c k x h'
    assume a: "(a, n) \<in> L" "kfree hhdm a h = Some h'" "(c, k) \<in> L" "(c, k) \<noteq> (a, n)" "x \<in> {c..<c + k}"
    from kfree_ok(2) [OF w(1) _ a(2), of n c k x] a w(2) show "hmem h' x = hmem h x" by simp
  next
    fix a n c k
    assume "(a, n) \<in> L" "(c, k) \<in> L" "(a, n) \<noteq> (c, k)"
    with live_apart [OF w(1)] w(2) show "{a..<a + n} \<inter> {c..<c + k} = {}" by blast
  next
    fix a n m
    assume "(a, n) \<in> L" "\<forall>x. x \<notin> {a..<a + n} \<longrightarrow> m x = hmem h x"
    with heap_client_write [OF w(1), of a n m] w(2) h show "heap_ok hhdm oom A (h\<lparr>hmem := m\<rparr>) L"
      by (auto simp: heap_ok_def)
  }
qed simp

lemma krealloc_heap_ok:
  assumes h: "heap_ok hhdm oom A h L" and o: "(a, n) \<in> L" and sz: "0 < unat sz" "unat sz < 2 ^ 64 - 4127"
  obtains (full) h' where "krealloc hhdm oom a sz h = Some (0, h')" "heap_ok hhdm oom A h' L" "hmem h' = hmem h"
  | (new) ptr k h' where "krealloc hhdm oom a sz h = Some (ptr, h')" "ptr \<noteq> 0" "unat sz \<le> k" "(ptr, k) \<notin> L"
      "heap_ok hhdm oom A h' (insert (ptr, k) (L - {(a, n)}))"
      "\<And>x. x < min n (unat sz) \<Longrightarrow> hmem h' (ptr + x) = hmem h (a + x)"
      "\<And>c l x. (c, l) \<in> L \<Longrightarrow> (c, l) \<noteq> (a, n) \<Longrightarrow> x \<in> {c..<c + l} \<Longrightarrow> hmem h' x = hmem h x"
proof -
  from h obtain SL W where w: "heap_inv hhdm h SL W A" "live hhdm W = L" "oom_ok oom" "\<forall>(a, n) \<in> L. 0 < n"
    by (auto simp: heap_ok_def)
  from krealloc_ok [OF w(1) _ sz, of a n oom, unfolded w(2), OF o] obtain ptr h' where
    r: "krealloc hhdm oom a sz h = Some (ptr, h')" "ptr = 0 \<longrightarrow> h' = h \<or> h' = h\<lparr>hpmm := oom (hpmm h)\<rparr>"
      "ptr \<noteq> 0 \<longrightarrow> (\<forall>x < min n (unat sz). hmem h' (ptr + x) = hmem h (a + x)) \<and>
        (\<exists>l SL' W'. unat sz \<le> l \<and> (ptr, l) \<notin> L \<and> heap_inv hhdm h' SL' W' A \<and>
           live hhdm W' = insert (ptr, l) (L - {(a, n)})) \<and>
        (\<forall>(c, k) \<in> L - {(a, n)}. \<forall>x \<in> {c..<c + k}. hmem h' x = hmem h x)" by (elim exE conjE) (rule that)
  show thesis
  proof (cases "ptr = 0")
    case True
    with r(2) h w heap_inv_oom [OF w(1,3)] have "heap_ok hhdm oom A h' L" "hmem h' = hmem h" by (auto simp: heap_ok_def)
    with full r(1) True show thesis by simp
  next
    case False
    with r(3) obtain l SL' W' where l: "unat sz \<le> l" "(ptr, l) \<notin> L" "heap_inv hhdm h' SL' W' A"
      "live hhdm W' = insert (ptr, l) (L - {(a, n)})" by auto
    with w(3,4) sz(1) have "heap_ok hhdm oom A h' (insert (ptr, l) (L - {(a, n)}))" by (auto simp: heap_ok_def)
    moreover have "hmem h' x = hmem h x" if "(c, k) \<in> L" "(c, k) \<noteq> (a, n)" "x \<in> {c..<c + k}" for c k x
      using r(3) False that by fastforce
    ultimately show thesis using r(3) False by (intro new [OF r(1) False l(1,2)]) blast+
  qed
qed

end
