(* ===== verification/Blocking.thy ===== *)
theory Blocking
  imports Sched
begin

section \<open>Blocking and waking\<close>

text \<open>
  What pipes, local sockets and the other blocking primitives rely on when they call the scheduler:
  \<open>sched_block\<close> takes exactly the calling task out of the run queues, \<open>sched_unblock\<close> puts a task
  back, and nothing else ever removes a runnable task. The locale is interpreted on the scheduler,
  with \<open>queued\<close>, the membership test the code itself uses in \<open>sched_enqueue\<close>, as readiness.

  A system call runs with interrupts disabled, so that a blocking operation is a sequence of
  uninterrupted sections between its calls of \<open>sched_yield\<close>. \<open>outcome\<close> is the result of such a section: the
  operation returns, or it has blocked its task and is about to yield, with what it needs to go on
  afterwards; without a current task it spins instead.
\<close>

datatype ('r, 'c) outcome = Ret 'r | Yield 'c | Spin 'c

definition queued :: "sched \<Rightarrow> nat \<Rightarrow> bool" where
  "queued s t \<longleftrightarrow> sched_next (tasks s t) \<noteq> None \<or> sched_prev (tasks s t) \<noteq> None \<or>
     run_queues s (queue_prio s t) = Some t"

definition sched_ok :: "sched \<Rightarrow> bool" where
  "sched_ok s \<longleftrightarrow> (\<exists>Q. rq_inv s Q) \<and> (\<forall>t. queued s t \<longrightarrow> tstate (tasks s t) = TASK_STATE_RUNNABLE)"

locale blocking =
  fixes ok :: "'s \<Rightarrow> bool"
    and ready :: "'s \<Rightarrow> nat \<Rightarrow> bool"
    and block :: "nat option \<Rightarrow> 's \<Rightarrow> 's"
    and unblock :: "nat option \<Rightarrow> 's \<Rightarrow> 's"
    and wake :: "'s \<Rightarrow> 's"
    and switch :: "u64 \<Rightarrow> 's \<Rightarrow> 's"
  assumes block_ready: "ok s \<Longrightarrow> ok (block (Some t) s) \<and> (ready (block (Some t) s) u \<longleftrightarrow> u \<noteq> t \<and> ready s u)"
    and unblock_ready: "ok s \<Longrightarrow> ok (unblock (Some t) s) \<and> (ready (unblock (Some t) s) u \<longleftrightarrow> u = t \<or> ready s u)"
    and unblock_none: "unblock None s = s"
    and wake_ready: "ok s \<Longrightarrow> ok (wake s) \<and> (ready s u \<longrightarrow> ready (wake s) u)"
    and switch_ready: "ok s \<Longrightarrow> ok (switch r s) \<and> (ready s u \<longrightarrow> ready (switch r s) u)"
begin

text \<open>Waking the task in a waiter slot, which may be empty.\<close>

lemma unblock_slot:
  assumes "ok s"
  shows "ok (unblock x s)" and "ready s u \<or> x = Some u \<Longrightarrow> ready (unblock x s) u"
  using assms unblock_ready unblock_none by (cases x; auto)+

text \<open>A task that blocks itself and yields leaves every other ready task ready.\<close>

lemma block_switch:
  assumes "ok s"
  shows "ok (switch r (block (Some t) s))" and "ready s u \<Longrightarrow> u \<noteq> t \<Longrightarrow> ready (switch r (block (Some t) s)) u"
  using assms block_ready switch_ready by blast+

end

lemma queued_iff: "rq_inv s Q \<Longrightarrow> queued s t \<longleftrightarrow> t \<in> set (Q (queue_prio s t))"
  using rq_queue_guard [of s Q t] by (auto simp: queued_def)

lemma queued_cong:
  assumes "\<And>t. sched_next (tasks s' t) = sched_next (tasks s t)" "\<And>t. sched_prev (tasks s' t) = sched_prev (tasks s t)"
    and "\<And>t. priority (tasks s' t) = priority (tasks s t)" and "run_queues s' = run_queues s"
  shows "queued s' t = queued s t"
  using assms queue_prio_cong [of s' t s] by (simp add: queued_def)

text \<open>The two operations on the queues, in terms of \<open>queued\<close>.\<close>

lemma enqueue_queued:
  assumes "sched_ok s"
  shows "sched_ok (sched_enqueue (Some t) s) \<and> (queued (sched_enqueue (Some t) s) u \<longleftrightarrow> u = t \<or> queued s u)"
proof -
  from assms obtain Q where Q: "rq_inv s Q" and run: "\<And>t. queued s t \<Longrightarrow> tstate (tasks s t) = TASK_STATE_RUNNABLE"
    by (auto simp: sched_ok_def)
  show ?thesis
  proof (cases "queued s t")
    case True
    then have "sched_enqueue (Some t) s = s" using enqueue_member [OF Q] queued_iff [OF Q] by blast
    with assms True show ?thesis by auto
  next
    case False
    let ?p = "queue_prio s t"
    have new: "t \<notin> set (Q ?p)" using False queued_iff [OF Q] by blast
    have Q': "rq_inv (sched_enqueue (Some t) s) (Q(?p := Q ?p @ [t]))" by (rule rq_enqueue_new [OF Q new])
    have q: "queued (sched_enqueue (Some t) s) v \<longleftrightarrow> v = t \<or> queued s v" for v
      unfolding queued_iff [OF Q'] queued_iff [OF Q] using rq_inv_prio [OF Q queue_prio_less] by auto
    moreover have "tstate (tasks (sched_enqueue (Some t) s) v) = TASK_STATE_RUNNABLE" if "v = t \<or> queued s v" for v
      using enqueue_new_state [OF Q new, of v] run that by auto
    ultimately show ?thesis using Q' by (auto simp: sched_ok_def)
  qed
qed

lemma dequeue_queued:
  assumes "rq_inv s Q"
  shows "\<exists>Q'. rq_inv (sched_dequeue (Some t) s) Q'"
    and "queued (sched_dequeue (Some t) s) u \<longleftrightarrow> u \<noteq> t \<and> queued s u"
proof -
  have d: "distinct (Q (queue_prio s t))" by (rule rq.rel_distinct [OF assms])
  have Q': "rq_inv (sched_dequeue (Some t) s) (abs_dequeue (queue_prio s t) t Q)" by (rule rq_dequeue [OF assms])
  show "\<exists>Q'. rq_inv (sched_dequeue (Some t) s) Q'" using Q' by blast
  show "queued (sched_dequeue (Some t) s) u \<longleftrightarrow> u \<noteq> t \<and> queued s u"
    unfolding queued_iff [OF Q'] queued_iff [OF assms]
    using d rq_inv_prio [OF assms queue_prio_less] by (auto simp: abs_dequeue_def set_remove1_eq)
qed

lemma block_queued:
  assumes "sched_ok s"
  shows "sched_ok (sched_block (Some t) s) \<and> (queued (sched_block (Some t) s) u \<longleftrightarrow> u \<noteq> t \<and> queued s u)"
proof -
  from assms obtain Q where Q: "rq_inv s Q" and run: "\<And>t. queued s t \<Longrightarrow> tstate (tasks s t) = TASK_STATE_RUNNABLE"
    by (auto simp: sched_ok_def)
  note d = dequeue_queued [OF Q, of t]
  have q: "queued (sched_block (Some t) s) v = queued (sched_dequeue (Some t) s) v" for v
    unfolding sched_block.simps by (rule queued_cong) auto
  have "\<exists>Q'. rq_inv (sched_block (Some t) s) Q'"
    using d(1) rq_inv_upd_task [of "\<lambda>k. k\<lparr>tstate := TASK_STATE_BLOCKED, running := False\<rparr>" t] by simp
  moreover have "tstate (tasks (sched_block (Some t) s) v) = TASK_STATE_RUNNABLE" if "v \<noteq> t" "queued s v" for v
    using run that by simp
  ultimately show ?thesis unfolding sched_ok_def q d(2) by blast
qed

lemma sched_ok_upd:
  assumes "\<And>t. sched_next (tasks s' t) = sched_next (tasks s t)" "\<And>t. sched_prev (tasks s' t) = sched_prev (tasks s t)"
    and "\<And>t. priority (tasks s' t) = priority (tasks s t)" and "run_queues s' = run_queues s"
    and "run_queues_tail s' = run_queues_tail s" and "active_priority_bitmap s' = active_priority_bitmap s"
    and "\<And>t. tstate (tasks s' t) = tstate (tasks s t)"
  shows "sched_ok s' = sched_ok s" and "queued s' t = queued s t"
proof -
  have q: "queued s' t = queued s t" for t by (rule queued_cong) (use assms in auto)
  then show "queued s' t = queued s t" .
  have "rq_inv s' Q = rq_inv s Q" for Q by (rule rq_inv_cong) (use assms in auto)
  with q assms(7) show "sched_ok s' = sched_ok s" by (simp add: sched_ok_def)
qed

lemma wake_queued:
  assumes "sched_ok s"
  shows "sched_ok (sched_wake (Some t) s) \<and> (queued s u \<longrightarrow> queued (sched_wake (Some t) s) u)"
proof (cases "tstate (tasks s t) = TASK_STATE_SLEEPING")
  case True
  define s1 where "s1 = upd_task t (\<lambda>k. k\<lparr>sleep_until := 0\<rparr>) (s\<lparr>sleep_queue := remove1 t (sleep_queue s)\<rparr>)"
  have w: "sched_wake (Some t) s = sched_enqueue (Some t) s1" using True by (simp add: s1_def)
  have "sched_ok s1 = sched_ok s" "\<And>v. queued s1 v = queued s v"
    by (rule sched_ok_upd; auto simp: s1_def upd_task_def)+
  with assms enqueue_queued [of s1 t] show ?thesis unfolding w by blast
qed (use assms in simp)

lemma io_wake_all_queued:
  assumes "sched_ok s"
  shows "sched_ok (io_wake_all s) \<and> (queued s u \<longrightarrow> queued (io_wake_all s) u)"
proof -
  have f: "sched_ok (fold (\<lambda>t. sched_wake (Some t)) ws s) \<and>
      (queued s u \<longrightarrow> queued (fold (\<lambda>t. sched_wake (Some t)) ws s) u)" if "sched_ok s" for ws s
    using that
  proof (induction ws arbitrary: s)
    case (Cons w ws)
    then show ?case using wake_queued [OF Cons.prems, of w u] by (simp del: sched_wake.simps)
  qed simp
  let ?s1 = "fold (\<lambda>t. sched_wake (Some t)) (io_waiters s) s"
  have "sched_ok (io_wake_all s) = sched_ok ?s1" "queued (io_wake_all s) u = queued ?s1 u"
    unfolding io_wake_all_def by (rule sched_ok_upd; simp)+
  with f [OF assms, of "io_waiters s"] show ?thesis by simp
qed

lemma switch_out_queued:
  assumes "sched_ok s"
  shows "sched_ok (switch_out r c s) \<and> (queued s u \<longrightarrow> queued (switch_out r c s) u)"
proof -
  define s1 where "s1 = upd_task c (\<lambda>k. k\<lparr>rsp := r\<rparr>) s"
  have s1: "sched_ok s1 = sched_ok s" "\<And>v. queued s1 v = queued s v"
    by (rule sched_ok_upd; simp add: s1_def)+
  from assms s1 obtain Q where Q: "rq_inv s1 Q" by (auto simp: sched_ok_def)
  define d where "d = sched_dequeue (Some c) s1"
  have "sched_ok d" and d: "\<And>v. queued d v \<longleftrightarrow> v \<noteq> c \<and> queued s1 v"
    using assms s1 dequeue_queued [OF Q, of c] by (auto simp: sched_ok_def d_def s1_def)
  with enqueue_queued [of d c] assms s1 have
    e: "sched_ok (sched_enqueue (Some c) d)" "queued s u \<Longrightarrow> queued (sched_enqueue (Some c) d) u" by auto
  have "tstate (tasks d c) \<noteq> TASK_STATE_RUNNABLE \<Longrightarrow> queued s u \<Longrightarrow> queued d u"
    using d s1 assms by (auto simp: sched_ok_def d_def s1_def)
  with e \<open>sched_ok d\<close> s1 assms show ?thesis
    by (simp add: switch_out_def Let_def s1_def [symmetric] d_def [symmetric])
qed

lemma switch_queued:
  assumes "sched_ok s"
  shows "sched_ok (snd (sched_switch r s)) \<and> (queued s u \<longrightarrow> queued (snd (sched_switch r s)) u)"
proof (cases "current_task s")
  case None
  with assms show ?thesis by (simp add: sched_switch_def)
next
  case (Some c)
  let ?o = "switch_out r c s"
  have "sched_ok (snd (sched_switch r s)) = sched_ok ?o \<and> queued (snd (sched_switch r s)) u = queued ?o u"
    by (rule conjI; rule sched_ok_upd)
      (auto simp: sched_switch_eq [OF Some] Let_def switch_hw_def split: option.split)
  with switch_out_queued [OF assms, of r c u] show ?thesis by blast
qed

interpretation wt: blocking sched_ok queued sched_block sched_unblock io_wake_all "\<lambda>r s. snd (sched_switch r s)"
  by unfold_locales
    (use block_queued enqueue_queued io_wake_all_queued switch_queued in \<open>auto simp: sched_unblock_def sched_enqueue.simps(1)\<close>)

text \<open>Every sleeping task in the waiter table is runnable after \<open>io_wake_all\<close>.\<close>

lemma sched_wake_queues:
  assumes "sched_ok s" and "tstate (tasks s t) = TASK_STATE_SLEEPING"
  shows "queued (sched_wake (Some t) s) t"
proof -
  define s1 where "s1 = upd_task t (\<lambda>k. k\<lparr>sleep_until := 0\<rparr>) (s\<lparr>sleep_queue := remove1 t (sleep_queue s)\<rparr>)"
  have w: "sched_wake (Some t) s = sched_enqueue (Some t) s1" using assms(2) by (simp add: s1_def)
  have "sched_ok s1 = sched_ok s" by (rule sched_ok_upd) (auto simp: s1_def upd_task_def)
  with assms(1) enqueue_queued [of s1 t t] show ?thesis unfolding w by blast
qed

lemma sched_wake_state:
  assumes "sched_ok s" and "u \<noteq> t"
  shows "tstate (tasks (sched_wake (Some t) s) u) = tstate (tasks s u)"
proof (cases "tstate (tasks s t) = TASK_STATE_SLEEPING")
  case True
  define s1 where "s1 = upd_task t (\<lambda>k. k\<lparr>sleep_until := 0\<rparr>) (s\<lparr>sleep_queue := remove1 t (sleep_queue s)\<rparr>)"
  have w: "sched_wake (Some t) s = sched_enqueue (Some t) s1" using True by (simp add: s1_def)
  have eq: "sched_ok s1 = sched_ok s" "queued s1 t = queued s t"
    by (rule sched_ok_upd; auto simp: s1_def upd_task_def)+
  then obtain Q where Q: "rq_inv s1 Q" using assms(1) by (auto simp: sched_ok_def)
  have "\<not> queued s t" using assms(1) True by (auto simp: sched_ok_def)
  then have "t \<notin> set (Q (queue_prio s1 t))" using eq(2) queued_iff [OF Q] by blast
  from enqueue_new_state [OF Q this, of u] assms(2) show ?thesis unfolding w by (simp add: s1_def upd_task_def)
qed simp

lemma wake_fold:
  assumes "sched_ok s" and "t \<in> set ws" and "tstate (tasks s t) = TASK_STATE_SLEEPING"
  shows "queued (fold (\<lambda>t. sched_wake (Some t)) ws s) t"
  using assms
proof (induction ws arbitrary: s)
  case (Cons w ws)
  have ok: "sched_ok (sched_wake (Some w) s)" using wake_queued [OF Cons.prems(1)] by blast
  show ?case
  proof (cases "w = t")
    case True
    have "queued (sched_wake (Some w) s) t" using sched_wake_queues [OF Cons.prems(1,3)] True by simp
    moreover have "queued x t \<longrightarrow> queued (fold (\<lambda>t. sched_wake (Some t)) ws x) t" if "sched_ok x" for x
      using that
    proof (induction ws arbitrary: x)
      case (Cons v vs)
      then show ?case using wake_queued [OF Cons.prems, of v t] by (simp del: sched_wake.simps)
    qed simp
    ultimately show ?thesis using ok by (simp del: sched_wake.simps)
  next
    case False
    with Cons.prems sched_wake_state [OF Cons.prems(1), of t w] Cons.IH [OF ok] show ?thesis
      by (simp del: sched_wake.simps)
  qed
qed simp

lemma io_wake_all_wakes:
  assumes "sched_ok s" and "t \<in> set (io_waiters s)" and "tstate (tasks s t) = TASK_STATE_SLEEPING"
  shows "queued (io_wake_all s) t"
proof -
  have "queued (io_wake_all s) t = queued (fold (\<lambda>t. sched_wake (Some t)) (io_waiters s) s) t"
    unfolding io_wake_all_def by (rule sched_ok_upd) simp_all
  with wake_fold [OF assms] show ?thesis by simp
qed

text \<open>A task that has put itself to sleep is still queued until it yields; the switch takes it out.\<close>

lemma sleep_switch_ok:
  assumes c: "current_task s = Some c" "Some c \<noteq> idle_task s" and Q: "rq_inv s Q"
    and run: "\<And>t. t \<noteq> c \<Longrightarrow> queued s t \<Longrightarrow> tstate (tasks s t) = TASK_STATE_RUNNABLE"
  shows "sched_ok (snd (sched_switch r s))"
proof -
  define s1 where "s1 = upd_task c (\<lambda>k. k\<lparr>rsp := r\<rparr>) s"
  have s1: "rq_inv s1 Q" "\<And>v. queued s1 v = queued s v"
    using Q by (simp_all add: s1_def rq_inv_upd_task) (rule sched_ok_upd; simp)
  define d where "d = sched_dequeue (Some c) s1"
  have "sched_ok d"
    using dequeue_queued [OF s1(1), of c] s1(2) run by (auto simp: sched_ok_def d_def s1_def)
  moreover have "Some c \<noteq> idle_task s1" using c(2) by (simp add: s1_def)
  ultimately have "sched_ok (switch_out r c s)"
    using enqueue_queued [of d c] by (simp add: switch_out_def Let_def s1_def [symmetric] d_def [symmetric])
  moreover have "sched_ok (snd (sched_switch r s)) = sched_ok (switch_out r c s)"
    by (rule sched_ok_upd) (auto simp: sched_switch_eq [OF c(1)] Let_def switch_hw_def split: option.split)
  ultimately show ?thesis by simp
qed

lemma two_tasks_ok: "sched_ok two_tasks"
proof -
  have "queued two_tasks t \<Longrightarrow> t = 1 \<or> t = 2" for t
    using queued_iff [OF two_tasks_inv, of t] by (simp split: if_splits)
  then show ?thesis using two_tasks_inv two_tasks_state by (auto simp: sched_ok_def)
qed

end
