(* ===== verification/Ring.thy ===== *)
theory Ring
  imports Prelude
begin

section \<open>Circular buffers\<close>

text \<open>
  The byte ring that pipes (\<open>kernel/proc/pipe.c\<close>) and local sockets (\<open>kernel/ipc/af_unix.c\<close>) embed in
  their structs: a buffer, a read position, a write position and a count. \<open>ring\<close> is the record of
  these fields, which the records of the two structs extend. The locale \<open>fifo\<close> is what both rely on:
  putting appends to the contents while there is room, getting removes the first byte. Its lemmas
  about runs of operations are used by the components through the interpretation on the ring.
\<close>

record ring =
  rbuf :: "nat \<Rightarrow> u8"
  read_pos :: nat
  write_pos :: nat
  count :: nat

definition ring_put :: "nat \<Rightarrow> u8 \<Rightarrow> 'a ring_scheme \<Rightarrow> 'a ring_scheme" where
  "ring_put cap b r = r\<lparr>rbuf := (rbuf r)(write_pos r := b),
     write_pos := (write_pos r + 1) mod cap, count := count r + 1\<rparr>"

definition ring_get :: "nat \<Rightarrow> 'a ring_scheme \<Rightarrow> u8 \<times> 'a ring_scheme" where
  "ring_get cap r = (rbuf r (read_pos r),
     r\<lparr>read_pos := (read_pos r + 1) mod cap, count := count r - 1\<rparr>)"

text \<open>The copy loop of the readers.\<close>

fun ring_read :: "nat \<Rightarrow> nat \<Rightarrow> 'a ring_scheme \<Rightarrow> bytes \<times> 'a ring_scheme" where
  "ring_read cap 0 r = ([], r)"
| "ring_read cap (Suc n) r =
     (let (b, r1) = ring_get cap r; (bs, r2) = ring_read cap n r1 in (b # bs, r2))"

definition ring_contents :: "nat \<Rightarrow> 'a ring_scheme \<Rightarrow> bytes" where
  "ring_contents cap r = map (\<lambda>i. rbuf r ((read_pos r + i) mod cap)) [0..<count r]"

definition ring_ok :: "nat \<Rightarrow> 'a ring_scheme \<Rightarrow> bool" where
  "ring_ok cap r \<longleftrightarrow> read_pos r < cap \<and> count r \<le> cap \<and> write_pos r = (read_pos r + count r) mod cap"

subsection \<open>The interface\<close>

locale fifo =
  fixes put :: "u8 \<Rightarrow> 's \<Rightarrow> 's"
    and get :: "'s \<Rightarrow> u8 \<times> 's"
    and ok :: "'s \<Rightarrow> bool"
    and items :: "'s \<Rightarrow> bytes"
    and cap :: nat
  assumes put_items: "ok s \<Longrightarrow> length (items s) < cap \<Longrightarrow> ok (put b s) \<and> items (put b s) = items s @ [b]"
    and get_items: "ok s \<Longrightarrow> items s = b # bs \<Longrightarrow> fst (get s) = b \<and> ok (snd (get s)) \<and> items (snd (get s)) = bs"
    and items_cap: "ok s \<Longrightarrow> length (items s) \<le> cap"
begin

lemma put_many:
  "ok s \<Longrightarrow> length (items s) + length bs \<le> cap \<Longrightarrow>
   ok (fold put bs s) \<and> items (fold put bs s) = items s @ bs"
proof (induction bs arbitrary: s)
  case (Cons b bs)
  then show ?case using put_items [of s b] by simp
qed simp

text \<open>Putting and getting in any order keeps the bytes in their order.\<close>

lemma put_then_get:
  assumes "ok s" and "items s = []" and "0 < cap"
  shows "fst (get (put b s)) = b \<and> items (snd (get (put b s))) = []"
  using put_items [OF assms(1), of b] get_items [of "put b s" b "[]"] assms(2,3) by simp

end

lemma ring_put_contents:
  assumes ok: "ring_ok cap r" and room: "count r < cap"
  shows "ring_ok cap (ring_put cap b r)" and "ring_contents cap (ring_put cap b r) = ring_contents cap r @ [b]"
proof -
  note d = ok [unfolded ring_ok_def]
  have "0 < cap" using d by simp
  have w: "write_pos r = (read_pos r + count r) mod cap" using d by simp
  have ne: "(read_pos r + i) mod cap \<noteq> write_pos r" if i: "i < count r" for i
  proof
    assume "(read_pos r + i) mod cap = write_pos r"
    with w have "(read_pos r + i) mod cap = (read_pos r + count r) mod cap" by simp
    then have "cap dvd (read_pos r + count r) - (read_pos r + i)"
      using i by (metis add_le_cancel_left less_imp_le mod_eq_dvd_iff_nat)
    with i room show False by (auto dest: dvd_imp_le)
  qed
  have "ring_contents cap (ring_put cap b r) =
      map (\<lambda>i. ((rbuf r)(write_pos r := b)) ((read_pos r + i) mod cap)) [0..<count r] @ [b]"
    using w by (simp add: ring_contents_def ring_put_def)
  also have "\<dots> = ring_contents cap r @ [b]"
    using ne by (auto simp: ring_contents_def)
  finally show "ring_contents cap (ring_put cap b r) = ring_contents cap r @ [b]" .
  show "ring_ok cap (ring_put cap b r)"
    using d room by (auto simp: ring_ok_def ring_put_def mod_simps)
qed

lemma ring_get_contents:
  assumes ok: "ring_ok cap r" and "0 < count r"
  shows "ring_ok cap (snd (ring_get cap r))"
    and "ring_contents cap r = fst (ring_get cap r) # ring_contents cap (snd (ring_get cap r))"
proof -
  note d = ok [unfolded ring_ok_def]
  have "[0..<count r] = 0 # [1..<count r]" using assms(2) by (simp add: upt_conv_Cons)
  moreover have "map (\<lambda>i. f (Suc i)) [0..<count r - 1] = map f [1..<count r]" for f :: "nat \<Rightarrow> u8"
    using assms(2) map_upt_shift [of f 0 "count r - 1"] by simp
  from this [of "\<lambda>i. rbuf r ((read_pos r + i) mod cap)"]
  have "map (\<lambda>i. rbuf r ((read_pos r + i) mod cap)) [1..<count r] =
      map (\<lambda>i. rbuf r (((read_pos r + 1) mod cap + i) mod cap)) [0..<count r - 1]"
    by (simp add: mod_simps)
  ultimately show "ring_contents cap r = fst (ring_get cap r) # ring_contents cap (snd (ring_get cap r))"
    using d by (simp add: ring_contents_def ring_get_def)
  obtain c where "count r = Suc c" using assms(2) by (cases "count r") auto
  then have "(read_pos r + count r) mod cap = ((read_pos r + 1) mod cap + (count r - 1)) mod cap"
    by (simp add: mod_simps)
  with d show "ring_ok cap (snd (ring_get cap r))"
    by (auto simp: ring_ok_def ring_get_def)
qed

lemma length_ring_contents [simp]: "length (ring_contents cap r) = count r"
  by (simp add: ring_contents_def)

interpretation rb: fifo "ring_put cap" "ring_get cap" "ring_ok cap" "ring_contents cap" cap for cap
proof unfold_locales
  show "fst (ring_get cap r) = b \<and> ring_ok cap (snd (ring_get cap r)) \<and> ring_contents cap (snd (ring_get cap r)) = bs"
    if "ring_ok cap r" "ring_contents cap r = b # bs" for r :: "'a ring_scheme" and b bs
  proof -
    have "0 < count r" using arg_cong [OF that(2), of length] by simp
    from ring_get_contents [OF that(1) this] that(2) show ?thesis by simp
  qed
qed (simp_all add: ring_put_contents, simp add: ring_ok_def)

text \<open>A read of \<open>n\<close> bytes takes the first \<open>n\<close> bytes of the contents.\<close>

lemma ring_read_contents:
  "ring_ok cap r \<Longrightarrow> n \<le> count r \<Longrightarrow> ring_read cap n r = (bs, r') \<Longrightarrow>
   ring_ok cap r' \<and> bs @ ring_contents cap r' = ring_contents cap r \<and> length bs = n"
proof (induction n arbitrary: r bs r')
  case (Suc n)
  let ?r1 = "snd (ring_get cap r)"
  obtain cs where cs: "ring_read cap n ?r1 = (cs, r')" "bs = fst (ring_get cap r) # cs"
    using Suc.prems(3) by (auto split: prod.splits)
  have "0 < count r" using Suc.prems(2) by simp
  note g = ring_get_contents [OF Suc.prems(1) this]
  have "count ?r1 = count r - 1" by (simp add: ring_get_def)
  with Suc.IH [OF g(1) _ cs(1)] Suc.prems(2) g(2) cs(2) show ?case by simp
qed simp

end
