(* ===== verification/Vnode.thy ===== *)
theory Vnode
  imports Prelude
begin

section \<open>File system nodes and descriptor tables (\<open>kernel/fs/vfs.h\<close>, \<open>kernel/proc/task.h\<close>)\<close>

text \<open>
  The struct every file-like object of the kernel hangs on, and the part of the process struct that
  holds the descriptor table. A node is stored at its address; \<open>0\<close> is \<open>NULL\<close>. The table of operations
  a node points to is one of finitely many static structs, named by \<open>fs_ops\<close>.
\<close>

datatype fs_ops = NoOps | PipeReadOps | PipeWriteOps | EventfdOps | UnixSocketOps | RamfsOps

record vfs_node =
  n_name :: bytes
  n_flags :: u32
  n_permissions :: u32
  n_refcount :: u32
  n_length :: u64
  n_inode :: u64
  n_ops :: fs_ops
  n_ptr :: nat
  n_parent :: nat
  n_children :: nat
  n_next :: nat

record process =
  pid :: u64
  cr3 :: u64
  files :: "nat \<Rightarrow> nat"
  file_offsets :: "nat \<Rightarrow> u64"
  file_flags :: "nat \<Rightarrow> u32"

abbreviation (input) MAX_OPEN_FILES :: nat where "MAX_OPEN_FILES \<equiv> 128"
abbreviation (input) FS_FILE :: u32 where "FS_FILE \<equiv> 0x10000"
abbreviation (input) FS_DIRECTORY :: u32 where "FS_DIRECTORY \<equiv> 0x20000"
abbreviation (input) FS_MOUNTPOINT :: u32 where "FS_MOUNTPOINT \<equiv> 0x40000"
abbreviation (input) FS_SOCKET :: u32 where "FS_SOCKET \<equiv> 0x80000"
abbreviation (input) FS_SYMLINK :: u32 where "FS_SYMLINK \<equiv> 0x100000"

abbreviation (input) O_RDONLY :: u32 where "O_RDONLY \<equiv> 0"
abbreviation (input) O_WRONLY :: u32 where "O_WRONLY \<equiv> 1"
abbreviation (input) O_NONBLOCK :: u32 where "O_NONBLOCK \<equiv> 2048"

text \<open>A string literal of the source, without its terminator.\<close>

definition cstr :: "string \<Rightarrow> bytes" where
  "cstr s = map of_char s"

text \<open>A zeroed node, as \<open>kzalloc\<close> gives it.\<close>

definition zero_node :: vfs_node where
  "zero_node = \<lparr>n_name = [], n_flags = 0, n_permissions = 0, n_refcount = 0, n_length = 0, n_inode = 0,
     n_ops = NoOps, n_ptr = 0, n_parent = 0, n_children = 0, n_next = 0\<rparr>"

text \<open>\<open>sizeof(vfs_node_t)\<close>.\<close>

abbreviation (input) VFS_NODE_SIZE :: u64 where "VFS_NODE_SIZE \<equiv> 200"

end
