(* ===== verification/Pipe.thy ===== *)
theory Pipe
  imports Blocking Ring Objects Vnode "HOL-Library.Monad_Syntax"
begin

section \<open>Pipes (\<open>kernel/proc/pipe.c\<close>)\<close>

text \<open>
  The ring buffer of a pipe with its two waiter slots, the read and write operations section by section
  (from their call, or from their return from \<open>sched_yield\<close>, to the next yield), the close
  operations, \<open>pipe_poll_state\<close> and \<open>pipe_create\<close>. Reads and writes of any tasks interleave in \<open>pipe_step\<close>, a step
  relation whose steps are these sections and context switches.

  Pipes and nodes are kept at the addresses the heap gives them; an address that holds none (freed, or
  never allocated) reads as \<open>None\<close>.
\<close>

subsection \<open>Data\<close>

abbreviation (input) PIPE_BUF_SIZE :: nat where "PIPE_BUF_SIZE \<equiv> 4096"

record pipe = ring +
  write_closed :: bool
  read_closed :: bool
  ref_count :: int
  blocked_reader :: "nat option"
  blocked_writer :: "nat option"

text \<open>\<open>sizeof(pipe_t)\<close>.\<close>

abbreviation (input) PIPE_SIZE :: u64 where "PIPE_SIZE \<equiv> 4136"

subsection \<open>Reading\<close>

text \<open>
  One round of the waiting loop and, when there is data, the transfer. The result is the return value
  with the bytes put into the caller's buffer.
\<close>

definition pipe_read_wait :: "nat \<Rightarrow> pipe \<Rightarrow> sched \<Rightarrow> (int \<times> bytes, nat) outcome \<times> pipe \<times> sched" where
  "pipe_read_wait sz p s =
     (if count p = 0 then
        if write_closed p then (Ret (0, []), p, s)
        else (case current_task s of
                Some t \<Rightarrow> (Yield sz, p\<lparr>blocked_reader := Some t\<rparr>, sched_block (Some t) s)
              | None \<Rightarrow> (Spin sz, p, s))
      else
        let to_read = (if sz < count p then sz else count p);
            (bs, p1) = ring_read PIPE_BUF_SIZE to_read p
        in (Ret (int to_read, bs), p1\<lparr>blocked_writer := None\<rparr>, sched_unblock (blocked_writer p1) s))"

text \<open>After \<open>sched_yield\<close> the reader clears its slot and looks again.\<close>

definition pipe_read_resume :: "nat \<Rightarrow> pipe \<Rightarrow> sched \<Rightarrow> (int \<times> bytes, nat) outcome \<times> pipe \<times> sched" where
  "pipe_read_resume sz p s = pipe_read_wait sz (p\<lparr>blocked_reader := None\<rparr>) s"

subsection \<open>Writing\<close>

text \<open>\<open>rest\<close> are the bytes of the caller's buffer from \<open>total_written\<close> on.\<close>

fun pipe_write_loop :: "bytes \<Rightarrow> nat \<Rightarrow> pipe \<Rightarrow> sched \<Rightarrow> (int, bytes \<times> nat) outcome \<times> pipe \<times> sched" where
  "pipe_write_loop [] total_written p s = (Ret (int total_written), p, s)"
| "pipe_write_loop (b # rest) total_written p s =
     (if count p \<ge> PIPE_BUF_SIZE then
        if read_closed p then (Ret (if total_written > 0 then int total_written else - EPIPE), p, s)
        else (case current_task s of
                Some t \<Rightarrow> (Yield (b # rest, total_written), p\<lparr>blocked_writer := Some t\<rparr>, sched_block (Some t) s)
              | None \<Rightarrow> (Spin (b # rest, total_written), p, s))
      else
        let p1 = ring_put PIPE_BUF_SIZE b p;
            s1 = sched_unblock (blocked_reader p1) (io_wake_all s)
        in pipe_write_loop rest (total_written + 1) (p1\<lparr>blocked_reader := None\<rparr>) s1)"

definition pipe_write_start :: "bytes \<Rightarrow> pipe \<Rightarrow> sched \<Rightarrow> (int, bytes \<times> nat) outcome \<times> pipe \<times> sched" where
  "pipe_write_start buffer p s =
     (if read_closed p then (Ret (- EPIPE), p, s) else pipe_write_loop buffer 0 p s)"

definition pipe_write_resume :: "bytes \<Rightarrow> nat \<Rightarrow> pipe \<Rightarrow> sched \<Rightarrow> (int, bytes \<times> nat) outcome \<times> pipe \<times> sched" where
  "pipe_write_resume rest total_written p s = pipe_write_loop rest total_written (p\<lparr>blocked_writer := None\<rparr>) s"

subsection \<open>Closing an end\<close>

text \<open>The changes to the pipe and the scheduler; the pipe is released when no reference is left.\<close>

definition pipe_read_close :: "pipe \<Rightarrow> sched \<Rightarrow> pipe \<times> sched" where
  "pipe_read_close p s =
     (p\<lparr>read_closed := True, ref_count := ref_count p - 1, blocked_writer := None\<rparr>,
      sched_unblock (blocked_writer p) s)"

definition pipe_write_close :: "pipe \<Rightarrow> sched \<Rightarrow> pipe \<times> sched" where
  "pipe_write_close p s =
     (p\<lparr>write_closed := True, ref_count := ref_count p - 1, blocked_reader := None\<rparr>,
      sched_unblock (blocked_reader p) s)"

subsection \<open>The operations on nodes\<close>

record pipe_sys =
  p_heap :: heap
  p_sched :: sched
  pipes :: "nat \<Rightarrow> pipe option"
  vnodes :: "nat \<Rightarrow> vfs_node option"

text \<open>The pipe behind a node: \<open>None\<close> for a dangling pointer, \<open>Some None\<close> when a \<open>NULL\<close> check fails.\<close>

definition node_pipe :: "nat \<Rightarrow> pipe_sys \<Rightarrow> (nat \<times> pipe) option option" where
  "node_pipe node st =
     (if node = 0 then Some None
      else case vnodes st node of
        None \<Rightarrow> None
      | Some n \<Rightarrow> if n_ptr n = 0 then Some None
                 else map_option (\<lambda>p. Some (n_ptr n, p)) (pipes st (n_ptr n)))"

definition put_pipe :: "nat \<Rightarrow> pipe \<times> sched \<Rightarrow> pipe_sys \<Rightarrow> pipe_sys" where
  "put_pipe a ps st = st\<lparr>pipes := (pipes st)(a \<mapsto> fst ps), p_sched := snd ps\<rparr>"

definition pipe_read_op :: "nat \<Rightarrow> nat \<Rightarrow> nat \<Rightarrow> pipe_sys \<Rightarrow> ((int \<times> bytes, nat) outcome \<times> pipe_sys) option" where
  "pipe_read_op node sz buffer st = do {
     np \<leftarrow> node_pipe node st;
     (case np of
        None \<Rightarrow> Some (Ret (- EBADF, []), st)
      | Some (a, p) \<Rightarrow>
          if buffer = 0 \<or> sz = 0 then Some (Ret (- EBADF, []), st)
          else let (r, ps) = pipe_read_wait sz p (p_sched st) in Some (r, put_pipe a ps st))
   }"

definition pipe_write_op :: "nat \<Rightarrow> bytes option \<Rightarrow> pipe_sys \<Rightarrow> ((int, bytes \<times> nat) outcome \<times> pipe_sys) option" where
  "pipe_write_op node buffer st = do {
     np \<leftarrow> node_pipe node st;
     (case (np, buffer) of
        (Some (a, p), Some bs) \<Rightarrow>
          if bs = [] then Some (Ret (- EBADF), st)
          else let (r, ps) = pipe_write_start bs p (p_sched st) in Some (r, put_pipe a ps st)
      | _ \<Rightarrow> Some (Ret (- EBADF), st))
   }"

definition pipe_drop :: "nat \<Rightarrow> nat \<Rightarrow> nat \<Rightarrow> pipe_sys \<Rightarrow> pipe_sys option" where
  "pipe_drop hhdm node a st = do {
     p \<leftarrow> pipes st a;
     st1 \<leftarrow> (if ref_count p \<le> 0
              then do { h \<leftarrow> kfree hhdm a (p_heap st); Some (st\<lparr>p_heap := h, pipes := (pipes st)(a := None)\<rparr>) }
              else Some st);
     h \<leftarrow> kfree hhdm node (p_heap st1);
     Some (st1\<lparr>p_heap := h, vnodes := (vnodes st1)(node := None)\<rparr>)
   }"

definition pipe_read_close_op :: "nat \<Rightarrow> nat \<Rightarrow> pipe_sys \<Rightarrow> pipe_sys option" where
  "pipe_read_close_op hhdm node st = do {
     np \<leftarrow> node_pipe node st;
     (case np of
        None \<Rightarrow> Some st
      | Some (a, p) \<Rightarrow> pipe_drop hhdm node a (put_pipe a (pipe_read_close p (p_sched st)) st))
   }"

definition pipe_write_close_op :: "nat \<Rightarrow> nat \<Rightarrow> pipe_sys \<Rightarrow> pipe_sys option" where
  "pipe_write_close_op hhdm node st = do {
     np \<leftarrow> node_pipe node st;
     (case np of
        None \<Rightarrow> Some st
      | Some (a, p) \<Rightarrow> pipe_drop hhdm node a (put_pipe a (pipe_write_close p (p_sched st)) st))
   }"

text \<open>The readiness flags: readable, writable, hangup, error.\<close>

definition pipe_poll_state :: "nat \<Rightarrow> pipe_sys \<Rightarrow> (bool \<times> bool \<times> bool \<times> bool) option option" where
  "pipe_poll_state node st = do {
     np \<leftarrow> node_pipe node st;
     (case np of
        None \<Rightarrow> Some None
      | Some (a, p) \<Rightarrow> do {
          n \<leftarrow> vnodes st node;
          Some (case n_ops n of
                  PipeReadOps \<Rightarrow> Some (count p > 0, False, write_closed p, False)
                | PipeWriteOps \<Rightarrow> Some (False, count p < PIPE_BUF_SIZE, False, read_closed p)
                | _ \<Rightarrow> None)
        })
   }"

subsection \<open>Creating a pipe\<close>

text \<open>The two lowest free descriptors from 3 on.\<close>

fun fd_scan :: "(nat \<Rightarrow> nat) \<Rightarrow> nat list \<Rightarrow> nat option \<Rightarrow> nat option \<Rightarrow> nat option \<times> nat option" where
  "fd_scan fs [] rfd wfd = (rfd, wfd)"
| "fd_scan fs (i # is) rfd wfd =
     (if fs i = 0 then
        if rfd = None then fd_scan fs is (Some i) wfd
        else if wfd = None then (rfd, Some i) else fd_scan fs is rfd wfd
      else fd_scan fs is rfd wfd)"

definition free_fds :: "process \<Rightarrow> nat option \<times> nat option" where
  "free_fds pr = fd_scan (files pr) [3..<MAX_OPEN_FILES] None None"

definition new_pipe :: pipe where
  "new_pipe = \<lparr>rbuf = \<lambda>_. 0, read_pos = 0, write_pos = 0, count = 0, write_closed = False, read_closed = False,
     ref_count = 2, blocked_reader = None, blocked_writer = None\<rparr>"

definition pipe_node :: "string \<Rightarrow> fs_ops \<Rightarrow> nat \<Rightarrow> vfs_node" where
  "pipe_node nm ops p = zero_node\<lparr>n_name := cstr nm, n_flags := FS_FILE, n_refcount := 1, n_ops := ops, n_ptr := p\<rparr>"

definition kfree_opt :: "nat \<Rightarrow> nat \<Rightarrow> heap \<Rightarrow> heap option" where
  "kfree_opt hhdm a h = (if a \<noteq> 0 then kfree hhdm a h else Some h)"

definition set_fd :: "nat \<Rightarrow> nat \<Rightarrow> u32 \<Rightarrow> process \<Rightarrow> process" where
  "set_fd fd node fl pr = pr\<lparr>files := (files pr)(fd := node), file_offsets := (file_offsets pr)(fd := 0),
     file_flags := (file_flags pr)(fd := fl)\<rparr>"

text \<open>The result code, the two descriptors on success, and the new process and kernel state; \<open>cur\<close> is the
  process of the current task.\<close>

definition pipe_create ::
  "nat \<Rightarrow> (pmm \<Rightarrow> pmm) \<Rightarrow> process option \<Rightarrow> pipe_sys \<Rightarrow>
     (int \<times> (nat \<times> nat) option \<times> process option \<times> pipe_sys) option" where
  "pipe_create hhdm oom cur st = (case cur of None \<Rightarrow> Some (- EINVAL, None, None, st) | Some pr \<Rightarrow> do {
     (p, h1) \<leftarrow> kmalloc hhdm oom PIPE_SIZE (p_heap st);
     if p = 0 then Some (- ENOMEM, None, Some pr, st\<lparr>p_heap := h1\<rparr>)
     else do {
       let st1 = st\<lparr>pipes := (pipes st)(p \<mapsto> new_pipe)\<rparr>;
       (r_node, h2) \<leftarrow> kzalloc hhdm oom VFS_NODE_SIZE h1;
       (w_node, h3) \<leftarrow> kzalloc hhdm oom VFS_NODE_SIZE h2;
       if r_node = 0 \<or> w_node = 0 then do {
         h4 \<leftarrow> kfree_opt hhdm r_node h3;
         h5 \<leftarrow> kfree_opt hhdm w_node h4;
         h6 \<leftarrow> kfree hhdm p h5;
         Some (- ENOMEM, None, Some pr, st1\<lparr>p_heap := h6, pipes := (pipes st1)(p := None)\<rparr>)
       } else do {
         let st2 = st1\<lparr>p_heap := h3, vnodes := (vnodes st1)
           (r_node \<mapsto> pipe_node ''pipe:r'' PipeReadOps p, w_node \<mapsto> pipe_node ''pipe:w'' PipeWriteOps p)\<rparr>;
         (case free_fds pr of
            (Some rfd, Some wfd) \<Rightarrow>
              Some (0, Some (rfd, wfd), Some (set_fd wfd w_node O_WRONLY (set_fd rfd r_node O_RDONLY pr)), st2)
          | _ \<Rightarrow> do {
              h4 \<leftarrow> kfree hhdm r_node h3;
              h5 \<leftarrow> kfree hhdm w_node h4;
              h6 \<leftarrow> kfree hhdm p h5;
              Some (- EMFILE, None, Some pr, st2\<lparr>p_heap := h6, pipes := (pipes st2)(p := None),
                vnodes := (vnodes st2)(r_node := None, w_node := None)\<rparr>)
            })
       }
     }
   })"

subsection \<open>Interleavings\<close>

text \<open>
  Where a task is inside the pipe operations: nowhere, or at the yield of a read or of a write (with
  the bytes still to write and the number written so far). \<open>sent\<close> and \<open>got\<close> record what the writers have put
  in and what the readers have received, over all calls.
\<close>

datatype ppc = Idle | Reading nat | Writing bytes nat

record psys =
  pp :: pipe
  ps :: sched
  pcs :: "nat \<Rightarrow> ppc"
  sent :: bytes
  got :: bytes

definition after_read :: "u64 \<Rightarrow> nat \<Rightarrow> (int \<times> bytes, nat) outcome \<times> pipe \<times> sched \<Rightarrow> psys \<Rightarrow> psys" where
  "after_read sp t r y =
     (case r of
        (Ret (v, bs), p, s) \<Rightarrow> y\<lparr>pp := p, ps := s, pcs := (pcs y)(t := Idle), got := got y @ bs\<rparr>
      | (Yield n, p, s) \<Rightarrow> y\<lparr>pp := p, ps := snd (sched_switch sp s), pcs := (pcs y)(t := Reading n)\<rparr>
      | (Spin n, p, s) \<Rightarrow> y\<lparr>pp := p, ps := s\<rparr>)"

definition after_write :: "u64 \<Rightarrow> nat \<Rightarrow> bytes \<Rightarrow> nat \<Rightarrow> (int, bytes \<times> nat) outcome \<times> pipe \<times> sched \<Rightarrow> psys \<Rightarrow> psys" where
  "after_write sp t buffer tw r y =
     (case r of
        (Ret v, p, s) \<Rightarrow> y\<lparr>pp := p, ps := s, pcs := (pcs y)(t := Idle), sent := sent y @ take (nat v - tw) buffer\<rparr>
      | (Yield (rest, n), p, s) \<Rightarrow> y\<lparr>pp := p, ps := snd (sched_switch sp s), pcs := (pcs y)(t := Writing rest n),
            sent := sent y @ take (n - tw) buffer\<rparr>
      | (Spin (rest, n), p, s) \<Rightarrow> y\<lparr>pp := p, ps := s, sent := sent y @ take (n - tw) buffer\<rparr>)"

text \<open>
  \<open>rd\<close> and \<open>wr\<close> are the tasks that hold the read end and the write end. The step is always one of the
  current task, or a context switch (the timer, or a yield of any other code).
\<close>

inductive pipe_step :: "(nat \<Rightarrow> bool) \<Rightarrow> (nat \<Rightarrow> bool) \<Rightarrow> psys \<Rightarrow> psys \<Rightarrow> bool" for rd wr where
  switch: "pipe_step rd wr y (y\<lparr>ps := snd (sched_switch sp (ps y))\<rparr>)"
| do_read: "current_task (ps y) = Some t \<Longrightarrow> rd t \<Longrightarrow> pcs y t = Idle \<Longrightarrow> 0 < n \<Longrightarrow>
    pipe_step rd wr y (after_read sp t (pipe_read_wait n (pp y) (ps y)) y)"
| read_resume: "current_task (ps y) = Some t \<Longrightarrow> pcs y t = Reading n \<Longrightarrow>
    pipe_step rd wr y (after_read sp t (pipe_read_resume n (pp y) (ps y)) y)"
| do_write: "current_task (ps y) = Some t \<Longrightarrow> wr t \<Longrightarrow> pcs y t = Idle \<Longrightarrow> bs \<noteq> [] \<Longrightarrow>
    pipe_step rd wr y (after_write sp t bs 0 (pipe_write_start bs (pp y) (ps y)) y)"
| write_resume: "current_task (ps y) = Some t \<Longrightarrow> pcs y t = Writing bs k \<Longrightarrow>
    pipe_step rd wr y (after_write sp t bs k (pipe_write_resume bs k (pp y) (ps y)) y)"
| close_read: "current_task (ps y) = Some t \<Longrightarrow> rd t \<Longrightarrow> pcs y t = Idle \<Longrightarrow> \<not> read_closed (pp y) \<Longrightarrow>
    pipe_read_close (pp y) (ps y) = (p, s) \<Longrightarrow> pipe_step rd wr y (y\<lparr>pp := p, ps := s\<rparr>)"
| close_write: "current_task (ps y) = Some t \<Longrightarrow> wr t \<Longrightarrow> pcs y t = Idle \<Longrightarrow> \<not> write_closed (pp y) \<Longrightarrow>
    pipe_write_close (pp y) (ps y) = (p, s) \<Longrightarrow> pipe_step rd wr y (y\<lparr>pp := p, ps := s\<rparr>)"

definition pipe_start :: "sched \<Rightarrow> psys" where
  "pipe_start s = \<lparr>pp = new_pipe, ps = s, pcs = \<lambda>_. Idle, sent = [], got = []\<rparr>"

subsubsection \<open>First in, first out\<close>

abbreviation pipe_ok :: "pipe \<Rightarrow> bool" where "pipe_ok \<equiv> ring_ok PIPE_BUF_SIZE"
abbreviation pipe_contents :: "pipe \<Rightarrow> bytes" where "pipe_contents \<equiv> ring_contents PIPE_BUF_SIZE"

text \<open>The fields outside the ring do not matter for the contents.\<close>

lemma pipe_upd [simp]:
  "pipe_ok (p\<lparr>blocked_reader := x\<rparr>) = pipe_ok p" "pipe_contents (p\<lparr>blocked_reader := x\<rparr>) = pipe_contents p"
  "pipe_ok (p\<lparr>blocked_writer := x\<rparr>) = pipe_ok p" "pipe_contents (p\<lparr>blocked_writer := x\<rparr>) = pipe_contents p"
  "pipe_ok (p\<lparr>read_closed := b\<rparr>) = pipe_ok p" "pipe_contents (p\<lparr>read_closed := b\<rparr>) = pipe_contents p"
  "pipe_ok (p\<lparr>write_closed := b\<rparr>) = pipe_ok p" "pipe_contents (p\<lparr>write_closed := b\<rparr>) = pipe_contents p"
  "pipe_ok (p\<lparr>ref_count := k\<rparr>) = pipe_ok p" "pipe_contents (p\<lparr>ref_count := k\<rparr>) = pipe_contents p"
  by (simp_all add: ring_ok_def ring_contents_def)

lemma pipe_read_wait_cases:
  assumes ok: "pipe_ok p" and r: "pipe_read_wait n p s = (r, p', s')"
  obtains (eof) "r = Ret (0, [])" "p' = p" "s' = s" "count p = 0" "write_closed p"
  | (wait) t where "r = Yield n" "p' = p\<lparr>blocked_reader := Some t\<rparr>" "s' = sched_block (Some t) s"
      "current_task s = Some t" "count p = 0" "\<not> write_closed p"
  | (spin) "r = Spin n" "p' = p" "s' = s" "current_task s = None"
  | (data) bs where "r = Ret (int (min n (count p)), bs)" "0 < count p" "pipe_ok p'" "blocked_writer p' = None"
      "pipe_contents p = bs @ pipe_contents p'" "length bs = min n (count p)"
      "s' = sched_unblock (blocked_writer p) s" "read_closed p' = read_closed p"
      "write_closed p' = write_closed p" "blocked_reader p' = blocked_reader p"
proof (cases "count p = 0")
  case True
  with r eof wait spin show thesis by (auto simp: pipe_read_wait_def split: if_splits option.splits)
next
  case False
  obtain bs p1 where g: "ring_read PIPE_BUF_SIZE (min n (count p)) p = (bs, p1)" by force
  have more: "blocked_writer p1 = blocked_writer p \<and> blocked_reader p1 = blocked_reader p \<and>
      read_closed p1 = read_closed p \<and> write_closed p1 = write_closed p"
    if "ring_read c k p = (bs, p1)" for c k bs and p p1 :: pipe
    using that by (induction k arbitrary: p bs) (fastforce simp: ring_get_def split: prod.splits)+
  have "(if n < count p then n else count p) = min n (count p)" by simp
  with False g r have e: "r = Ret (int (min n (count p)), bs)" "p' = p1\<lparr>blocked_writer := None\<rparr>"
    "s' = sched_unblock (blocked_writer p1) s" by (auto simp: pipe_read_wait_def Let_def)
  from ring_read_contents [OF ok _ g] have "pipe_ok p1" "bs @ pipe_contents p1 = pipe_contents p" "length bs = min n (count p)"
    by auto
  with more [OF g] e False data [of bs] show thesis by simp
qed

text \<open>A section of a write puts a prefix of the bytes into the pipe and reports its length.\<close>

lemma pipe_write_loop_fifo:
  assumes "pipe_ok p" and "pipe_write_loop bs tw p s = (r, p', s')"
  shows "pipe_ok p' \<and> (\<exists>k \<le> length bs. pipe_contents p' = pipe_contents p @ take k bs \<and>
    (case r of Ret v \<Rightarrow> v = int (tw + k) \<or> v = - EPIPE \<and> tw + k = 0
     | Yield (rest, n) \<Rightarrow> rest = drop k bs \<and> n = tw + k | Spin (rest, n) \<Rightarrow> rest = drop k bs \<and> n = tw + k))"
  using assms
proof (induction bs tw p s rule: pipe_write_loop.induct)
  case (2 b rest tw p s)
  show ?case
  proof (cases "PIPE_BUF_SIZE \<le> count p")
    case True
    with "2.prems" show ?thesis by (auto split: if_splits option.splits intro!: exI [of _ 0])
  next
    case False
    let ?p1 = "ring_put PIPE_BUF_SIZE b p"
    let ?s1 = "sched_unblock (blocked_reader ?p1) (io_wake_all s)"
    have put: "pipe_ok ?p1" "pipe_contents ?p1 = pipe_contents p @ [b]"
      using ring_put_contents [OF "2.prems"(1), of b] False by auto
    have run: "pipe_write_loop rest (tw + 1) (?p1\<lparr>blocked_reader := None\<rparr>) ?s1 = (r, p', s')"
      using "2.prems"(2) False by (simp add: Let_def)
    from "2.IH" [OF _ refl refl _ run] False put obtain k where k: "k \<le> length rest" "pipe_ok p'"
      "pipe_contents p' = pipe_contents p @ take (Suc k) (b # rest)"
      "case r of Ret v \<Rightarrow> v = int (tw + 1 + k) \<or> v = - EPIPE \<and> tw + 1 + k = 0
       | Yield (rst, n) \<Rightarrow> rst = drop k rest \<and> n = tw + 1 + k | Spin (rst, n) \<Rightarrow> rst = drop k rest \<and> n = tw + 1 + k"
      by auto
    then show ?thesis by (intro conjI exI [of _ "Suc k"]) (auto split: outcome.splits)
  qed
qed auto

definition fifo_inv :: "psys \<Rightarrow> bool" where
  "fifo_inv y \<longleftrightarrow> pipe_ok (pp y) \<and> sent y = got y @ pipe_contents (pp y)"

lemma after_read_fifo:
  assumes "fifo_inv y" and "pipe_read_wait n p s = (r, p', s')" and "pipe_ok p" and "pipe_contents p = pipe_contents (pp y)"
  shows "fifo_inv (after_read sp t (r, p', s') y)"
  using assms(3,2)
proof (cases rule: pipe_read_wait_cases)
  case (data bs)
  with assms(1,4) show ?thesis by (simp add: fifo_inv_def after_read_def)
qed (use assms in \<open>simp_all add: fifo_inv_def after_read_def\<close>)

lemma after_write_fifo:
  assumes y: "fifo_inv y" and run: "pipe_write_loop bs tw p s = (r, p', s')" and p: "pipe_ok p"
    and c: "pipe_contents p = pipe_contents (pp y)"
  shows "fifo_inv (after_write sp t bs tw (r, p', s') y)"
proof -
  from pipe_write_loop_fifo [OF p run] obtain k where
    k: "pipe_ok p'" "pipe_contents p' = pipe_contents p @ take k bs"
      "case r of Ret v \<Rightarrow> v = int (tw + k) \<or> v = - EPIPE \<and> tw + k = 0
       | Yield (rest, n) \<Rightarrow> rest = drop k bs \<and> n = tw + k | Spin (rest, n) \<Rightarrow> rest = drop k bs \<and> n = tw + k"
    by blast
  from k(3) have "nat v - tw = k" if "r = Ret v" for v using that by auto
  with k c y show ?thesis by (auto simp: fifo_inv_def after_write_def split: outcome.splits)
qed

lemma pipe_step_fifo: "pipe_step rd wr y y' \<Longrightarrow> fifo_inv y \<Longrightarrow> fifo_inv y'"
proof (induction rule: pipe_step.induct)
  case (do_read y t n sp)
  obtain r p s where "pipe_read_wait n (pp y) (ps y) = (r, p, s)" by (metis prod_cases3)
  with after_read_fifo [OF do_read(5) this] do_read(5) show ?case by (simp add: fifo_inv_def)
next
  case (read_resume y t n sp)
  obtain r p s where "pipe_read_wait n ((pp y)\<lparr>blocked_reader := None\<rparr>) (ps y) = (r, p, s)" by (metis prod_cases3)
  with after_read_fifo [OF read_resume(3) this] read_resume(3) show ?case
    by (simp add: pipe_read_resume_def fifo_inv_def)
next
  case (do_write y t bs sp)
  obtain r p s where "pipe_write_loop bs 0 (pp y) (ps y) = (r, p, s)" by (metis prod_cases3)
  with after_write_fifo [OF do_write(5) this] do_write(5) show ?case
    by (auto simp: pipe_write_start_def fifo_inv_def after_write_def)
next
  case (write_resume y t bs k sp)
  obtain r p s where "pipe_write_loop bs k ((pp y)\<lparr>blocked_writer := None\<rparr>) (ps y) = (r, p, s)" by (metis prod_cases3)
  with after_write_fifo [OF write_resume(3) this] write_resume(3) show ?case
    by (simp add: pipe_write_resume_def fifo_inv_def)
qed (auto simp: fifo_inv_def pipe_read_close_def pipe_write_close_def)

lemma new_pipe_ok: "pipe_ok new_pipe" "pipe_contents new_pipe = []"
  by (simp_all add: new_pipe_def ring_ok_def ring_contents_def)

lemma reachable_fifo: "(pipe_step rd wr)\<^sup>*\<^sup>* (pipe_start s) y \<Longrightarrow> fifo_inv y"
proof (induction rule: rtranclp_induct)
  case base
  show ?case by (simp add: fifo_inv_def pipe_start_def new_pipe_ok)
qed (rule pipe_step_fifo)

subsubsection \<open>No lost wake-ups\<close>

definition reader_ok :: "nat \<Rightarrow> pipe \<Rightarrow> sched \<Rightarrow> bool" where
  "reader_ok r p s \<longleftrightarrow> queued s r \<or> blocked_reader p = Some r \<and> count p = 0 \<and> \<not> write_closed p"

definition writer_ok :: "nat \<Rightarrow> pipe \<Rightarrow> sched \<Rightarrow> bool" where
  "writer_ok w p s \<longleftrightarrow> queued s w \<or> blocked_writer p = Some w \<and> count p = PIPE_BUF_SIZE \<and> \<not> read_closed p"

definition wake_inv :: "nat \<Rightarrow> nat \<Rightarrow> psys \<Rightarrow> bool" where
  "wake_inv r w y \<longleftrightarrow> sched_ok (ps y) \<and> pipe_ok (pp y) \<and>
     (\<forall>t n. t \<noteq> r \<longrightarrow> pcs y t \<noteq> Reading n) \<and> (\<forall>n. pcs y r = Reading n \<longrightarrow> reader_ok r (pp y) (ps y)) \<and>
     (\<forall>t bs k. t \<noteq> w \<longrightarrow> pcs y t \<noteq> Writing bs k) \<and>
     (\<forall>bs k. pcs y w = Writing bs k \<longrightarrow> writer_ok w (pp y) (ps y))"

lemma current_task_wake [simp]: "current_task (sched_wake x s) = current_task s"
  by (cases x) auto

lemma current_task_io_wake_all [simp]: "current_task (io_wake_all s) = current_task s"
proof -
  have "current_task (fold (\<lambda>t. sched_wake (Some t)) ws s) = current_task s" for ws
    by (induction ws arbitrary: s) (simp_all del: sched_wake.simps)
  then show ?thesis by (simp add: io_wake_all_def)
qed

lemma current_task_unblock [simp]: "current_task (sched_unblock x s) = current_task s"
  by (simp add: sched_unblock_def)

lemma ok_switch:
  "sched_ok s \<Longrightarrow> sched_ok (snd (sched_switch sp s))"
  "sched_ok s \<Longrightarrow> reader_ok r p s \<Longrightarrow> reader_ok r p (snd (sched_switch sp s))"
  "sched_ok s \<Longrightarrow> writer_ok w p s \<Longrightarrow> writer_ok w p (snd (sched_switch sp s))"
  using wt.switch_ready by (auto simp: reader_ok_def writer_ok_def)

lemma pipe_write_loop_wake:
  assumes "sched_ok s" and "pipe_ok p" and "current_task s = Some w" and "r \<noteq> w"
    and "pipe_write_loop bs tw p s = (x, p', s')"
  shows "sched_ok s' \<and> (reader_ok r p s \<longrightarrow> reader_ok r p' s') \<and>
    (\<forall>c. x \<noteq> Spin c) \<and> (\<forall>c. x = Yield c \<longrightarrow> blocked_writer p' = Some w \<and> count p' = PIPE_BUF_SIZE \<and> \<not> read_closed p')"
  using assms
proof (induction bs tw p s rule: pipe_write_loop.induct)
  case (2 b rest tw p s)
  show ?case
  proof (cases "PIPE_BUF_SIZE \<le> count p")
    case True
    moreover have "count p \<le> PIPE_BUF_SIZE" using "2.prems"(2) by (simp add: ring_ok_def)
    ultimately show ?thesis
      using "2.prems" wt.block_ready [OF "2.prems"(1)]
      by (auto simp: reader_ok_def simp del: sched_block.simps split: if_splits)
  next
    case False
    define p1 where "p1 = ring_put PIPE_BUF_SIZE b p"
    define s1 where "s1 = sched_unblock (blocked_reader p1) (io_wake_all s)"
    have put: "pipe_ok p1" using ring_put_contents [OF "2.prems"(2), of b] False by (simp add: p1_def)
    have run: "pipe_write_loop rest (tw + 1) (p1\<lparr>blocked_reader := None\<rparr>) s1 = (x, p', s')"
      using "2.prems"(5) False by (simp add: Let_def p1_def s1_def)
    have w: "sched_ok (io_wake_all s)" "queued s r \<longrightarrow> queued (io_wake_all s) r" using wt.wake_ready [OF "2.prems"(1)] by auto
    have "sched_ok s1" "current_task s1 = Some w"
      using wt.unblock_slot(1) [OF w(1)] "2.prems"(3) by (simp_all add: s1_def)
    moreover have "reader_ok r p s \<Longrightarrow> queued s1 r"
      using wt.unblock_slot(2) [OF w(1), of r] w(2) by (auto simp: reader_ok_def s1_def p1_def ring_put_def)
    ultimately show ?thesis
      using "2.IH" [OF _ p1_def _ _ _ _ _ run] False put "2.prems"(4) by (auto simp: s1_def reader_ok_def)
  qed
qed (auto simp: reader_ok_def)

lemma after_write_wake:
  assumes y: "wake_inv r w y" and ne: "r \<noteq> w" and t: "current_task (ps y) = Some w"
    and p: "p = pp y \<or> p = (pp y)\<lparr>blocked_writer := None\<rparr>" and pc: "\<And>n. pcs y w \<noteq> Reading n"
    and run: "pipe_write_loop bs tw p (ps y) = (x, p', s')"
  shows "wake_inv r w (after_write sp w bs tw (x, p', s') y)"
proof -
  have ok: "sched_ok (ps y)" "pipe_ok p" using y p by (auto simp: wake_inv_def)
  note l = pipe_write_loop_wake [OF ok t ne run]
  have "reader_ok r p (ps y) = reader_ok r (pp y) (ps y)" using p by (auto simp: reader_ok_def)
  with l y have rd: "reader_ok r p' s'" if "pcs y r = Reading n" for n
    using that by (auto simp: wake_inv_def)
  have pok: "pipe_ok p'" using pipe_write_loop_fifo [OF ok(2) run] by blast
  have "reader_ok r p' (snd (sched_switch sp s'))" if "pcs y r = Reading n" for n
    using rd [OF that] ok_switch(2) [of s' r p' sp] l by blast
  moreover have "pcs y t \<noteq> Reading n" if "t \<noteq> r" for t n using y that by (auto simp: wake_inv_def)
  moreover have "pcs y t \<noteq> Writing b k" if "t \<noteq> w" for t b k using y that by (auto simp: wake_inv_def)
  ultimately show ?thesis
    using l pok pc ne rd ok_switch(1) [of s' sp]
    by (cases x) (auto simp: wake_inv_def after_write_def writer_ok_def split: if_splits)
qed

lemma after_read_wake:
  assumes y: "wake_inv r w y" and ne: "r \<noteq> w" and t: "current_task (ps y) = Some r"
    and p: "p = pp y \<or> p = (pp y)\<lparr>blocked_reader := None\<rparr>" and pc: "\<And>b k. pcs y r \<noteq> Writing b k"
    and run: "pipe_read_wait n p (ps y) = (x, p', s')"
  shows "wake_inv r w (after_read sp r (x, p', s') y)"
proof -
  have ok: "sched_ok (ps y)" "pipe_ok p" using y p by (auto simp: wake_inv_def)
  have "writer_ok w p (ps y) = writer_ok w (pp y) (ps y)" using p by (auto simp: writer_ok_def)
  then have wr: "writer_ok w p (ps y)" if "pcs y w = Writing b k" for b k
    using y that by (auto simp: wake_inv_def)
  have wr': "pcs y t \<noteq> Writing b k" if "t \<noteq> w" for t b k using y that by (auto simp: wake_inv_def)
  have rd: "pcs y t \<noteq> Reading k" if "t \<noteq> r" for t k using y that by (auto simp: wake_inv_def)
  from ok(2) run show ?thesis
  proof (cases rule: pipe_read_wait_cases)
    case (wait u)
    then have "u = r" using t by simp
    note b = wt.block_ready [OF ok(1), of r]
    have w: "writer_ok w p' s'" if "writer_ok w p (ps y)"
      using that b [of w] ne wait \<open>u = r\<close> by (auto simp: writer_ok_def simp del: sched_block.simps)
    have "sched_ok s'" "reader_ok r p' s'"
      using wait \<open>u = r\<close> b by (auto simp: reader_ok_def simp del: sched_block.simps)
    with w wr wr' rd ne ok(2) wait(1,2) ok_switch [of s'] show ?thesis by (auto simp: wake_inv_def after_read_def)
  next
    case (data bs)
    note u = wt.unblock_slot(1) [OF ok(1), of "blocked_writer p"] wt.unblock_slot(2) [OF ok(1), of w "blocked_writer p"]
    have "writer_ok w p' s'" if "writer_ok w p (ps y)"
      using that u(2) data by (auto simp: writer_ok_def)
    with wr wr' rd ne u data show ?thesis by (auto simp: wake_inv_def after_read_def split: if_splits)
  qed (use t ok wr wr' rd ne in \<open>auto simp: wake_inv_def after_read_def split: if_splits\<close>)
qed

lemma pipe_step_wake:
  assumes "pipe_step ((=) r) ((=) w) y y'" and "r \<noteq> w" and "wake_inv r w y"
  shows "wake_inv r w y'"
  using assms(1,3)
proof (induction rule: pipe_step.induct)
  case (switch y sp)
  then have "sched_ok (ps y)" by (simp add: wake_inv_def)
  with switch ok_switch [of "ps y"] show ?case by (auto simp: wake_inv_def)
next
  case (do_read y t n sp)
  obtain x p s where "pipe_read_wait n (pp y) (ps y) = (x, p, s)" by (metis prod_cases3)
  with after_read_wake [OF do_read(5) assms(2), of "pp y" n x p s sp] do_read show ?case by auto
next
  case (read_resume y t n sp)
  then have "t = r" by (auto simp: wake_inv_def)
  obtain x p s where "pipe_read_wait n ((pp y)\<lparr>blocked_reader := None\<rparr>) (ps y) = (x, p, s)" by (metis prod_cases3)
  with after_read_wake [OF read_resume(3) assms(2), of _ n x p s sp] read_resume \<open>t = r\<close> show ?case
    by (auto simp: pipe_read_resume_def)
next
  case (do_write y t bs sp)
  obtain x p s where "pipe_write_loop bs 0 (pp y) (ps y) = (x, p, s)" by (metis prod_cases3)
  with after_write_wake [OF do_write(5) assms(2), of "pp y" bs 0 x p s sp] do_write(1-3)
  have "wake_inv r w (after_write sp t bs 0 (pipe_write_loop bs 0 (pp y) (ps y)) y)" by simp
  moreover have "wake_inv r w (after_write sp t bs 0 (Ret v, pp y, ps y) y)" for v
    using do_write(5) by (auto simp: wake_inv_def after_write_def split: if_splits)
  ultimately show ?case by (simp add: pipe_write_start_def)
next
  case (write_resume y t bs k sp)
  then have "t = w" by (auto simp: wake_inv_def)
  obtain x p s where "pipe_write_loop bs k ((pp y)\<lparr>blocked_writer := None\<rparr>) (ps y) = (x, p, s)" by (metis prod_cases3)
  with after_write_wake [OF write_resume(3) assms(2), of _ bs k x p s sp] write_resume \<open>t = w\<close> show ?case
    by (auto simp: pipe_write_resume_def)
next
  case (close_read y t p s)
  note u = wt.unblock_slot(1) [of "ps y" "blocked_writer (pp y)"] wt.unblock_slot(2) [of "ps y" w "blocked_writer (pp y)"]
  from close_read have "sched_ok (ps y)" by (simp add: wake_inv_def)
  with close_read u show ?case
    by (fastforce simp: wake_inv_def pipe_read_close_def writer_ok_def)
next
  case (close_write y t p s)
  note u = wt.unblock_slot(1) [of "ps y" "blocked_reader (pp y)"] wt.unblock_slot(2) [of "ps y" r "blocked_reader (pp y)"]
  from close_write have "sched_ok (ps y)" by (simp add: wake_inv_def)
  with close_write u show ?case
    by (fastforce simp: wake_inv_def pipe_write_close_def reader_ok_def)
qed

lemma reachable_wake:
  assumes "(pipe_step ((=) r) ((=) w))\<^sup>*\<^sup>* (pipe_start s) y" and "r \<noteq> w" and "sched_ok s"
  shows "wake_inv r w y"
  using assms(1)
proof (induction rule: rtranclp_induct)
  case base
  show ?case using assms(3) by (simp add: wake_inv_def pipe_start_def new_pipe_ok)
next
  case (step y z)
  with pipe_step_wake assms(2) show ?case by blast
qed

subsection \<open>Creation and the heap\<close>

lemma fd_scan_one:
  "fd_scan fs is (Some r) None = (Some r, find (\<lambda>i. fs i = 0) is)"
  by (induction "is") auto

text \<open>The descriptors found are the lowest free ones.\<close>

lemma fd_scan_some:
  assumes "fd_scan fs [a..<b] None None = (Some r, Some w)"
  shows "a \<le> r \<and> r < w \<and> w < b \<and> fs r = 0 \<and> fs w = 0 \<and> (\<forall>i. a \<le> i \<and> i < w \<and> fs i = 0 \<longrightarrow> i = r)"
  using assms
proof (induction "b - a" arbitrary: a)
  case (Suc n)
  then have "a < b" by simp
  then have u: "[a..<b] = a # [Suc a..<b]" by (rule upt_conv_Cons)
  show ?case
  proof (cases "fs a = 0")
    case True
    with Suc.prems u have r: "r = a" "find (\<lambda>i. fs i = 0) [Suc a..<b] = Some w" by (auto simp: fd_scan_one)
    from r(2) obtain k where k: "k < b - Suc a" "w = Suc a + k" "fs w = 0" "\<forall>j < k. fs (Suc a + j) \<noteq> 0"
      by (auto simp: find_Some_iff)
    have f: "fs i \<noteq> 0" if "Suc a \<le> i" "i < w" for i using k(2) k(4) [rule_format, of "i - Suc a"] that by simp
    have "i = r" if "a \<le> i \<and> i < w \<and> fs i = 0" for i
      using f [of i] that r(1) by (cases "Suc a \<le> i") auto
    with r k True \<open>a < b\<close> show ?thesis by auto
  next
    case False
    have "n = b - Suc a" using Suc.hyps(2) by simp
    from Suc.hyps(1) [OF this] Suc.prems u False have
      h: "Suc a \<le> r" "r < w \<and> w < b \<and> fs r = 0 \<and> fs w = 0" "\<forall>i. Suc a \<le> i \<and> i < w \<and> fs i = 0 \<longrightarrow> i = r" by auto
    have "i = r" if "a \<le> i \<and> i < w \<and> fs i = 0" for i using h(3) that False by (cases "i = a") auto
    with h show ?thesis by auto
  qed
qed simp

definition psys_ok :: "nat \<Rightarrow> (pmm \<Rightarrow> pmm) \<Rightarrow> (nat \<times> nat) set \<Rightarrow> pipe_sys \<Rightarrow> (nat \<times> nat) set \<Rightarrow> bool" where
  "psys_ok hhdm oom A st L \<longleftrightarrow> heap_ok hhdm oom A (p_heap st) L \<and> dom (pipes st) \<union> dom (vnodes st) \<subseteq> fst ` L"

text \<open>What \<open>pipe_create\<close> leaves behind: on an error nothing, on success one pipe with two nodes on it.\<close>

definition create_post ::
  "nat \<Rightarrow> (pmm \<Rightarrow> pmm) \<Rightarrow> (nat \<times> nat) set \<Rightarrow> pipe_sys \<Rightarrow> (nat \<times> nat) set \<Rightarrow> process \<Rightarrow>
     int \<times> (nat \<times> nat) option \<times> process option \<times> pipe_sys \<Rightarrow> bool" where
  "create_post hhdm oom A st L pr res \<longleftrightarrow> (case res of (c, fds, pr', st') \<Rightarrow>
     (c = - ENOMEM \<or> c = - EMFILE) \<and> fds = None \<and> pr' = Some pr \<and> pipes st' = pipes st \<and> vnodes st' = vnodes st \<and>
       psys_ok hhdm oom A st' L \<or>
     c = 0 \<and> (\<exists>r w p rn wn k j i. fds = Some (r, w) \<and> free_fds pr = (Some r, Some w) \<and>
       pr' = Some (set_fd w wn O_WRONLY (set_fd r rn O_RDONLY pr)) \<and>
       pipes st' = (pipes st)(p \<mapsto> new_pipe) \<and>
       vnodes st' = (vnodes st)(rn \<mapsto> pipe_node ''pipe:r'' PipeReadOps p, wn \<mapsto> pipe_node ''pipe:w'' PipeWriteOps p) \<and>
       distinct [p, rn, wn] \<and> {p, rn, wn} \<inter> insert 0 (fst ` L) = {} \<and>
       psys_ok hhdm oom A st' (L \<union> {(p, k), (rn, j), (wn, i)})))"

lemma create_postE:
  assumes "create_post hhdm oom A st L pr (c, fds, pr', st')"
  obtains (fail) "c = - ENOMEM \<or> c = - EMFILE" "pr' = Some pr" "pipes st' = pipes st" "vnodes st' = vnodes st"
      "psys_ok hhdm oom A st' L"
  | (new) r w p rn wn k j i where "c = 0" "fds = Some (r, w)" "free_fds pr = (Some r, Some w)"
      "pr' = Some (set_fd w wn O_WRONLY (set_fd r rn O_RDONLY pr))" "pipes st' = (pipes st)(p \<mapsto> new_pipe)"
      "vnodes st' = (vnodes st)(rn \<mapsto> pipe_node ''pipe:r'' PipeReadOps p, wn \<mapsto> pipe_node ''pipe:w'' PipeWriteOps p)"
      "distinct [p, rn, wn]" "{p, rn, wn} \<inter> insert 0 (fst ` L) = {}"
      "psys_ok hhdm oom A st' (L \<union> {(p, k), (rn, j), (wn, i)})"
  using assms unfolding create_post_def prod.case
  by (elim disjE conjE exE) (rule fail new; assumption | blast)+

lemma create_fails:
  assumes "pipe_create hhdm oom (Some pr) st = Some (c, None, Some pr, st\<lparr>p_heap := h\<rparr>)" and "c = - ENOMEM \<or> c = - EMFILE"
    and "heap_ok hhdm oom A h L" and "psys_ok hhdm oom A st L"
  shows "\<exists>res. pipe_create hhdm oom (Some pr) st = Some res \<and> create_post hhdm oom A st L pr res"
  using assms by (auto simp: create_post_def psys_ok_def)

text \<open>The last part, after the three allocations.\<close>

lemma create_fds:
  assumes al: "kmalloc hhdm oom PIPE_SIZE (p_heap st) = Some (p, h1)" "kzalloc hhdm oom VFS_NODE_SIZE h1 = Some (rn, h2)"
      "kzalloc hhdm oom VFS_NODE_SIZE h2 = Some (wn, h3)"
    and nz: "p \<noteq> 0" "rn \<noteq> 0" "wn \<noteq> 0"
    and fresh: "p \<notin> fst ` L" "rn \<notin> fst ` L" "wn \<notin> fst ` L" "rn \<noteq> p" "wn \<noteq> p" "wn \<noteq> rn"
    and h3: "heap_ok hhdm oom A h3 (insert (wn, i) (insert (rn, j) (insert (p, k) L)))"
    and ok: "psys_ok hhdm oom A st L"
  shows "\<exists>res. pipe_create hhdm oom (Some pr) st = Some res \<and> create_post hhdm oom A st L pr res"
proof -
  have dm: "dom (pipes st) \<subseteq> fst ` L" "dom (vnodes st) \<subseteq> fst ` L" using ok by (auto simp: psys_ok_def)
  then have none: "pipes st p = None" "vnodes st rn = None" "vnodes st wn = None" using fresh by auto
  let ?st2 = "st\<lparr>pipes := (pipes st)(p \<mapsto> new_pipe), p_heap := h3, vnodes := (vnodes st)
     (rn \<mapsto> pipe_node ''pipe:r'' PipeReadOps p, wn \<mapsto> pipe_node ''pipe:w'' PipeWriteOps p)\<rparr>"
  show ?thesis
  proof (cases "\<exists>rfd wfd. free_fds pr = (Some rfd, Some wfd)")
    case True
    then obtain rfd wfd where f: "free_fds pr = (Some rfd, Some wfd)" by blast
    have "psys_ok hhdm oom A ?st2 (L \<union> {(p, k), (rn, j), (wn, i)})"
      using h3 dm by (auto simp: psys_ok_def insert_commute)
    moreover have create: "pipe_create hhdm oom (Some pr) st =
        Some (0, Some (rfd, wfd), Some (set_fd wfd wn O_WRONLY (set_fd rfd rn O_RDONLY pr)), ?st2)"
      using al nz f by (simp add: pipe_create_def)
    moreover have "{p, rn, wn} \<inter> insert 0 (fst ` L) = {}" "distinct [p, rn, wn]" using nz fresh by auto
    ultimately have "create_post hhdm oom A st L pr
        (0, Some (rfd, wfd), Some (set_fd wfd wn O_WRONLY (set_fd rfd rn O_RDONLY pr)), ?st2)"
      unfolding create_post_def prod.case using f
      by - (rule disjI2, rule conjI [OF refl], rule exI [of _ rfd], rule exI [of _ wfd], rule exI [of _ p],
          rule exI [of _ rn], rule exI [of _ wn], rule exI [of _ k], rule exI [of _ j], rule exI [of _ i], simp)
    with create show ?thesis by blast
  next
    case False
    from h3 have "heap_ok hhdm oom A h3 (insert (rn, j) (insert (wn, i) (insert (p, k) L)))"
      by (simp add: insert_commute)
    from hp.free_new [OF this] fresh obtain h4 where
      h4: "kfree hhdm rn h3 = Some h4" "heap_ok hhdm oom A h4 (insert (wn, i) (insert (p, k) L))" by auto
    from hp.free_new [OF h4(2)] fresh obtain h5 where
      h5: "kfree hhdm wn h4 = Some h5" "heap_ok hhdm oom A h5 (insert (p, k) L)" by auto
    from hp.free_new [OF h5(2)] fresh obtain h6 where h6: "kfree hhdm p h5 = Some h6" "heap_ok hhdm oom A h6 L" by blast
    have "(pipes st)(p := None) = pipes st" "(vnodes st)(rn := None, wn := None) = vnodes st" using none by (auto simp: fun_eq_iff)
    moreover obtain a b where "free_fds pr = (a, b)" "a = None \<or> b = None" using False by (cases "free_fds pr") auto
    ultimately have "pipe_create hhdm oom (Some pr) st = Some (- EMFILE, None, Some pr, st\<lparr>p_heap := h6\<rparr>)"
      using al nz h4(1) h5(1) h6(1) fresh
      by (cases a) (auto simp: pipe_create_def fun_upd_twist Let_def)
    from create_fails [OF this _ h6(2) ok] show ?thesis by simp
  qed
qed

lemma pipe_create_ok:
  assumes ok: "psys_ok hhdm oom A st L"
  shows "\<exists>res. pipe_create hhdm oom (Some pr) st = Some res \<and> create_post hhdm oom A st L pr res"
proof -
  have h: "heap_ok hhdm oom A (p_heap st) L" and dm: "dom (pipes st) \<subseteq> fst ` L" using ok by (auto simp: psys_ok_def)
  have sz: "0 < unat PIPE_SIZE" "unat PIPE_SIZE < 2 ^ 64 - 4127" "0 < unat VFS_NODE_SIZE" "unat VFS_NODE_SIZE < 2 ^ 64 - 4127"
    by simp_all
  from h sz(1,2) show ?thesis
  proof (cases rule: hp.malloc_fresh)
    case (full h1)
    then have "pipe_create hhdm oom (Some pr) st = Some (- ENOMEM, None, Some pr, st\<lparr>p_heap := h1\<rparr>)"
      by (simp add: pipe_create_def)
    from create_fails [OF this _ full(2) ok] show ?thesis by simp
  next
    case (new p k h1)
    have np: "(pipes st)(p := None) = pipes st" using dm new(4) by (intro fun_upd_idem) auto
    note create = pipe_create_def new(1,2) kfree_opt_def
    show ?thesis
      using new(5) sz(3,4)
    proof (cases rule: hz.malloc_fresh)
      case r: (full h2)
      show ?thesis
        using r(2) sz(3,4)
      proof (cases rule: hz.malloc_fresh)
        case (full h3)
        from hp.free_new [OF full(2) new(4)] obtain h6 where h6: "kfree hhdm p h3 = Some h6" "heap_ok hhdm oom A h6 L" by blast
        with r full np new(2) have "pipe_create hhdm oom (Some pr) st = Some (- ENOMEM, None, Some pr, st\<lparr>p_heap := h6\<rparr>)"
          by (simp add: create)
        from create_fails [OF this _ h6(2) ok] show ?thesis by simp
      next
        case w: (new wn i h3)
        from hp.free_new [OF w(5,4)] obtain h5 where h5: "kfree hhdm wn h3 = Some h5" "heap_ok hhdm oom A h5 (insert (p, k) L)" by blast
        from hp.free_new [OF h5(2) new(4)] obtain h6 where h6: "kfree hhdm p h5 = Some h6" "heap_ok hhdm oom A h6 L" by blast
        with r w h5 np new(2) have "pipe_create hhdm oom (Some pr) st = Some (- ENOMEM, None, Some pr, st\<lparr>p_heap := h6\<rparr>)"
          by (simp add: create)
        from create_fails [OF this _ h6(2) ok] show ?thesis by simp
      qed
    next
      case r: (new rn j h2)
      show ?thesis
        using r(5) sz(3,4)
      proof (cases rule: hz.malloc_fresh)
        case (full h3)
        from hp.free_new [OF full(2) r(4)] obtain h5 where h5: "kfree hhdm rn h3 = Some h5" "heap_ok hhdm oom A h5 (insert (p, k) L)" by blast
        from hp.free_new [OF h5(2) new(4)] obtain h6 where h6: "kfree hhdm p h5 = Some h6" "heap_ok hhdm oom A h6 L" by blast
        with r full h5 np new(2) have "pipe_create hhdm oom (Some pr) st = Some (- ENOMEM, None, Some pr, st\<lparr>p_heap := h6\<rparr>)"
          by (simp add: create)
        from create_fails [OF this _ h6(2) ok] show ?thesis by simp
      next
        case w: (new wn i h3)
        show ?thesis
          by (rule create_fds [OF new(1) r(1) w(1) new(2) r(2) w(2) _ _ _ _ _ _ w(5) ok]) (use new(4) r(4) w(4) in auto)
      qed
    qed
  qed
qed

text \<open>Closing the last end releases the pipe; closing an end always releases its node.\<close>

lemma pipe_drop_ok:
  assumes ok: "heap_ok hhdm oom A (p_heap st) (L \<union> {(p, k), (n, j)})" and q: "pipes st p = Some q"
    and new: "n \<noteq> p" "n \<notin> fst ` L" "p \<notin> fst ` L"
  shows "\<exists>h. pipe_drop hhdm n p st = Some (st\<lparr>p_heap := h,
      pipes := (if ref_count q \<le> 0 then (pipes st)(p := None) else pipes st), vnodes := (vnodes st)(n := None)\<rparr>) \<and>
    heap_ok hhdm oom A h (if ref_count q \<le> 0 then L else insert (p, k) L)"
proof (cases "ref_count q \<le> 0")
  case True
  have "heap_ok hhdm oom A (p_heap st) (insert (p, k) (insert (n, j) L))" using ok by simp
  from hp.free_new [OF this] new obtain h1 where
    h1: "kfree hhdm p (p_heap st) = Some h1" "heap_ok hhdm oom A h1 (insert (n, j) L)" by auto
  from hp.free_new [OF h1(2) new(2)] obtain h2 where "kfree hhdm n h1 = Some h2" "heap_ok hhdm oom A h2 L" by blast
  with True q h1 show ?thesis by (intro exI [of _ h2]) (simp add: pipe_drop_def)
next
  case False
  have "heap_ok hhdm oom A (p_heap st) (insert (n, j) (insert (p, k) L))" using ok by (simp add: insert_commute)
  from hp.free_new [OF this] new obtain h1 where
    "kfree hhdm n (p_heap st) = Some h1" "heap_ok hhdm oom A h1 (insert (p, k) L)" by auto
  with False q show ?thesis by (intro exI [of _ h1]) (simp add: pipe_drop_def)
qed

lemma pipe_close_both:
  assumes "heap_ok hhdm oom A (p_heap st) (L \<union> {(p, k), (rn, j), (wn, i)})" and "distinct [p, rn, wn]"
    and "{p, rn, wn} \<inter> insert 0 (fst ` L) = {}" and "pipes st p = Some q" and "ref_count q = 2"
    and "vnodes st rn = Some (pipe_node ''pipe:r'' PipeReadOps p)" and "vnodes st wn = Some (pipe_node ''pipe:w'' PipeWriteOps p)"
  shows "\<exists>st1 st2. pipe_read_close_op hhdm rn st = Some st1 \<and> pipes st1 p \<noteq> None \<and>
    pipe_write_close_op hhdm wn st1 = Some st2 \<and> heap_ok hhdm oom A (p_heap st2) L \<and> pipes st2 = (pipes st)(p := None) \<and>
    vnodes st2 = (vnodes st)(rn := None, wn := None)"
proof -
  define q1 where "q1 = fst (pipe_read_close q (p_sched st))"
  define sa where "sa = put_pipe p (pipe_read_close q (p_sched st)) st"
  have q1: "ref_count q1 = 1" using assms(5) by (simp add: q1_def pipe_read_close_def)
  have s1: "L \<union> {(p, k), (rn, j), (wn, i)} = insert (wn, i) L \<union> {(p, k), (rn, j)}" by auto
  have a1: "heap_ok hhdm oom A (p_heap sa) (insert (wn, i) L \<union> {(p, k), (rn, j)})"
    using assms(1) unfolding s1 by (simp add: sa_def put_pipe_def)
  have a2: "pipes sa p = Some q1" by (simp add: sa_def put_pipe_def q1_def)
  from pipe_drop_ok [OF a1 a2] assms(2,3) q1 obtain h1 where
    d1: "pipe_drop hhdm rn p sa = Some (sa\<lparr>p_heap := h1, pipes := pipes sa, vnodes := (vnodes sa)(rn := None)\<rparr>)"
      "heap_ok hhdm oom A h1 (insert (p, k) (insert (wn, i) L))" by auto
  define st1 where "st1 = sa\<lparr>p_heap := h1, pipes := pipes sa, vnodes := (vnodes sa)(rn := None)\<rparr>"
  have r: "pipe_read_close_op hhdm rn st = Some st1"
    using assms(2-4,6) d1(1) by (simp add: pipe_read_close_op_def node_pipe_def pipe_node_def st1_def sa_def)
  have p1: "pipes st1 p = Some q1" and v1: "vnodes st1 wn = vnodes st wn"
    using a2 assms(2) by (simp_all add: st1_def sa_def put_pipe_def)
  define sb where "sb = put_pipe p (pipe_write_close q1 (p_sched st1)) st1"
  have b1: "heap_ok hhdm oom A (p_heap sb) (L \<union> {(p, k), (wn, i)})"
    using d1(2) by (simp add: sb_def put_pipe_def st1_def insert_commute)
  have b2: "pipes sb p = Some (fst (pipe_write_close q1 (p_sched st1)))" by (simp add: sb_def put_pipe_def)
  from pipe_drop_ok [OF b1 b2] assms(2,3) q1 obtain h2 where
    d2: "pipe_drop hhdm wn p sb = Some (sb\<lparr>p_heap := h2, pipes := (pipes sb)(p := None), vnodes := (vnodes sb)(wn := None)\<rparr>)"
      "heap_ok hhdm oom A h2 L" by (auto simp: pipe_write_close_def)
  define st2 where "st2 = sb\<lparr>p_heap := h2, pipes := (pipes sb)(p := None), vnodes := (vnodes sb)(wn := None)\<rparr>"
  have w: "pipe_write_close_op hhdm wn st1 = Some st2"
    using assms(2,3,7) p1 v1 d2(1) by (simp add: pipe_write_close_op_def node_pipe_def pipe_node_def st2_def sb_def)
  have e: "pipes st2 = (pipes st)(p := None)" "vnodes st2 = (vnodes st)(rn := None, wn := None)"
    by (simp_all add: st2_def sb_def st1_def sa_def put_pipe_def)
  have "p_heap st2 = h2" by (simp add: st2_def)
  with d2(2) r w p1 e show ?thesis by auto
qed

subsection \<open>Properties\<close>


definition demo_process :: process where
  "demo_process = \<lparr>pid = 1, cr3 = 0, files = \<lambda>_. 0, file_offsets = \<lambda>_. 0, file_flags = \<lambda>_. 0\<rparr>"

definition demo_psys :: pipe_sys where
  "demo_psys = \<lparr>p_heap = demo_heap, p_sched = two_tasks, pipes = Map.empty, vnodes = Map.empty\<rparr>"

lemma demo_psys_ok: "psys_ok 0 id {} demo_psys {}"
  using demo_heap_inv by (auto simp: psys_ok_def demo_psys_def heap_ok_def live_def)




end
