(* ===== verification/Pipe_Runs.thy ===== *)
theory Pipe_Runs
  imports Pipe
begin

section \<open>Interleaved runs of a pipe\<close>

text \<open>
  What holds in every reachable state of the step relation of \<open>Pipe\<close>: order and bounds for any
  number of tasks, no lost wake-up for one reader and one writer, and a run that shows what the single
  waiter slot does to a second reader. The concrete runs are evaluated on two and three tasks.
\<close>

text \<open>C18. However the reads, writes and closes of any number of tasks interleave with each other and with context
  switches, the readers have received exactly a prefix of what the writers have sent, in order, and
  the rest is in the buffer; the buffer never holds more than its size and both positions stay inside it.\<close>

theorem pipe_fifo:
  assumes "(pipe_step rd wr)\<^sup>*\<^sup>* (pipe_start s) y"
  shows "sent y = got y @ pipe_contents (pp y) \<and> length (pipe_contents (pp y)) = count (pp y) \<and>
    count (pp y) \<le> PIPE_BUF_SIZE \<and> read_pos (pp y) < PIPE_BUF_SIZE \<and> write_pos (pp y) < PIPE_BUF_SIZE"
  using reachable_fifo [OF assms] by (auto simp: fifo_inv_def ring_ok_def)

text \<open>Task 1 reads from the empty pipe and blocks, task 2 writes three bytes, task 1 reads two of them.\<close>

definition pipe_run :: "psys list" where
  "pipe_run = (let y0 = pipe_start two_tasks;
       y1 = after_read 0 1 (pipe_read_wait 2 (pp y0) (ps y0)) y0;
       y2 = after_write 0 2 [7, 8, 9] 0 (pipe_write_start [7, 8, 9] (pp y1) (ps y1)) y1;
       y3 = y2\<lparr>ps := snd (sched_switch 0 (ps y2))\<rparr>;
       y4 = after_read 0 1 (pipe_read_resume 2 (pp y3) (ps y3)) y3
     in [y0, y1, y2, y3, y4])"

lemma pipe_run_steps:
  shows "(pipe_step ((=) 1) ((=) 2))\<^sup>*\<^sup>* (pipe_start two_tasks) (pipe_run ! 3)"
    and "(pipe_step ((=) 1) ((=) 2))\<^sup>*\<^sup>* (pipe_start two_tasks) (pipe_run ! 4)"
proof -
  let ?R = "pipe_step ((=) 1) ((=) 2)"
  have e: "pipe_run ! 0 = pipe_start two_tasks" by (simp add: pipe_run_def Let_def)
  have "?R (pipe_run ! 0) (after_read 0 1 (pipe_read_wait 2 (pp (pipe_run ! 0)) (ps (pipe_run ! 0))) (pipe_run ! 0))"
    by (rule do_read) (code_simp, simp, code_simp, simp)
  then have 1: "?R (pipe_run ! 0) (pipe_run ! 1)" by (simp add: pipe_run_def Let_def)
  have "?R (pipe_run ! 1) (after_write 0 2 [7, 8, 9] 0 (pipe_write_start [7, 8, 9] (pp (pipe_run ! 1)) (ps (pipe_run ! 1))) (pipe_run ! 1))"
    by (rule do_write) (code_simp, simp, code_simp, simp)
  then have 2: "?R (pipe_run ! 1) (pipe_run ! 2)" by (simp add: pipe_run_def Let_def)
  have "?R (pipe_run ! 2) ((pipe_run ! 2)\<lparr>ps := snd (sched_switch 0 (ps (pipe_run ! 2)))\<rparr>)" by (rule switch)
  then have 3: "?R (pipe_run ! 2) (pipe_run ! 3)" by (simp add: pipe_run_def Let_def)
  have "?R (pipe_run ! 3) (after_read 0 1 (pipe_read_resume 2 (pp (pipe_run ! 3)) (ps (pipe_run ! 3))) (pipe_run ! 3))"
    by (rule read_resume) code_simp+
  then have 4: "?R (pipe_run ! 3) (pipe_run ! 4)" by (simp add: pipe_run_def Let_def)
  from 1 2 3 show three: "?R\<^sup>*\<^sup>* (pipe_start two_tasks) (pipe_run ! 3)"
    unfolding e [symmetric] by (meson converse_rtranclp_into_rtranclp rtranclp.rtrancl_refl)
  from three 4 show "?R\<^sup>*\<^sup>* (pipe_start two_tasks) (pipe_run ! 4)" by (rule rtranclp.rtrancl_into_rtrancl)
qed

theorem pipe_fifo_witness:
  "got (pipe_run ! 4) = [7, 8] \<and> sent (pipe_run ! 4) = [7, 8, 9] \<and> pipe_contents (pp (pipe_run ! 4)) = [9]"
proof -
  have "got (pipe_run ! 4) = [7, 8]" and "sent (pipe_run ! 4) = [7, 8, 9]" by code_simp+
  with pipe_fifo [OF pipe_run_steps(2)] show ?thesis by simp
qed

text \<open>C19. With one task at each end, no wake-up is lost: a reader inside \<open>pipe_read_op\<close> is in a run queue whenever the
  pipe holds data or its write end is closed, and a writer inside \<open>pipe_write_op\<close> is in a run queue whenever the pipe has
  room or its read end is closed.\<close>

theorem pipe_no_lost_wakeup:
  assumes "(pipe_step ((=) r) ((=) w))\<^sup>*\<^sup>* (pipe_start s) y" and "r \<noteq> w" and "sched_ok s"
  shows "(pcs y r = Reading n \<and> (0 < count (pp y) \<or> write_closed (pp y)) \<longrightarrow> queued (ps y) r) \<and>
    (pcs y w = Writing bs k \<and> (count (pp y) < PIPE_BUF_SIZE \<or> read_closed (pp y)) \<longrightarrow> queued (ps y) w)"
  using reachable_wake [OF assms] by (auto simp: wake_inv_def reader_ok_def writer_ok_def)

theorem pipe_no_lost_wakeup_witness:
  "pcs (pipe_run ! 3) 1 = Reading 2 \<and> count (pp (pipe_run ! 3)) = 3 \<and> queued (ps (pipe_run ! 3)) 1"
proof -
  have "pcs (pipe_run ! 3) 1 = Reading 2" and "count (pp (pipe_run ! 3)) = 3" by code_simp+
  with pipe_no_lost_wakeup [OF pipe_run_steps(1) _ two_tasks_ok, of 2] show ?thesis by simp
qed

text \<open>Tasks 1 and 2 block reading from the same pipe, task 3 writes a byte and closes its end, task 2 reads the byte.\<close>

definition three_tasks :: sched where
  "three_tasks = sched_enqueue (Some 3) two_tasks"

definition pipe_run2 :: "psys list" where
  "pipe_run2 = (let y0 = pipe_start three_tasks;
       y1 = after_read 0 1 (pipe_read_wait 1 (pp y0) (ps y0)) y0;
       y2 = after_read 0 2 (pipe_read_wait 1 (pp y1) (ps y1)) y1;
       y3 = after_write 0 3 [7] 0 (pipe_write_start [7] (pp y2) (ps y2)) y2;
       y4 = y3\<lparr>pp := fst (pipe_write_close (pp y3) (ps y3)), ps := snd (pipe_write_close (pp y3) (ps y3))\<rparr>;
       y5 = y4\<lparr>ps := snd (sched_switch 0 (ps y4))\<rparr>;
       y6 = after_read 0 2 (pipe_read_resume 1 (pp y5) (ps y5)) y5
     in [y0, y1, y2, y3, y4, y5, y6])"

lemma pipe_run2_steps:
  "(pipe_step (\<lambda>t. t \<in> {1, 2}) ((=) 3))\<^sup>*\<^sup>* (pipe_start three_tasks) (pipe_run2 ! 6)"
proof -
  let ?R = "pipe_step (\<lambda>t. t \<in> {1, 2}) ((=) 3)" and ?y = "\<lambda>i. pipe_run2 ! i"
  have e: "?y 0 = pipe_start three_tasks" by (simp add: pipe_run2_def Let_def)
  have "?R (?y 0) (after_read 0 1 (pipe_read_wait 1 (pp (?y 0)) (ps (?y 0))) (?y 0))"
    by (rule do_read) (code_simp, simp, code_simp, simp)
  then have 1: "?R (?y 0) (?y 1)" by (simp add: pipe_run2_def Let_def)
  have "?R (?y 1) (after_read 0 2 (pipe_read_wait 1 (pp (?y 1)) (ps (?y 1))) (?y 1))"
    by (rule do_read) (code_simp, simp, code_simp, simp)
  then have 2: "?R (?y 1) (?y 2)" by (simp add: pipe_run2_def Let_def)
  have "?R (?y 2) (after_write 0 3 [7] 0 (pipe_write_start [7] (pp (?y 2)) (ps (?y 2))) (?y 2))"
    by (rule do_write) (code_simp, simp, code_simp, simp)
  then have 3: "?R (?y 2) (?y 3)" by (simp add: pipe_run2_def Let_def)
  have "?R (?y 3) ((?y 3)\<lparr>pp := fst (pipe_write_close (pp (?y 3)) (ps (?y 3))), ps := snd (pipe_write_close (pp (?y 3)) (ps (?y 3)))\<rparr>)"
    by (rule close_write [where t = 3]) (code_simp, simp, code_simp, code_simp, simp)
  then have 4: "?R (?y 3) (?y 4)" by (simp add: pipe_run2_def Let_def)
  have "?R (?y 4) ((?y 4)\<lparr>ps := snd (sched_switch 0 (ps (?y 4)))\<rparr>)" by (rule switch)
  then have 5: "?R (?y 4) (?y 5)" by (simp add: pipe_run2_def Let_def)
  have "?R (?y 5) (after_read 0 2 (pipe_read_resume 1 (pp (?y 5)) (ps (?y 5))) (?y 5))"
    by (rule read_resume) code_simp+
  then have 6: "?R (?y 5) (?y 6)" by (simp add: pipe_run2_def Let_def)
  from 1 2 3 4 5 6 show ?thesis
    unfolding e [symmetric] by (meson converse_rtranclp_into_rtranclp rtranclp.rtrancl_refl)
qed


end
