(* ===== verification/Eventfd.thy ===== *)
theory Eventfd
  imports Blocking Objects Vnode "HOL-Library.Monad_Syntax"
begin

section \<open>Event counters (\<open>kernel/ipc/eventfd.c\<close>)\<close>

text \<open>
  The 64-bit counter of \<open>eventfd(2)\<close>: reading (all of it, or one in semaphore mode), adding, and the
  sections between the yields of the two waiting loops. A waiting reader registers in the waiter
  table of the scheduler and sleeps for two ticks, a waiting writer sleeps for one. \<open>efd_step\<close> is any
  section of any task.
\<close>

record eventfd =
  ecount :: u64
  semaphore :: bool

subsection \<open>Reading and writing\<close>

text \<open>From the test of the loop to the return or the yield; a result carries the value for the caller's buffer.\<close>

definition eventfd_read_wait :: "bool \<Rightarrow> u64 \<Rightarrow> eventfd \<Rightarrow> sched \<Rightarrow> (int \<times> u64 option, unit) outcome \<times> eventfd \<times> sched" where
  "eventfd_read_wait nonblock tick e s =
     (if ecount e = 0 then
        if nonblock then (Ret (- EAGAIN, None), e, s)
        else (Yield (), e, sched_make_sleep (current_task s) (tick + 2) (io_wait_prepare s))
      else if semaphore e then (Ret (8, Some 1), e\<lparr>ecount := ecount e - 1\<rparr>, s)
      else (Ret (8, Some (ecount e)), e\<lparr>ecount := 0\<rparr>, s))"

text \<open>After \<open>sched_yield\<close> the reader leaves the waiter table and tests again.\<close>

definition eventfd_read_resume :: "bool \<Rightarrow> u64 \<Rightarrow> eventfd \<Rightarrow> sched \<Rightarrow> (int \<times> u64 option, unit) outcome \<times> eventfd \<times> sched" where
  "eventfd_read_resume nonblock tick e s = eventfd_read_wait nonblock tick e (io_wait_done s)"

definition eventfd_write_wait :: "u64 \<Rightarrow> bool \<Rightarrow> u64 \<Rightarrow> eventfd \<Rightarrow> sched \<Rightarrow> (int, u64) outcome \<times> eventfd \<times> sched" where
  "eventfd_write_wait val nonblock tick e s =
     (if - 2 - ecount e < val then
        if nonblock then (Ret (- EAGAIN), e, s)
        else (Yield val, e, sched_make_sleep (current_task s) (tick + 1) s)
      else (Ret 8, e\<lparr>ecount := ecount e + val\<rparr>, if val \<noteq> 0 then io_wake_all s else s))"

text \<open>The calls, with the checks before the loops; a missing counter is \<open>None\<close>.\<close>

definition eventfd_read :: "nat \<Rightarrow> bool \<Rightarrow> u64 \<Rightarrow> eventfd option \<Rightarrow> sched \<Rightarrow> (int \<times> u64 option, unit) outcome \<times> eventfd option \<times> sched" where
  "eventfd_read n nonblock tick efd s =
     (case efd of
        None \<Rightarrow> (Ret (- EINVAL, None), None, s)
      | Some e \<Rightarrow>
          if n < 8 then (Ret (- EINVAL, None), efd, s)
          else let (r, e', s') = eventfd_read_wait nonblock tick e s in (r, Some e', s'))"

definition eventfd_write :: "u64 \<Rightarrow> nat \<Rightarrow> bool \<Rightarrow> u64 \<Rightarrow> eventfd option \<Rightarrow> sched \<Rightarrow> (int, u64) outcome \<times> eventfd option \<times> sched" where
  "eventfd_write val n nonblock tick efd s =
     (case efd of
        None \<Rightarrow> (Ret (- EINVAL), None, s)
      | Some e \<Rightarrow>
          if n < 8 \<or> val = - 1 then (Ret (- EINVAL), efd, s)
          else let (r, e', s') = eventfd_write_wait val nonblock tick e s in (r, Some e', s'))"

definition eventfd_readable :: "eventfd option \<Rightarrow> bool" where
  "eventfd_readable efd = (case efd of None \<Rightarrow> False | Some e \<Rightarrow> ecount e > 0)"

subsection \<open>Creation and release\<close>

record efd_sys =
  e_heap :: heap
  efds :: "nat \<Rightarrow> eventfd option"
  e_nodes :: "nat \<Rightarrow> vfs_node option"

abbreviation (input) EVENTFD_SIZE :: u64 where "EVENTFD_SIZE \<equiv> 16"

definition eventfd_create :: "nat \<Rightarrow> (pmm \<Rightarrow> pmm) \<Rightarrow> u64 \<Rightarrow> bool \<Rightarrow> efd_sys \<Rightarrow> (nat \<times> efd_sys) option" where
  "eventfd_create hhdm oom initval sem st = do {
     (efd, h1) \<leftarrow> kzalloc hhdm oom EVENTFD_SIZE (e_heap st);
     (node, h2) \<leftarrow> kzalloc hhdm oom VFS_NODE_SIZE h1;
     if efd = 0 \<or> node = 0 then do {
       h3 \<leftarrow> (if efd \<noteq> 0 then kfree hhdm efd h2 else Some h2);
       h4 \<leftarrow> (if node \<noteq> 0 then kfree hhdm node h3 else Some h3);
       Some (0, st\<lparr>e_heap := h4\<rparr>)
     } else
       Some (node, st\<lparr>e_heap := h2, efds := (efds st)(efd \<mapsto> \<lparr>ecount = initval, semaphore = sem\<rparr>),
         e_nodes := (e_nodes st)(node \<mapsto> zero_node\<lparr>n_name := cstr ''anon_inode:[eventfd]'', n_flags := FS_FILE,
           n_ops := EventfdOps, n_ptr := efd\<rparr>)\<rparr>)
   }"

definition eventfd_close_op :: "nat \<Rightarrow> nat \<Rightarrow> efd_sys \<Rightarrow> efd_sys option" where
  "eventfd_close_op hhdm node st =
     (if node = 0 then Some st
      else do {
        n \<leftarrow> e_nodes st node;
        if n_ptr n = 0 then Some st
        else do {
          h \<leftarrow> kfree hhdm (n_ptr n) (e_heap st);
          Some (st\<lparr>e_heap := h, efds := (efds st)(n_ptr n := None), e_nodes := (e_nodes st)(node \<mapsto> n\<lparr>n_ptr := 0\<rparr>)\<rparr>)
        }
      })"

subsection \<open>The counter\<close>

text \<open>
  Sections of reads and writes in any order; the second and third component are the sums of all values
  written and read so far.
\<close>

inductive efd_step :: "eventfd \<times> nat \<times> nat \<Rightarrow> eventfd \<times> nat \<times> nat \<Rightarrow> bool" where
  got: "eventfd_read_wait nb tick e s = (Ret (8, Some v), e', s') \<Longrightarrow> efd_step (e, w, r) (e', w, r + unat v)"
| put: "val \<noteq> - 1 \<Longrightarrow> eventfd_write_wait val nb tick e s = (Ret 8, e', s') \<Longrightarrow> efd_step (e, w, r) (e', w + unat val, r)"
| no_data: "eventfd_read_wait nb tick e s = (x, e', s') \<Longrightarrow> (\<forall>v. x \<noteq> Ret (8, v)) \<Longrightarrow> efd_step (e, w, r) (e', w, r)"
| no_room: "eventfd_write_wait val nb tick e s = (x, e', s') \<Longrightarrow> x \<noteq> Ret 8 \<Longrightarrow> efd_step (e, w, r) (e', w, r)"

lemma unat_minus_2: "unat (- 2 :: u64) = 2 ^ 64 - 2"
  by simp

lemma efd_room:
  fixes c v :: u64
  assumes "unat c < 2 ^ 64 - 1" and "\<not> - 2 - c < v"
  shows "unat (c + v) = unat c + unat v" and "unat c + unat v < 2 ^ 64 - 1"
proof -
  have "c \<le> - 2" using assms(1) by (simp add: word_le_nat_alt)
  then have "unat (- 2 - c) = 2 ^ 64 - 2 - unat c" by (simp add: unat_diff_le)
  with assms(2) have le: "unat v \<le> 2 ^ 64 - 2 - unat c" by (simp add: word_less_nat_alt not_less)
  then show "unat c + unat v < 2 ^ 64 - 1" using assms(1) by simp
  then show "unat (c + v) = unat c + unat v" by (intro unat_add_no_wrap) simp
qed

lemma efd_step_sum:
  assumes "efd_step x y" and "unat (ecount (fst x)) < 2 ^ 64 - 1"
  shows "unat (ecount (fst y)) < 2 ^ 64 - 1 \<and>
    fst (snd y) + unat (ecount (fst x)) + snd (snd x) = fst (snd x) + unat (ecount (fst y)) + snd (snd y)"
  using assms
proof (induction rule: efd_step.cases)
  case (got nb tick e s v e' s' w r)
  have "unat (ecount e - 1) = unat (ecount e) - 1" "0 < unat (ecount e)" if "ecount e \<noteq> 0"
    using that by (simp_all add: unat_minus_one unat_gt_0)
  with got show ?case by (auto simp: eventfd_read_wait_def split: if_splits)
next
  case (put val nb tick e s e' s' w r)
  with efd_room [of "ecount e" val] show ?case by (auto simp: eventfd_write_wait_def split: if_splits)
qed (auto simp: eventfd_read_wait_def eventfd_write_wait_def split: if_splits)

lemma efd_reachable:
  assumes "efd_step\<^sup>*\<^sup>* (e0, 0, 0) x" and "unat (ecount e0) < 2 ^ 64 - 1"
  shows "unat (ecount (fst x)) < 2 ^ 64 - 1 \<and> unat (ecount e0) + fst (snd x) = unat (ecount (fst x)) + snd (snd x)"
  using assms(1)
proof (induction rule: rtranclp_induct)
  case base
  then show ?case using assms(2) by simp
next
  case (step x y)
  with efd_step_sum [OF step.hyps(2)] show ?case by linarith
qed

subsection \<open>Creation\<close>

definition efd_create_post :: "nat \<Rightarrow> (pmm \<Rightarrow> pmm) \<Rightarrow> (nat \<times> nat) set \<Rightarrow> efd_sys \<Rightarrow> (nat \<times> nat) set \<Rightarrow> nat \<times> efd_sys \<Rightarrow> bool" where
  "efd_create_post hhdm oom A st L r \<longleftrightarrow> (case r of (node, st') \<Rightarrow>
     if node = 0 then heap_ok hhdm oom A (e_heap st') L \<and> efds st' = efds st \<and> e_nodes st' = e_nodes st
     else \<exists>efd n k e nd. heap_ok hhdm oom A (e_heap st') (L \<union> {(efd, n), (node, k)}) \<and> efd \<noteq> 0 \<and> efd \<noteq> node \<and>
       efd \<notin> fst ` L \<and> node \<notin> fst ` L \<and> 200 \<le> k \<and>
       efds st' efd = Some e \<and> e_nodes st' node = Some nd \<and> n_ptr nd = efd)"

lemma eventfd_create_ok:
  assumes "heap_ok hhdm oom A (e_heap st) L"
  shows "\<exists>r. eventfd_create hhdm oom v sem st = Some r \<and> efd_create_post hhdm oom A st L r"
proof -
  have sz: "0 < unat EVENTFD_SIZE" "unat EVENTFD_SIZE < 2 ^ 64 - 4127" "0 < unat VFS_NODE_SIZE" "unat VFS_NODE_SIZE < 2 ^ 64 - 4127"
    by simp_all
  from assms sz(1,2) show ?thesis
  proof (cases rule: hz.malloc_fresh)
    case e: (full h1)
    from e(2) sz(3,4) show ?thesis
    proof (cases rule: hz.malloc_fresh)
      case (full h2)
      with e show ?thesis by (simp add: eventfd_create_def efd_create_post_def)
    next
      case (new node k h2)
      from hz.free_new [OF new(5,4)] obtain h3 where "kfree hhdm node h2 = Some h3" "heap_ok hhdm oom A h3 L" by blast
      with e new show ?thesis by (simp add: eventfd_create_def efd_create_post_def)
    qed
  next
    case e: (new efd n h1)
    from e(5) sz(3,4) show ?thesis
    proof (cases rule: hz.malloc_fresh)
      case (full h2)
      from hz.free_new [OF full(2) e(4)] obtain h3 where "kfree hhdm efd h2 = Some h3" "heap_ok hhdm oom A h3 L" by blast
      with e full show ?thesis by (simp add: eventfd_create_def efd_create_post_def)
    next
      case (new node k h2)
      have "heap_ok hhdm oom A h2 (L \<union> {(efd, n), (node, k)})" using new(5) by (simp add: insert_commute)
      with e new show ?thesis by (auto simp: eventfd_create_def efd_create_post_def)
    qed
  qed
qed

subsection \<open>Properties\<close>

text \<open>C23. The counter is exact and never overflows: after any sequence of completed and of waiting operations, of any
  number of tasks and in both modes, the initial value plus everything written equals everything read plus the counter,
  as natural numbers, and the counter stays below \<open>2 ^ 64 - 1\<close>.\<close>

theorem eventfd_counter:
  assumes "efd_step\<^sup>*\<^sup>* (e0, 0, 0) (e, w, r)" and "unat (ecount e0) < 2 ^ 64 - 1"
  shows "unat (ecount e0) + w = r + unat (ecount e) \<and> unat (ecount e) < 2 ^ 64 - 1"
  using efd_reachable [OF assms] by simp

theorem eventfd_counter_witness:
  "\<exists>e. efd_step\<^sup>*\<^sup>* (\<lparr>ecount = 3, semaphore = True\<rparr>, 0, 0) (e, 5, 1) \<and> unat (ecount e) = 7"
proof -
  let ?e0 = "\<lparr>ecount = 3, semaphore = True\<rparr>" and ?e1 = "\<lparr>ecount = 8, semaphore = True\<rparr>" and ?e2 = "\<lparr>ecount = 7, semaphore = True\<rparr>"
  have "efd_step (?e0, 0, 0) (?e1, 0 + unat (5 :: u64), 0)"
    by (rule put [where nb = True and tick = 0 and s = two_tasks and s' = "io_wake_all two_tasks"])
      (simp_all add: eventfd_write_wait_def)
  moreover have "efd_step (?e1, 5, 0) (?e2, 5, 0 + unat (1 :: u64))"
    by (rule got [where nb = True and tick = 0 and s = two_tasks and s' = two_tasks]) (simp add: eventfd_read_wait_def)
  ultimately have "efd_step\<^sup>*\<^sup>* (?e0, 0, 0) (?e2, 5, 1)" by (simp add: converse_rtranclp_into_rtranclp)
  with eventfd_counter [OF this] show ?thesis by (intro exI [of _ ?e2]) simp
qed

text \<open>A reader that finds the counter zero is registered and asleep when it has yielded.\<close>

lemma eventfd_read_waits:
  assumes ok: "sched_ok s" and c: "current_task s = Some t" "Some t \<noteq> idle_task s" and room: "length (io_waiters s) < MAX_IO_WAITERS"
    and run: "eventfd_read n False tick (Some e) s = (Yield (), e', s1)"
  shows "sched_ok (snd (sched_switch r s1)) \<and> t \<in> set (io_waiters s1) \<and> tstate (tasks s1 t) = TASK_STATE_SLEEPING"
proof -
  have s1: "s1 = sched_make_sleep (Some t) (tick + 2) (io_wait_prepare s)"
    using run c(1) by (auto simp: eventfd_read_def eventfd_read_wait_def split: if_splits)
  from ok obtain Q where Q: "rq_inv s Q" by (auto simp: sched_ok_def)
  have q: "queued s1 u = queued s u" for u unfolding s1
    by (rule queued_cong) (auto simp: io_wait_prepare_def Let_def upd_task_def split: option.split)
  have "rq_inv s1 Q = rq_inv s Q" unfolding s1
    by (rule rq_inv_cong) (auto simp: io_wait_prepare_def Let_def upd_task_def split: option.split)
  with Q have inv: "rq_inv s1 Q" by simp
  have st: "tstate (tasks s1 u) = (if u = t then TASK_STATE_SLEEPING else tstate (tasks s u))" for u
    by (simp add: s1 io_wait_prepare_def c Let_def upd_task_def)
  have c1: "current_task s1 = Some t" "Some t \<noteq> idle_task s1"
    using c by (simp_all add: s1 io_wait_prepare_def Let_def upd_task_def)
  have "sched_ok (snd (sched_switch r s1))"
    using ok q st by (intro sleep_switch_ok [OF c1 inv]) (auto simp: sched_ok_def)
  moreover have "t \<in> set (io_waiters s1)"
    using room by (simp add: s1 io_wait_prepare_def c Let_def upd_task_def)
  ultimately show ?thesis using st by simp
qed

text \<open>C24. A successful write of a non-zero value makes every reader that sleeps in the waiter table runnable at once, and
  a reader that finds the counter zero is in that table (as long as the table has room) before it sleeps.\<close>

theorem eventfd_wakes_readers:
  assumes "sched_ok s" and "eventfd_write v n nb tick (Some e) s = (Ret 8, e', s')" and "v \<noteq> 0"
    and "t \<in> set (io_waiters s)" and "tstate (tasks s t) = TASK_STATE_SLEEPING"
  shows "sched_ok s' \<and> queued s' t"
proof -
  have "s' = io_wake_all s" using assms(2,3) by (auto simp: eventfd_write_def eventfd_write_wait_def split: if_splits)
  with io_wake_all_wakes [OF assms(1,4,5)] io_wake_all_queued [OF assms(1)] show ?thesis by blast
qed

text \<open>Task 1 has found the counter zero and sleeps; task 2 runs.\<close>

definition waiting_reader :: sched where
  "waiting_reader = snd (sched_switch 0 (snd (snd (eventfd_read 8 False 100 (Some \<lparr>ecount = 0, semaphore = False\<rparr>) two_tasks))))"

theorem eventfd_wakes_readers_witness:
  "\<exists>s' e'. eventfd_write 5 8 False 101 (Some \<lparr>ecount = 0, semaphore = False\<rparr>) waiting_reader = (Ret 8, e', s') \<and> queued s' 1"
proof -
  let ?e = "\<lparr>ecount = 0, semaphore = False\<rparr>"
  obtain e1 s1 where r: "eventfd_read 8 False 100 (Some ?e) two_tasks = (Yield (), e1, s1)"
    by (simp add: eventfd_read_def eventfd_read_wait_def)
  have t: "current_task two_tasks = Some 1" "Some 1 \<noteq> idle_task two_tasks" "length (io_waiters two_tasks) < MAX_IO_WAITERS"
    by code_simp+
  have "sched_ok waiting_reader"
    using eventfd_read_waits [OF two_tasks_ok t r] r by (simp add: waiting_reader_def)
  moreover have "1 \<in> set (io_waiters waiting_reader)" "tstate (tasks waiting_reader 1) = TASK_STATE_SLEEPING" by code_simp+
  moreover obtain e' s' where w: "eventfd_write 5 8 False 101 (Some ?e) waiting_reader = (Ret 8, e', s')"
    by (simp add: eventfd_write_def eventfd_write_wait_def)
  ultimately show ?thesis using eventfd_wakes_readers [OF _ w] by auto
qed



end
