(* ===== verification/Vmm.thy ===== *)
theory Vmm
  imports Pages Kmem Objects "HOL-Library.Monad_Syntax"
begin

section \<open>Page tables (\<open>kernel/core/mem/vmm.c\<close>)\<close>

text \<open>
  The four-level page tables in byte memory, reached through the direct map of physical memory at
  \<open>hhdm\<close> (\<open>VIRT\<close> and \<open>PHYS\<close>): mapping, unmapping, protection, translation, creation, cloning and
  destruction of address spaces and the page fault handler. A pointer to a table is its address;
  entry \<open>i\<close> is the 64-bit cell at offset \<open>8 i\<close>. \<open>None\<close> stands for \<open>PANIC\<close>. The flush of a translation
  (\<open>invlpg\<close>) has no effect on this state.

  The second part gives the tables their meaning: the tables of the user half form a tree, a leaf
  entry belongs to exactly one page, and every operation is an update of the function from pages to
  leaf entries.
\<close>

record vmm =
  vmem :: mem
  vpmm :: pmm

abbreviation (input) PTE_PRESENT :: u64 where "PTE_PRESENT \<equiv> 1"
abbreviation (input) PTE_WRITABLE :: u64 where "PTE_WRITABLE \<equiv> 2"
abbreviation (input) PTE_USER :: u64 where "PTE_USER \<equiv> 4"
abbreviation (input) PTE_PCD :: u64 where "PTE_PCD \<equiv> 16"
abbreviation (input) PTE_HUGE :: u64 where "PTE_HUGE \<equiv> 128"
abbreviation (input) PTE_COW :: u64 where "PTE_COW \<equiv> 512"
abbreviation (input) PTE_ADDR_MASK :: u64 where "PTE_ADDR_MASK \<equiv> 0xFFFFFFFFFF000"
abbreviation (input) PTE_FLAGS_MASK :: u64 where "PTE_FLAGS_MASK \<equiv> NOT 0xFFFFFFFFFF000"

definition entry :: "mem \<Rightarrow> nat \<Rightarrow> nat \<Rightarrow> u64" where
  "entry m table i = r64 m (table + 8 * i)"

definition set_entry :: "nat \<Rightarrow> nat \<Rightarrow> u64 \<Rightarrow> vmm \<Rightarrow> vmm" where
  "set_entry table i v st = st\<lparr>vmem := w64 (vmem st) (table + 8 * i) v\<rparr>"

definition has_bit :: "u64 \<Rightarrow> u64 \<Rightarrow> bool" where
  "has_bit e f \<longleftrightarrow> e AND f \<noteq> 0"

definition table_of :: "nat \<Rightarrow> u64 \<Rightarrow> nat" where
  "table_of hhdm e = unat (e AND PTE_ADDR_MASK) + hhdm"

definition pml4_index :: "u64 \<Rightarrow> nat" where "pml4_index virt = unat (drop_bit 39 virt AND 0x1FF)"
definition pdpt_index :: "u64 \<Rightarrow> nat" where "pdpt_index virt = unat (drop_bit 30 virt AND 0x1FF)"
definition pd_index :: "u64 \<Rightarrow> nat" where "pd_index virt = unat (drop_bit 21 virt AND 0x1FF)"
definition pt_index :: "u64 \<Rightarrow> nat" where "pt_index virt = unat (drop_bit 12 virt AND 0x1FF)"

subsection \<open>Mapping\<close>

definition get_next_level :: "nat \<Rightarrow> (pmm \<Rightarrow> pmm) \<Rightarrow> nat \<Rightarrow> nat \<Rightarrow> bool \<Rightarrow> vmm \<Rightarrow> (nat option \<times> vmm) option" where
  "get_next_level hhdm oom table i allocate st =
     (let e = entry (vmem st) table i in
      if has_bit e PTE_PRESENT then
        let e' = e OR (PTE_PRESENT OR PTE_USER OR PTE_WRITABLE)
        in Some (Some (table_of hhdm e'), set_entry table i e' st)
      else if \<not> allocate then Some (None, st)
      else
        let (phys, s') = pmm_alloc oom (vpmm st) in
        if phys = 0 then None
        else
          let st1 = st\<lparr>vpmm := s', vmem := memset (unat phys + hhdm) 0 4096 (vmem st)\<rparr>
          in Some (Some (unat phys + hhdm),
               set_entry table i ((phys AND PTE_ADDR_MASK) OR PTE_PRESENT OR PTE_WRITABLE OR PTE_USER) st1))"

definition vmm_map_2mb :: "nat \<Rightarrow> (pmm \<Rightarrow> pmm) \<Rightarrow> nat \<Rightarrow> u64 \<Rightarrow> u64 \<Rightarrow> u64 \<Rightarrow> vmm \<Rightarrow> vmm option" where
  "vmm_map_2mb hhdm oom pml4 virt0 phys0 flags st = (
     let virt = virt0 AND NOT 0x1FFFFF; phys = phys0 AND NOT 0x1FFFFF in do {
     (pdpt, st1) \<leftarrow> get_next_level hhdm oom pml4 (pml4_index virt) True st;
     (pd, st2) \<leftarrow> get_next_level hhdm oom (the pdpt) (pdpt_index virt) True st1;
     Some (set_entry (the pd) (pd_index virt) (phys OR (flags AND PTE_FLAGS_MASK) OR PTE_PRESENT OR PTE_HUGE) st2)
   })"

definition vmm_map :: "nat \<Rightarrow> (pmm \<Rightarrow> pmm) \<Rightarrow> nat \<Rightarrow> u64 \<Rightarrow> u64 \<Rightarrow> u64 \<Rightarrow> vmm \<Rightarrow> vmm option" where
  "vmm_map hhdm oom pml4 virt0 phys0 flags st = (
     let virt = virt0 AND NOT 0xFFF; phys = phys0 AND PTE_ADDR_MASK in do {
     (pdpt, st1) \<leftarrow> get_next_level hhdm oom pml4 (pml4_index virt) True st;
     (pd, st2) \<leftarrow> get_next_level hhdm oom (the pdpt) (pdpt_index virt) True st1;
     (pt, st3) \<leftarrow> get_next_level hhdm oom (the pd) (pd_index virt) True st2;
     Some (set_entry (the pt) (pt_index virt) (phys OR (flags AND PTE_FLAGS_MASK) OR PTE_PRESENT) st3)
   })"

text \<open>The walk to the last level that unmapping, translation and the fault handler share: the table, or \<open>NULL\<close>.\<close>

definition walk :: "nat \<Rightarrow> mem \<Rightarrow> nat \<Rightarrow> u64 \<Rightarrow> nat option" where
  "walk hhdm m pml4 virt =
     (let e4 = entry m pml4 (pml4_index virt) in
      if \<not> has_bit e4 PTE_PRESENT then None
      else
        let e3 = entry m (table_of hhdm e4) (pdpt_index virt) in
        if \<not> has_bit e3 PTE_PRESENT then None
        else
          let e2 = entry m (table_of hhdm e3) (pd_index virt) in
          if \<not> has_bit e2 PTE_PRESENT then None else Some (table_of hhdm e2))"

definition vmm_unmap :: "nat \<Rightarrow> nat \<Rightarrow> u64 \<Rightarrow> vmm \<Rightarrow> vmm" where
  "vmm_unmap hhdm pml4 virt0 st =
     (let virt = virt0 AND NOT 0xFFF in
      case walk hhdm (vmem st) pml4 virt of
        None \<Rightarrow> st
      | Some pt \<Rightarrow> set_entry pt (pt_index virt) 0 st)"

definition vmm_get_phys :: "nat \<Rightarrow> nat \<Rightarrow> u64 \<Rightarrow> vmm \<Rightarrow> u64" where
  "vmm_get_phys hhdm pml4 virt st =
     (case walk hhdm (vmem st) pml4 virt of
        None \<Rightarrow> 0
      | Some pt \<Rightarrow>
          let e = entry (vmem st) pt (pt_index virt) in
          if \<not> has_bit e PTE_PRESENT then 0 else (e AND PTE_ADDR_MASK) + (virt AND 0xFFF))"

text \<open>\<open>vmm_protect\<close> is the only one of them that looks at the huge bit of the third level.\<close>

definition vmm_protect :: "nat \<Rightarrow> nat \<Rightarrow> u64 \<Rightarrow> bool \<Rightarrow> bool \<Rightarrow> vmm \<Rightarrow> bool \<times> vmm" where
  "vmm_protect hhdm pml4 virt user writable st =
     (let m = vmem st; e4 = entry m pml4 (pml4_index virt) in
      if \<not> has_bit e4 PTE_PRESENT then (False, st)
      else
        let e3 = entry m (table_of hhdm e4) (pdpt_index virt) in
        if \<not> has_bit e3 PTE_PRESENT then (False, st)
        else
          let e2 = entry m (table_of hhdm e3) (pd_index virt) in
          if \<not> has_bit e2 PTE_PRESENT \<or> has_bit e2 PTE_HUGE then (False, st)
          else
            let pt = table_of hhdm e2; e = entry m pt (pt_index virt) in
            if \<not> has_bit e PTE_PRESENT then (False, st)
            else
              let e' = e AND NOT (PTE_USER OR PTE_WRITABLE);
                  e'' = (if user then e' OR PTE_USER else e');
                  e''' = (if user \<and> writable \<and> \<not> has_bit e'' PTE_COW then e'' OR PTE_WRITABLE else e'')
              in (True, set_entry pt (pt_index virt) e''' st))"

subsection \<open>Address spaces\<close>

text \<open>The kernel half of the new table is shared with \<open>kernel_pml4\<close>.\<close>

definition vmm_create_address_space :: "nat \<Rightarrow> (pmm \<Rightarrow> pmm) \<Rightarrow> nat \<Rightarrow> vmm \<Rightarrow> nat \<times> vmm" where
  "vmm_create_address_space hhdm oom kernel_pml4 st =
     (let (phys, s') = pmm_alloc oom (vpmm st) in
      if phys = 0 then (0, st\<lparr>vpmm := s'\<rparr>)
      else
        let new_pml4 = unat phys + hhdm;
            st1 = st\<lparr>vpmm := s', vmem := memset new_pml4 0 4096 (vmem st)\<rparr>
        in (new_pml4, fold (\<lambda>i st. set_entry new_pml4 i (entry (vmem st) kernel_pml4 i) st) [256..<512] st1))"

text \<open>
  Destruction: the loops over the four levels. Device pages (\<open>PTE_PCD\<close>) and addresses beyond RAM are
  not released.
\<close>

definition free_frame :: "u64 \<Rightarrow> vmm \<Rightarrow> vmm" where
  "free_frame a st = st\<lparr>vpmm := pmm_free a (vpmm st)\<rparr>"

definition destroy_pt :: "nat \<Rightarrow> u64 \<Rightarrow> nat \<Rightarrow> vmm \<Rightarrow> vmm" where
  "destroy_pt hhdm max_ram pt st = fold (\<lambda>l st.
     let e = entry (vmem st) pt l in
     if has_bit e PTE_PRESENT \<and> \<not> has_bit e PTE_PCD \<and> e AND PTE_ADDR_MASK < max_ram
     then free_frame (e AND PTE_ADDR_MASK) st else st) [0..<512] st"

definition destroy_pd :: "nat \<Rightarrow> u64 \<Rightarrow> nat \<Rightarrow> vmm \<Rightarrow> vmm" where
  "destroy_pd hhdm max_ram pd st = fold (\<lambda>k st.
     let e = entry (vmem st) pd k in
     if has_bit e PTE_PRESENT \<and> \<not> has_bit e PTE_HUGE
     then free_frame (e AND PTE_ADDR_MASK) (destroy_pt hhdm max_ram (table_of hhdm e) st) else st) [0..<512] st"

definition destroy_pdpt :: "nat \<Rightarrow> u64 \<Rightarrow> nat \<Rightarrow> vmm \<Rightarrow> vmm" where
  "destroy_pdpt hhdm max_ram pdpt st = fold (\<lambda>j st.
     let e = entry (vmem st) pdpt j in
     if has_bit e PTE_PRESENT \<and> \<not> has_bit e PTE_HUGE
     then free_frame (e AND PTE_ADDR_MASK) (destroy_pd hhdm max_ram (table_of hhdm e) st) else st) [0..<512] st"

definition vmm_destroy_address_space :: "nat \<Rightarrow> u64 \<Rightarrow> vmm \<Rightarrow> vmm" where
  "vmm_destroy_address_space hhdm cr3_phys st =
     (let pml4 = table_of hhdm cr3_phys; max_ram = pmm_get_total_memory (vpmm st) in
      free_frame (cr3_phys AND PTE_ADDR_MASK) (fold (\<lambda>i st.
        let e = entry (vmem st) pml4 i in
        if has_bit e PTE_PRESENT
        then free_frame (e AND PTE_ADDR_MASK) (destroy_pdpt hhdm max_ram (table_of hhdm e) st) else st) [0..<256] st))"

text \<open>
  Cloning: \<open>clone_loop\<close> is a \<open>for\<close> loop whose body may return early (\<open>Inl\<close>, after destroying the
  child) and may panic (\<open>None\<close>).
\<close>

fun clone_loop :: "(nat \<Rightarrow> vmm \<Rightarrow> (vmm + vmm) option) \<Rightarrow> nat list \<Rightarrow> vmm \<Rightarrow> (vmm + vmm) option" where
  "clone_loop body [] st = Some (Inr st)"
| "clone_loop body (i # is) st =
     (case body i st of
        None \<Rightarrow> None
      | Some (Inl st1) \<Rightarrow> Some (Inl st1)
      | Some (Inr st1) \<Rightarrow> clone_loop body is st1)"

definition page_virt :: "nat \<Rightarrow> nat \<Rightarrow> nat \<Rightarrow> nat \<Rightarrow> u64" where
  "page_virt i j k l = push_bit 39 (of_nat i) OR push_bit 30 (of_nat j) OR push_bit 21 (of_nat k) OR push_bit 12 (of_nat l)"

definition clone_page :: "nat \<Rightarrow> (pmm \<Rightarrow> pmm) \<Rightarrow> nat \<Rightarrow> nat \<Rightarrow> u64 \<Rightarrow> nat \<Rightarrow> vmm \<Rightarrow> (vmm + vmm) option" where
  "clone_page hhdm oom child pt virt l st =
     (let e = entry (vmem st) pt l in
      if \<not> has_bit e PTE_PRESENT then Some (Inr st)
      else
        let (child_phys, s') = pmm_alloc oom (vpmm st); st1 = st\<lparr>vpmm := s'\<rparr> in
        if child_phys = 0 then Some (Inl (vmm_destroy_address_space hhdm (of_nat (child - hhdm)) st1))
        else
          let st2 = st1\<lparr>vmem := memcpy (unat child_phys + hhdm) (table_of hhdm e) 4096 (vmem st1)\<rparr>
          in map_option Inr (vmm_map hhdm oom child virt child_phys (e AND PTE_FLAGS_MASK) st2))"

definition clone_pt :: "nat \<Rightarrow> (pmm \<Rightarrow> pmm) \<Rightarrow> nat \<Rightarrow> nat \<Rightarrow> nat \<Rightarrow> nat \<Rightarrow> nat \<Rightarrow> vmm \<Rightarrow> (vmm + vmm) option" where
  "clone_pt hhdm oom child i j pd k st =
     (let e = entry (vmem st) pd k in
      if \<not> has_bit e PTE_PRESENT \<or> has_bit e PTE_HUGE then Some (Inr st)
      else clone_loop (\<lambda>l. clone_page hhdm oom child (table_of hhdm e) (page_virt i j k l) l) [0..<512] st)"

definition clone_pd :: "nat \<Rightarrow> (pmm \<Rightarrow> pmm) \<Rightarrow> nat \<Rightarrow> nat \<Rightarrow> nat \<Rightarrow> nat \<Rightarrow> vmm \<Rightarrow> (vmm + vmm) option" where
  "clone_pd hhdm oom child i pdpt j st =
     (let e = entry (vmem st) pdpt j in
      if \<not> has_bit e PTE_PRESENT \<or> has_bit e PTE_HUGE then Some (Inr st)
      else clone_loop (clone_pt hhdm oom child i j (table_of hhdm e)) [0..<512] st)"

definition clone_pdpt :: "nat \<Rightarrow> (pmm \<Rightarrow> pmm) \<Rightarrow> nat \<Rightarrow> nat \<Rightarrow> nat \<Rightarrow> vmm \<Rightarrow> (vmm + vmm) option" where
  "clone_pdpt hhdm oom child parent i st =
     (let e = entry (vmem st) parent i in
      if \<not> has_bit e PTE_PRESENT then Some (Inr st)
      else clone_loop (clone_pd hhdm oom child i (table_of hhdm e)) [0..<512] st)"

definition vmm_clone_address_space :: "nat \<Rightarrow> (pmm \<Rightarrow> pmm) \<Rightarrow> nat \<Rightarrow> u64 \<Rightarrow> vmm \<Rightarrow> (nat \<times> vmm) option" where
  "vmm_clone_address_space hhdm oom kernel_pml4 parent_cr3_phys st =
     (let (child, st1) = vmm_create_address_space hhdm oom kernel_pml4 st in
      if child = 0 then Some (0, st1)
      else map_option (\<lambda>r. case r of Inl st2 \<Rightarrow> (0, st2) | Inr st2 \<Rightarrow> (child, st2))
             (clone_loop (clone_pdpt hhdm oom child (table_of hhdm parent_cr3_phys)) [0..<256] st1))"

subsection \<open>Page faults\<close>

text \<open>How the handler ends: it has repaired the fault, it kills the process, or the kernel panics.\<close>

datatype fault_end = Fixed | Killed | Panic

definition vmm_page_fault_handler ::
  "nat \<Rightarrow> (pmm \<Rightarrow> pmm) \<Rightarrow> u64 \<Rightarrow> u64 \<Rightarrow> u64 \<Rightarrow> u64 \<Rightarrow> bool \<Rightarrow> vmm \<Rightarrow> fault_end \<times> vmm" where
  "vmm_page_fault_handler hhdm oom fault_addr cr3_val cs error_code has_process st =
     (let from_user = (cs = 0x23 \<or> error_code AND 4 \<noteq> 0) in
      if fault_addr < 4096 then (if from_user \<and> has_process then Killed else Panic, st)
      else
        let pml4 = table_of hhdm cr3_val;
            cow = (case walk hhdm (vmem st) pml4 fault_addr of
                     None \<Rightarrow> None
                   | Some pt \<Rightarrow>
                       let e = entry (vmem st) pt (pt_index fault_addr) in
                       if error_code AND 2 \<noteq> 0 \<and> has_bit e PTE_PRESENT \<and> has_bit e PTE_COW then Some (pt, e) else None)
        in case cow of
             Some (pt, e) \<Rightarrow>
               let (new_phys, s') = pmm_alloc oom (vpmm st); st1 = st\<lparr>vpmm := s'\<rparr> in
               if new_phys = 0 then (Panic, st1)
               else
                 let st2 = st1\<lparr>vmem := memcpy (unat new_phys + hhdm) (table_of hhdm e) 4096 (vmem st1)\<rparr>;
                     new_flags = (e AND PTE_FLAGS_MASK AND NOT PTE_COW) OR PTE_WRITABLE
                 in (Fixed, set_entry pt (pt_index fault_addr) ((new_phys AND PTE_ADDR_MASK) OR new_flags) st2)
           | None \<Rightarrow>
               let (page, st1) =
                 (if fault_addr \<ge> 0x7FE000000000 \<and> fault_addr < 0x800000000000
                  then let (a, s') = pmm_alloc oom (vpmm st) in (a, st\<lparr>vpmm := s'\<rparr>) else (0, st))
               in if page \<noteq> 0 then
                    (case vmm_map hhdm oom pml4 (fault_addr AND NOT 0xFFF) page (PTE_PRESENT OR PTE_WRITABLE OR PTE_USER)
                        (st1\<lparr>vmem := memset (unat page + hhdm) 0 4096 (vmem st1)\<rparr>) of
                       None \<Rightarrow> (Panic, st1)
                     | Some st2 \<Rightarrow> (Fixed, st2))
                  else if from_user then (Killed, st1) else (Panic, st1))"

subsection \<open>Entries and frames\<close>

text \<open>The frame number in an entry, and the entries of a frame that is used as a table.\<close>

definition frame :: "u64 \<Rightarrow> nat" where
  "frame e = unat (e AND PTE_ADDR_MASK) div 4096"

definition ents :: "nat \<Rightarrow> mem \<Rightarrow> nat \<Rightarrow> nat \<Rightarrow> u64" where
  "ents hhdm m p i = (if i < 512 then entry m (p * 4096 + hhdm) i else 0)"

lemma addr_mask: "PTE_ADDR_MASK = push_bit 12 (mask 40)"
  by (simp add: mask_eq_exp_minus_1)

lemma bit_addr_mask: "bit (PTE_ADDR_MASK) i \<longleftrightarrow> 12 \<le> i \<and> i < 52"
  unfolding addr_mask by (auto simp: bit_simps)

lemma frame_addr: "unat (e AND PTE_ADDR_MASK) = frame e * 4096"
proof -
  have "take_bit 12 (e AND PTE_ADDR_MASK) = 0"
    by (rule bit_word_eqI) (auto simp: bit_simps bit_addr_mask simp del: bit_numeral_iff)
  then have "take_bit 12 (unat (e AND PTE_ADDR_MASK)) = 0"
    by (metis unsigned_take_bit_eq unsigned_0)
  then show ?thesis by (auto simp: frame_def take_bit_eq_mod)
qed

lemma table_of_frame: "table_of hhdm e = frame e * 4096 + hhdm"
  by (simp add: table_of_def frame_addr)

lemma entry_table: "i < 512 \<Longrightarrow> entry m (table_of hhdm e) i = ents hhdm m (frame e) i"
  by (simp add: table_of_frame ents_def)

text \<open>An entry made from an address: the address comes back, and the flags outside the address field.\<close>

lemma entry_parts:
  fixes a f :: u64
  shows "((a AND PTE_ADDR_MASK) OR (f AND PTE_FLAGS_MASK)) AND PTE_ADDR_MASK = a AND PTE_ADDR_MASK"
    and "((a AND PTE_ADDR_MASK) OR (f AND PTE_FLAGS_MASK)) AND PTE_FLAGS_MASK = f AND PTE_FLAGS_MASK"
proof -
  have "((a AND M) OR (f AND NOT M)) AND M = a AND M" "((a AND M) OR (f AND NOT M)) AND NOT M = f AND NOT M" for M :: u64
    by (rule bit_word_eqI; auto simp: bit_simps)+
  then show "((a AND PTE_ADDR_MASK) OR (f AND PTE_FLAGS_MASK)) AND PTE_ADDR_MASK = a AND PTE_ADDR_MASK"
    and "((a AND PTE_ADDR_MASK) OR (f AND PTE_FLAGS_MASK)) AND PTE_FLAGS_MASK = f AND PTE_FLAGS_MASK" by blast+
qed

lemma frame_eqI: "e AND PTE_ADDR_MASK = e' AND PTE_ADDR_MASK \<Longrightarrow> frame e = frame e'"
  by (simp add: frame_def)

lemma page_mask:
  assumes "n < 2 ^ 40"
  shows "(of_nat n * PAGE_SIZE :: u64) AND PTE_ADDR_MASK = of_nat n * PAGE_SIZE"
proof -
  have e: "(of_nat n * PAGE_SIZE :: u64) = push_bit 12 (of_nat n)" by (simp add: push_bit_eq_mult)
  have "take_bit 40 n = n" using assms by (rule take_bit_nat_eq_self)
  then have "i < 40" if "bit n i" for i using that by (metis bit_take_bit_iff)
  then show ?thesis unfolding e addr_mask by (intro bit_word_eqI) (auto simp: bit_simps)
qed

lemma frame_page:
  assumes "n < 2 ^ 40"
  shows "frame (of_nat n * PAGE_SIZE) = n"
proof -
  have "n < 2 ^ 52" using assms by simp
  then have "unat (of_nat n * PAGE_SIZE :: u64) = n * 4096"
    using unat_page [of "of_nat n"] by (simp add: unat_of_nat_lt)
  then show ?thesis by (simp add: frame_def page_mask [OF assms])
qed

lemma or_flags:
  "(e OR (PTE_PRESENT OR PTE_USER OR PTE_WRITABLE)) AND PTE_ADDR_MASK = e AND PTE_ADDR_MASK"
  "((e AND PTE_ADDR_MASK) OR PTE_PRESENT OR PTE_WRITABLE OR PTE_USER) AND PTE_ADDR_MASK = e AND PTE_ADDR_MASK"
proof -
  have "(f AND PTE_ADDR_MASK) = 0 \<Longrightarrow> (e OR f) AND PTE_ADDR_MASK = e AND PTE_ADDR_MASK" for e f :: u64
    by (simp add: bit.conj_disj_distrib2)
  from this [of "PTE_PRESENT OR PTE_USER OR PTE_WRITABLE" e] this [of "PTE_PRESENT OR PTE_WRITABLE OR PTE_USER" "e AND PTE_ADDR_MASK"]
  show "(e OR (PTE_PRESENT OR PTE_USER OR PTE_WRITABLE)) AND PTE_ADDR_MASK = e AND PTE_ADDR_MASK"
    "((e AND PTE_ADDR_MASK) OR PTE_PRESENT OR PTE_WRITABLE OR PTE_USER) AND PTE_ADDR_MASK = e AND PTE_ADDR_MASK"
    by (simp_all add: or.assoc and.assoc)
qed

lemma has_present: "has_bit e PTE_PRESENT \<longleftrightarrow> bit e 0"
  by (simp add: has_bit_def and_one_eq odd_iff_mod_2_eq_one bit_0)

subsection \<open>The tree of tables\<close>

text \<open>
  The table reached along a path of indices, over any function \<open>E\<close> from frames and indices to entries, and
  the leaf entry of a page, given by its four indices (\<open>0\<close> when a table is missing).
\<close>

fun tbl :: "(nat \<Rightarrow> nat \<Rightarrow> u64) \<Rightarrow> nat \<Rightarrow> nat list \<Rightarrow> nat option" where
  "tbl E r [] = Some r"
| "tbl E r (i # is) = (if has_bit (E r i) PTE_PRESENT then tbl E (frame (E r i)) is else None)"

definition leaf :: "(nat \<Rightarrow> nat \<Rightarrow> u64) \<Rightarrow> nat \<Rightarrow> nat list \<Rightarrow> nat \<Rightarrow> u64" where
  "leaf E r q i = (case tbl E r q of None \<Rightarrow> 0 | Some t \<Rightarrow> E t i)"

text \<open>Paths of the user half: up to three indices, the first one below 256.\<close>

definition upath :: "nat list \<Rightarrow> bool" where
  "upath q \<longleftrightarrow> length q \<le> 3 \<and> (\<forall>i \<in> set q. i < 512) \<and> (q \<noteq> [] \<longrightarrow> hd q < 256)"

definition tree :: "(nat \<Rightarrow> nat \<Rightarrow> u64) \<Rightarrow> nat \<Rightarrow> (nat \<times> nat) set \<Rightarrow> bool" where
  "tree E r A \<longleftrightarrow> (\<forall>p q f. upath p \<and> upath q \<and> tbl E r p = Some f \<and> tbl E r q = Some f \<longrightarrow> p = q) \<and>
     (\<forall>p f. upath p \<and> tbl E r p = Some f \<longrightarrow> (f, 0) \<in> A)"

lemma treeD:
  assumes "tree E r A"
  shows "upath p \<Longrightarrow> upath q \<Longrightarrow> tbl E r p = Some f \<Longrightarrow> tbl E r q = Some f \<Longrightarrow> p = q"
    and "upath p \<Longrightarrow> tbl E r p = Some f \<Longrightarrow> (f, 0) \<in> A"
  using assms by (auto simp: tree_def)

lemma tbl_snoc: "tbl E r (q @ [i]) = (case tbl E r q of None \<Rightarrow> None
    | Some f \<Rightarrow> if has_bit (E f i) PTE_PRESENT then Some (frame (E f i)) else None)"
  by (induction q arbitrary: r) auto

lemma upath_snoc: "upath (q @ [i]) \<Longrightarrow> upath q"
  by (auto simp: upath_def)

text \<open>Setting flags of an entry does not change the tree.\<close>

lemma tbl_flags:
  assumes "has_bit (E f i) PTE_PRESENT" and "has_bit e PTE_PRESENT" and "frame e = frame (E f i)"
  shows "tbl (E(f := (E f)(i := e))) r q = tbl E r q"
  using assms by (induction q arbitrary: r) auto

text \<open>A new, empty table behind an absent entry.\<close>

lemma tbl_new_old:
  assumes absent: "\<not> has_bit (E f i) PTE_PRESENT"
    and n: "\<forall>q. upath q \<longrightarrow> tbl E r q \<noteq> Some n" and E': "E' = (E(n := \<lambda>_. 0))(f := ((E(n := \<lambda>_. 0)) f)(i := e))"
    and q: "upath q" and t: "tbl E r q = Some g"
  shows "tbl E' r q = Some g"
  using q t
proof (induction q arbitrary: g rule: rev_induct)
  case (snoc j q)
  note u = upath_snoc [OF snoc.prems(1)]
  from snoc.prems(2) obtain h where h: "tbl E r q = Some h" "has_bit (E h j) PTE_PRESENT" "g = frame (E h j)"
    by (auto simp: tbl_snoc split: option.splits if_splits)
  have "h \<noteq> n" using n [rule_format, OF u] h(1) by auto
  then have "E' h j = E h j" using absent h(2) by (auto simp: E')
  with h snoc.IH [OF u h(1)] show ?case by (simp add: tbl_snoc)
qed simp

lemma tbl_new_cases:
  assumes tr: "tree E r A" and p: "upath p" "tbl E r p = Some f" and absent: "\<not> has_bit (E f i) PTE_PRESENT"
    and n: "\<forall>q. upath q \<longrightarrow> tbl E r q \<noteq> Some n" and E': "E' = (E(n := \<lambda>_. 0))(f := ((E(n := \<lambda>_. 0)) f)(i := e))"
    and e: "frame e = n" and q: "upath q" and t: "tbl E' r q = Some g"
  shows "q = p @ [i] \<and> g = n \<or> tbl E r q = Some g"
  using q t
proof (induction q arbitrary: g rule: rev_induct)
  case (snoc j q)
  note u = upath_snoc [OF snoc.prems(1)]
  from snoc.prems(2) obtain h where h: "tbl E' r q = Some h" "has_bit (E' h j) PTE_PRESENT" "g = frame (E' h j)"
    by (auto simp: tbl_snoc split: option.splits if_splits)
  have nf: "n \<noteq> f" using n [rule_format, OF p(1)] p(2) by auto
  from snoc.IH [OF u h(1)] show ?case
  proof
    assume "q = p @ [i] \<and> h = n"
    with h(2) nf show ?thesis by (auto simp: E' has_bit_def)
  next
    assume o: "tbl E r q = Some h"
    then have hn: "h \<noteq> n" using n [rule_format, OF u] by auto
    show ?thesis
    proof (cases "h = f \<and> j = i")
      case True
      with treeD(1) [OF tr u p(1)] o p(2) have "q = p" by simp
      with True h(3) e show ?thesis by (simp add: E')
    next
      case False
      then have "E' h j = E h j" using hn by (auto simp: E')
      with o h show ?thesis by (simp add: tbl_snoc)
    qed
  qed
qed simp

subsection \<open>The tables in memory\<close>

lemma ents_set:
  assumes "i < 512"
  shows "ents hhdm (vmem (set_entry (p * 4096 + hhdm) i v st)) = (ents hhdm (vmem st))(p := (ents hhdm (vmem st) p)(i := v))"
proof (intro ext)
  fix q j
  have "r64 (w64 (vmem st) (p * 4096 + hhdm + 8 * i) v) (q * 4096 + hhdm + 8 * j) = r64 (vmem st) (q * 4096 + hhdm + 8 * j)"
    if ne: "\<not> (q = p \<and> j = i)" and jl: "j < 512"
  proof (rule r64_w64_other)
    consider "q < p" | "p < q" | "q = p" "j < i" | "q = p" "i < j" using ne by linarith
    then show "p * 4096 + hhdm + 8 * i + 8 \<le> q * 4096 + hhdm + 8 * j \<or> q * 4096 + hhdm + 8 * j + 8 \<le> p * 4096 + hhdm + 8 * i"
      using assms jl by cases linarith+
  qed
  then show "ents hhdm (vmem (set_entry (p * 4096 + hhdm) i v st)) q j =
      ((ents hhdm (vmem st))(p := (ents hhdm (vmem st) p)(i := v))) q j"
    using assms by (auto simp: ents_def entry_def set_entry_def)
qed

lemma r64_zero: "(\<And>x. a \<le> x \<Longrightarrow> x < a + 8 \<Longrightarrow> m x = 0) \<Longrightarrow> r64 m a = 0"
  using r64_cong [of a m "\<lambda>_. 0"] by (simp add: r64_def r32_def)

lemma ents_zero: "ents hhdm (memset (n * 4096 + hhdm) 0 4096 m) = (ents hhdm m)(n := \<lambda>_. 0)"
proof (intro ext)
  fix q j
  show "ents hhdm (memset (n * 4096 + hhdm) 0 4096 m) q j = ((ents hhdm m)(n := \<lambda>_. 0)) q j"
  proof (cases "q = n")
    case True
    have "r64 (memset (n * 4096 + hhdm) 0 4096 m) (n * 4096 + hhdm + 8 * j) = 0" if "j < 512"
      by (rule r64_zero) (use that in \<open>auto simp: memset_block\<close>)
    with True show ?thesis by (simp add: ents_def entry_def)
  next
    case False
    have "r64 (memset (n * 4096 + hhdm) 0 4096 m) (q * 4096 + hhdm + 8 * j) = r64 m (q * 4096 + hhdm + 8 * j)" if "j < 512"
    proof (rule r64_cong)
      fix x
      assume x: "q * 4096 + hhdm + 8 * j \<le> x" "x < q * 4096 + hhdm + 8 * j + 8"
      from False have "q < n \<or> n < q" by linarith
      then have "\<not> (n * 4096 + hhdm \<le> x \<and> x < n * 4096 + hhdm + 4096)"
      proof
        assume "q < n"
        with x that show ?thesis by linarith
      next
        assume "n < q"
        with x that show ?thesis by linarith
      qed
      then show "memset (n * 4096 + hhdm) 0 4096 m x = m x" by (auto simp: memset_block)
    qed
    with False show ?thesis by (simp add: ents_def entry_def)
  qed
qed

lemma index_bounds:
  "pml4_index v < 512" "pdpt_index v < 512" "pd_index v < 512" "pt_index v < 512"
proof -
  have "unat (w AND 0x1FF :: u64) < 512" for w :: u64
  proof -
    have "w AND 0x1FF \<le> 0x1FF" by (rule word_and_le1)
    then show ?thesis by (simp add: word_le_nat_alt)
  qed
  then show "pml4_index v < 512" "pdpt_index v < 512" "pd_index v < 512" "pt_index v < 512"
    by (simp_all add: pml4_index_def pdpt_index_def pd_index_def pt_index_def)
qed

subsubsection \<open>What the operations keep\<close>

definition tables :: "nat \<Rightarrow> mem \<Rightarrow> nat \<Rightarrow> nat set" where
  "tables hhdm m r = {f. \<exists>q. upath q \<and> tbl (ents hhdm m) r q = Some f}"

definition vm_ok :: "nat \<Rightarrow> vmm \<Rightarrow> nat \<Rightarrow> (nat \<times> nat) set \<Rightarrow> bool" where
  "vm_ok hhdm st r A \<longleftrightarrow> pmm_ok (vpmm st) A \<and> total_phys_pages (vpmm st) \<le> 2 ^ 40 \<and> tree (ents hhdm (vmem st)) r A"

text \<open>
  \<open>grow\<close>: tables may have been added in fresh frames, everything else is as before: the leaf entries, and
  the contents of every allocated frame that is not a table.
\<close>

definition grow :: "nat \<Rightarrow> nat \<Rightarrow> vmm \<Rightarrow> (nat \<times> nat) set \<Rightarrow> vmm \<Rightarrow> (nat \<times> nat) set \<Rightarrow> bool" where
  "grow hhdm r st A st' A' \<longleftrightarrow> A \<subseteq> A' \<and> vm_ok hhdm st' r A' \<and>
     (\<forall>q g. upath q \<and> tbl (ents hhdm (vmem st)) r q = Some g \<longrightarrow> tbl (ents hhdm (vmem st')) r q = Some g) \<and>
     (\<forall>d. (d, 0) \<in> A \<and> d \<in> tables hhdm (vmem st') r \<longrightarrow> d \<in> tables hhdm (vmem st) r) \<and>
     (\<forall>q j. upath q \<and> length q = 3 \<longrightarrow> leaf (ents hhdm (vmem st')) r q j = leaf (ents hhdm (vmem st)) r q j) \<and>
     (\<forall>d. (d, 0) \<in> A \<and> d \<notin> tables hhdm (vmem st) r \<longrightarrow> (\<forall>x \<in> region hhdm d 0. vmem st' x = vmem st x))"

lemma growD:
  assumes "grow hhdm r st A st' A'"
  shows "A \<subseteq> A'" "vm_ok hhdm st' r A'"
    "\<And>q g. upath q \<Longrightarrow> tbl (ents hhdm (vmem st)) r q = Some g \<Longrightarrow> tbl (ents hhdm (vmem st')) r q = Some g"
    "\<And>d. (d, 0) \<in> A \<Longrightarrow> d \<in> tables hhdm (vmem st') r \<Longrightarrow> d \<in> tables hhdm (vmem st) r"
    "\<And>q j. upath q \<Longrightarrow> length q = 3 \<Longrightarrow> leaf (ents hhdm (vmem st')) r q j = leaf (ents hhdm (vmem st)) r q j"
    "\<And>d x. (d, 0) \<in> A \<Longrightarrow> d \<notin> tables hhdm (vmem st) r \<Longrightarrow> x \<in> region hhdm d 0 \<Longrightarrow> vmem st' x = vmem st x"
  using assms unfolding grow_def by blast+

lemma grow_trans:
  assumes a: "grow hhdm r st A st1 A1" and b: "grow hhdm r st1 A1 st2 A2"
  shows "grow hhdm r st A st2 A2"
proof -
  note a = growD [OF a] and b = growD [OF b]
  have "vmem st2 x = vmem st x" if "(d, 0) \<in> A" "d \<notin> tables hhdm (vmem st) r" "x \<in> region hhdm d 0" for d x
  proof -
    have "d \<notin> tables hhdm (vmem st1) r" using a(4) that by blast
    with a(1,6) b(6) that show ?thesis by (metis subsetD)
  qed
  moreover have "leaf (ents hhdm (vmem st2)) r q j = leaf (ents hhdm (vmem st)) r q j" if "upath q" "length q = 3" for q j
    using a(5) b(5) that by simp
  ultimately show ?thesis unfolding grow_def using a(1,3,4) b(1,2,3,4) by (intro conjI) blast+
qed

lemma set_entry_other:
  assumes "x \<notin> region hhdm f 0" and "i < 512"
  shows "vmem (set_entry (f * 4096 + hhdm) i v st) x = vmem st x"
  using assms by (auto simp: set_entry_def region_def)

lemma memset_other: "x \<notin> region hhdm n 0 \<Longrightarrow> memset (n * 4096 + hhdm) 0 4096 m x = m x"
  by (auto simp: memset_block region_def)

lemma vm_okD:
  assumes "vm_ok hhdm st r A"
  shows "pmm_ok (vpmm st) A" "total_phys_pages (vpmm st) \<le> 2 ^ 40" "tree (ents hhdm (vmem st)) r A"
  using assms by (auto simp: vm_ok_def)

lemma set_entry_pmm [simp]: "vpmm (set_entry t i v st) = vpmm st"
  by (simp add: set_entry_def)

text \<open>An allocated frame that is not a table is not touched by writes to a table.\<close>

lemma data_apart:
  assumes ok: "vm_ok hhdm st r A" and f: "upath p" "tbl (ents hhdm (vmem st)) r p = Some f"
    and d: "(d, 0) \<in> A" "d \<notin> tables hhdm (vmem st) r" and x: "x \<in> region hhdm d 0"
  shows "x \<notin> region hhdm f 0"
proof
  assume "x \<in> region hhdm f 0"
  moreover have "(f, 0) \<in> A" by (rule treeD(2) [OF vm_okD(3) [OF ok] f])
  ultimately have "d = f" using pg.regions_apart [OF vm_okD(1) [OF ok] d(1) _ x] by blast
  with d(2) f show False by (auto simp: tables_def)
qed

lemma gnl_present:
  assumes ok: "vm_ok hhdm st r A" and p: "upath (p @ [i])" and f: "tbl (ents hhdm (vmem st)) r p = Some f"
    and pr: "has_bit (ents hhdm (vmem st) f i) PTE_PRESENT"
    and e: "has_bit e PTE_PRESENT" "frame e = frame (ents hhdm (vmem st) f i)"
  shows "grow hhdm r st A (set_entry (f * 4096 + hhdm) i e st) A"
    and "tbl (ents hhdm (vmem (set_entry (f * 4096 + hhdm) i e st))) r (p @ [i]) = Some (frame e)"
proof -
  let ?E = "ents hhdm (vmem st)" and ?st = "set_entry (f * 4096 + hhdm) i e st"
  have i: "i < 512" and u: "upath p" and len: "length p \<le> 2" using p upath_snoc [OF p] by (auto simp: upath_def)
  have E': "ents hhdm (vmem ?st) = ?E(f := (?E f)(i := e))" by (rule ents_set [OF i])
  have t: "tbl (ents hhdm (vmem ?st)) r q = tbl ?E r q" for q
    unfolding E' by (rule tbl_flags [of ?E, OF pr e])
  show "tbl (ents hhdm (vmem ?st)) r (p @ [i]) = Some (frame e)" unfolding t by (simp add: tbl_snoc f pr e)
  have l: "leaf (ents hhdm (vmem ?st)) r q j = leaf ?E r q j" if q: "upath q" "length q = 3" for q j
  proof (cases "tbl ?E r q")
    case (Some g)
    have "g \<noteq> f" using treeD(1) [OF vm_okD(3) [OF ok] q(1) u Some] f len q(2) by auto
    with Some show ?thesis unfolding leaf_def t by (simp add: E')
  qed (simp add: leaf_def t)
  have "tree (ents hhdm (vmem ?st)) r A" using vm_okD(3) [OF ok] by (simp add: tree_def t)
  then have "vm_ok hhdm ?st r A" using vm_okD [OF ok] by (simp add: vm_ok_def)
  moreover have "tables hhdm (vmem ?st) r = tables hhdm (vmem st) r" by (simp add: tables_def t)
  moreover have "vmem ?st x = vmem st x" if "(d, 0) \<in> A" "d \<notin> tables hhdm (vmem st) r" "x \<in> region hhdm d 0" for d x
    by (rule set_entry_other [OF data_apart [OF ok u f that] i])
  ultimately show "grow hhdm r st A ?st A" unfolding grow_def using t l by auto
qed

lemma gnl_new:
  assumes ok: "vm_ok hhdm st r A" and p: "upath (p @ [i])" and f: "tbl (ents hhdm (vmem st)) r p = Some f"
    and ab: "\<not> has_bit (ents hhdm (vmem st) f i) PTE_PRESENT"
    and e: "has_bit e PTE_PRESENT" "frame e = n" and n: "(n, 0) \<notin> A" "pmm_ok s (insert (n, 0) A)"
    and s: "total_phys_pages s = total_phys_pages (vpmm st)"
    and st': "st' = set_entry (f * 4096 + hhdm) i e (st\<lparr>vpmm := s, vmem := memset (n * 4096 + hhdm) 0 4096 (vmem st)\<rparr>)"
  shows "grow hhdm r st A st' (insert (n, 0) A)" and "tbl (ents hhdm (vmem st')) r (p @ [i]) = Some n"
proof -
  let ?E = "ents hhdm (vmem st)" and ?E' = "ents hhdm (vmem st')" and ?A = "insert (n, 0) A"
  have i: "i < 512" and u: "upath p" and len: "length p \<le> 2" using p upath_snoc [OF p] by (auto simp: upath_def)
  note tr = vm_okD(3) [OF ok]
  have nt: "tbl ?E r q \<noteq> Some n" if "upath q" for q using treeD(2) [OF tr that] n(1) by blast
  have nf: "n \<noteq> f" using nt [OF u] f by auto
  have E': "?E' = (?E(n := \<lambda>_. 0))(f := ((?E(n := \<lambda>_. 0)) f)(i := e))"
    unfolding st' by (subst ents_set [OF i]) (simp add: ents_zero)
  have "\<forall>q. upath q \<longrightarrow> tbl ?E r q \<noteq> Some n" using nt by blast
  note old = tbl_new_old [OF ab this E'] and cs = tbl_new_cases [OF tr u f ab this E' e(2)]
  have pn: "tbl ?E' r (p @ [i]) = Some n" using old [OF u f] e by (simp add: tbl_snoc E')
  have uniq: "q = q'" if q: "upath q" "upath q'" "tbl ?E' r q = Some g" "tbl ?E' r q' = Some g" for q q' g
    using cs [OF q(1,3)] cs [OF q(2,4)] nt [OF q(1)] nt [OF q(2)] treeD(1) [OF tr q(1,2)] by blast
  have "tree ?E' r ?A" unfolding tree_def using uniq cs treeD(2) [OF tr] by blast
  then have v: "vm_ok hhdm st' r ?A" using vm_okD(2) [OF ok] n(2) s by (simp add: vm_ok_def st')
  have l: "leaf ?E' r q j = leaf ?E r q j" if q: "upath q" "length q = 3" for q j
  proof (cases "tbl ?E r q")
    case (Some g)
    have "g \<noteq> f" "g \<noteq> n" using treeD(1) [OF tr q(1) u Some] f len q(2) nt [OF q(1)] Some by auto
    with Some old [OF q(1) Some] show ?thesis by (simp add: leaf_def E')
  next
    case None
    then have "tbl ?E' r q = None \<or> tbl ?E' r q = Some n" using cs [OF q(1)] by (cases "tbl ?E' r q") auto
    with None nf show ?thesis by (auto simp: leaf_def E')
  qed
  have d: "vmem st' x = vmem st x" if "(d, 0) \<in> A" "d \<notin> tables hhdm (vmem st) r" "x \<in> region hhdm d 0" for d x
  proof -
    have "x \<notin> region hhdm n 0" using pg.regions_apart [OF n(2), of n 0 d 0 x] that n(1) by auto
    then show ?thesis unfolding st' by (simp add: set_entry_other [OF data_apart [OF ok u f that] i] memset_other)
  qed
  have "d \<in> tables hhdm (vmem st) r" if "(d, 0) \<in> A" "d \<in> tables hhdm (vmem st') r" for d
    using that cs n(1) by (fastforce simp: tables_def)
  with v l d old show "grow hhdm r st A st' ?A" unfolding grow_def by blast
  show "tbl ?E' r (p @ [i]) = Some n" by (rule pn)
qed

lemma gnl_ok:
  assumes ok: "vm_ok hhdm st r A" and p: "upath (p @ [i])" and f: "tbl (ents hhdm (vmem st)) r p = Some f"
    and g: "get_next_level hhdm oom (f * 4096 + hhdm) i True st = Some (t, st')"
  shows "\<exists>n A'. t = Some (n * 4096 + hhdm) \<and> tbl (ents hhdm (vmem st')) r (p @ [i]) = Some n \<and> grow hhdm r st A st' A'"
proof -
  have i: "i < 512" using p by (auto simp: upath_def)
  then have en: "entry (vmem st) (f * 4096 + hhdm) i = ents hhdm (vmem st) f i" by (simp add: ents_def)
  let ?e = "ents hhdm (vmem st) f i"
  have hb: "has_bit (e OR (PTE_PRESENT OR PTE_USER OR PTE_WRITABLE)) PTE_PRESENT"
    "has_bit (e OR PTE_PRESENT OR PTE_WRITABLE OR PTE_USER) PTE_PRESENT" for e :: u64
    by (simp_all add: has_present bit_simps)
  show ?thesis
  proof (cases "has_bit ?e PTE_PRESENT")
    case True
    have fr: "frame (?e OR (PTE_PRESENT OR PTE_USER OR PTE_WRITABLE)) = frame ?e" by (rule frame_eqI [OF or_flags(1)])
    from gnl_present [OF ok p f True hb(1) fr] g True show ?thesis
      by (auto simp: get_next_level_def en table_of_frame Let_def)
  next
    case False
    obtain phys s where a: "pmm_alloc oom (vpmm st) = (phys, s)" by fastforce
    with g False have ph: "phys \<noteq> 0" by (auto simp: get_next_level_def en Let_def)
    from pg.alloc_region [OF vm_okD(1) [OF ok] _ a [unfolded pmm_alloc_def] ph, of hhdm] obtain n where
      n: "phys = of_nat n * PAGE_SIZE" "unat phys = n * 4096" "(n, 0) \<notin> A" "pmm_ok s (insert (n, 0) A)"
        "total_phys_pages s = total_phys_pages (vpmm st)" by auto
    have "n < 2 ^ 40" using pg.in_range [OF n(4), of n 0] n(5) vm_okD(2) [OF ok] by simp
    then have fr: "frame ((phys AND PTE_ADDR_MASK) OR PTE_PRESENT OR PTE_WRITABLE OR PTE_USER) = n"
      using frame_eqI [OF or_flags(2)] frame_page n(1) by metis
    from g False ph have "t = Some (n * 4096 + hhdm)" and st': "st' = set_entry (f * 4096 + hhdm) i
        ((phys AND PTE_ADDR_MASK) OR PTE_PRESENT OR PTE_WRITABLE OR PTE_USER)
        (st\<lparr>vpmm := s, vmem := memset (n * 4096 + hhdm) 0 4096 (vmem st)\<rparr>)"
      by (auto simp: get_next_level_def en Let_def a n(2))
    with gnl_new [OF ok p f False hb(2) fr n(3,4,5) st'] show ?thesis by blast
  qed
qed

subsection \<open>Addresses and their paths\<close>

definition path :: "u64 \<Rightarrow> nat list" where
  "path v = [pml4_index v, pdpt_index v, pd_index v]"

lemma offset_mask: "(0xFFF :: u64) = mask 12"
  by (simp add: mask_eq_exp_minus_1)

lemma page_indices:
  "path (v AND NOT 0xFFF) = path v" "pt_index (v AND NOT 0xFFF) = pt_index v"
proof -
  have d: "drop_bit k (v AND NOT 0xFFF) = drop_bit k v" if "12 \<le> k" for k and v :: u64
    unfolding offset_mask by (rule bit_word_eqI) (use that in \<open>auto simp: bit_simps dest: bit_imp_le_length\<close>)
  have "12 \<le> (12 :: nat)" "12 \<le> (21 :: nat)" "12 \<le> (30 :: nat)" "12 \<le> (39 :: nat)" by simp_all
  note d = this [THEN d]
  show "path (v AND NOT 0xFFF) = path v" "pt_index (v AND NOT 0xFFF) = pt_index v"
    by (simp_all only: path_def pml4_index_def pdpt_index_def pd_index_def pt_index_def d)
qed

lemma index_take: "drop_bit k v AND 0x1FF = take_bit 9 (drop_bit k v)" for v :: u64
  by (simp add: take_bit_eq_mask mask_eq_exp_minus_1)

lemma index_eq: "unat (drop_bit k v AND 0x1FF) = unat (drop_bit k w AND 0x1FF) \<longleftrightarrow>
    (\<forall>n. k \<le> n \<and> n < k + 9 \<longrightarrow> bit v n = bit w n)" if "k \<le> 39" for v w :: u64
proof -
  have "(take_bit 9 x = take_bit 9 y) = (\<forall>n < 9. bit x n = bit y n)" for x y :: u64
  proof
    assume "take_bit 9 x = take_bit 9 y"
    then show "\<forall>n < 9. bit x n = bit y n" by (metis bit_take_bit_iff)
  qed (auto intro!: bit_word_eqI simp: bit_simps)
  then have "(take_bit 9 (drop_bit k v) = take_bit 9 (drop_bit k w)) = (\<forall>n < 9. bit v (k + n) = bit w (k + n))"
    by (simp add: bit_simps)
  also have "\<dots> = (\<forall>n. k \<le> n \<and> n < k + 9 \<longrightarrow> bit v n = bit w n)"
  proof
    assume a: "\<forall>n < 9. bit v (k + n) = bit w (k + n)"
    have "bit v n = bit w n" if n: "k \<le> n" "n < k + 9" for n
      using a [rule_format, of "n - k"] n by simp
    then show "\<forall>n. k \<le> n \<and> n < k + 9 \<longrightarrow> bit v n = bit w n" by blast
  qed simp
  finally show ?thesis by (simp only: index_take word_unat_eq_iff [symmetric])
qed

lemma low_half_bit: "v < 0x800000000000 \<Longrightarrow> 47 \<le> n \<Longrightarrow> \<not> bit v n" for v :: u64
proof -
  assume "v < 0x800000000000" "47 \<le> n"
  then have "v < 2 ^ 47" by simp
  then have "take_bit 47 v = v" using less_mask_eq [of v 47] by (simp add: take_bit_eq_mask)
  then show ?thesis using \<open>47 \<le> n\<close> by (metis bit_take_bit_iff not_le)
qed

lemma same_page:
  assumes "v < 0x800000000000" and "w < 0x800000000000"
  shows "path v = path w \<and> pt_index v = pt_index w \<longleftrightarrow> v AND NOT 0xFFF = w AND NOT 0xFFF"
proof
  assume "path v = path w \<and> pt_index v = pt_index w"
  then have b: "\<forall>n. k \<le> n \<and> n < k + 9 \<longrightarrow> bit v n = bit w n" if "k \<in> {12, 21, 30, 39}" for k
    using that by (auto simp: path_def pml4_index_def pdpt_index_def pd_index_def pt_index_def index_eq)
  have "bit v n = bit w n" if "12 \<le> n" for n
  proof (cases "47 \<le> n")
    case True
    with assms show ?thesis by (simp add: low_half_bit)
  next
    case False
    then consider "n < 21" | "21 \<le> n" "n < 30" | "30 \<le> n" "n < 39" | "39 \<le> n" "n < 48" by linarith
    then show ?thesis by cases (use that b [of 12] b [of 21] b [of 30] b [of 39] in auto)
  qed
  then show "v AND NOT 0xFFF = w AND NOT 0xFFF"
    unfolding offset_mask by (intro bit_word_eqI) (auto simp: bit_simps)
qed (metis page_indices)

lemma user_path: "v < 0x800000000000 \<Longrightarrow> upath (path v)"
proof -
  assume v: "v < 0x800000000000"
  have "take_bit 9 (drop_bit 39 v) = take_bit 8 (drop_bit 39 v)"
    by (rule bit_word_eqI) (use low_half_bit [OF v] in \<open>auto simp: bit_simps less_Suc_eq numeral_eq_Suc\<close>)
  moreover have "take_bit 8 x = x AND 0xFF" for x :: u64 by (simp add: take_bit_eq_mask mask_eq_exp_minus_1)
  ultimately have "drop_bit 39 v AND 0x1FF = drop_bit 39 v AND 0xFF" by (simp only: index_take)
  moreover have "drop_bit 39 v AND 0xFF \<le> 0xFF" by (rule word_and_le1)
  ultimately have "drop_bit 39 v AND 0x1FF \<le> 0xFF" by simp
  then show ?thesis using index_bounds [of v] by (simp add: upath_def path_def pml4_index_def word_le_nat_alt)
qed

subsection \<open>Translation\<close>

text \<open>The leaf entry of a virtual address; translation and the operations on the last level read only this.\<close>

definition pte :: "nat \<Rightarrow> vmm \<Rightarrow> nat \<Rightarrow> u64 \<Rightarrow> u64" where
  "pte hhdm st r v = leaf (ents hhdm (vmem st)) r (path v) (pt_index v)"

lemma walk_tbl: "walk hhdm m (r * 4096 + hhdm) v = map_option (\<lambda>f. f * 4096 + hhdm) (tbl (ents hhdm m) r (path v))"
proof -
  have "entry m (r * 4096 + hhdm) (pml4_index v) = ents hhdm m r (pml4_index v)" using index_bounds [of v] by (simp add: ents_def)
  with index_bounds [of v] show ?thesis
    by (simp add: walk_def Let_def path_def entry_table) (simp add: table_of_frame)
qed

lemma get_phys_pte: "vmm_get_phys hhdm (r * 4096 + hhdm) v st =
    (if has_bit (pte hhdm st r v) PTE_PRESENT then (pte hhdm st r v AND PTE_ADDR_MASK) + (v AND 0xFFF) else 0)"
  using index_bounds [of v]
  by (auto simp: vmm_get_phys_def walk_tbl pte_def leaf_def Let_def ents_def has_bit_def split: option.splits)

text \<open>Writing an entry of a last-level table changes one leaf.\<close>

lemma tbl_set_leaf:
  assumes tr: "tree E r A" and p: "upath p" "tbl E r p = Some f" "length p = 3" and q: "upath q"
  shows "tbl (E(f := (E f)(i := e))) r q = tbl E r q"
  using q
proof (induction q rule: rev_induct)
  case (snoc j q)
  note u = upath_snoc [OF snoc.prems]
  show ?case
  proof (cases "tbl E r q")
    case (Some g)
    have "length q < 3" using snoc.prems by (simp add: upath_def)
    then have "g \<noteq> f" using treeD(1) [OF tr u p(1) Some] p by auto
    with Some snoc.IH [OF u] show ?thesis by (simp add: tbl_snoc)
  next
    case None
    with snoc.IH [OF u] show ?thesis by (simp add: tbl_snoc)
  qed
qed simp

lemma set_leaf:
  assumes ok: "vm_ok hhdm st r A" and p: "upath p" "tbl (ents hhdm (vmem st)) r p = Some f" "length p = 3" and i: "i < 512"
    and st': "st' = set_entry (f * 4096 + hhdm) i e st"
  shows "vm_ok hhdm st' r A" "tables hhdm (vmem st') r = tables hhdm (vmem st) r"
    "\<And>q j. upath q \<Longrightarrow> leaf (ents hhdm (vmem st')) r q j =
       (if q = p \<and> j = i then e else leaf (ents hhdm (vmem st)) r q j)"
    "\<And>d x. (d, 0) \<in> A \<Longrightarrow> d \<notin> tables hhdm (vmem st) r \<Longrightarrow> x \<in> region hhdm d 0 \<Longrightarrow> vmem st' x = vmem st x"
proof -
  let ?E = "ents hhdm (vmem st)"
  note tr = vm_okD(3) [OF ok]
  have E': "ents hhdm (vmem st') = ?E(f := (?E f)(i := e))" unfolding st' by (rule ents_set [OF i])
  have t: "tbl (ents hhdm (vmem st')) r q = tbl ?E r q" if "upath q" for q
    unfolding E' by (rule tbl_set_leaf [OF tr p that])
  have "tree (ents hhdm (vmem st')) r A" unfolding tree_def using t treeD [OF tr] by (metis (no_types, lifting))
  then show "vm_ok hhdm st' r A" using vm_okD [OF ok] by (simp add: vm_ok_def st')
  show "tables hhdm (vmem st') r = tables hhdm (vmem st) r" unfolding tables_def using t by auto
  show "vmem st' x = vmem st x" if "(d, 0) \<in> A" "d \<notin> tables hhdm (vmem st) r" "x \<in> region hhdm d 0" for d x
    unfolding st' by (rule set_entry_other [OF data_apart [OF ok p(1,2) that] i])
  show "leaf (ents hhdm (vmem st')) r q j = (if q = p \<and> j = i then e else leaf ?E r q j)" if q: "upath q" for q j
  proof (cases "tbl ?E r q")
    case (Some g)
    have "g = f \<longleftrightarrow> q = p" using treeD(1) [OF tr q p(1) Some] p(2) Some by auto
    with Some show ?thesis unfolding leaf_def t [OF q] by (auto simp: E')
  next
    case None
    with p(2) have "q \<noteq> p" by auto
    with None show ?thesis unfolding leaf_def t [OF q] by simp
  qed
qed

subsection \<open>The operations as updates of the leaf entries\<close>

text \<open>
  \<open>remap\<close>: the leaf entry of one page is replaced; tables may have been added in fresh frames, and the
  frames that are not tables keep their contents.
\<close>

definition remap :: "nat \<Rightarrow> nat \<Rightarrow> vmm \<Rightarrow> (nat \<times> nat) set \<Rightarrow> u64 \<Rightarrow> u64 \<Rightarrow> vmm \<Rightarrow> (nat \<times> nat) set \<Rightarrow> bool" where
  "remap hhdm r st A virt e st' A' \<longleftrightarrow> A \<subseteq> A' \<and> vm_ok hhdm st' r A' \<and>
     (\<forall>v < 0x800000000000. pte hhdm st' r v = (if v AND NOT 0xFFF = virt AND NOT 0xFFF then e else pte hhdm st r v)) \<and>
     (\<forall>d. (d, 0) \<in> A \<and> d \<in> tables hhdm (vmem st') r \<longrightarrow> d \<in> tables hhdm (vmem st) r) \<and>
     (\<forall>d. (d, 0) \<in> A \<and> d \<notin> tables hhdm (vmem st) r \<longrightarrow> (\<forall>x \<in> region hhdm d 0. vmem st' x = vmem st x))"

lemma path_length: "length (path v) = 3"
  by (simp add: path_def)

lemma grow_leaf_remap:
  assumes g: "grow hhdm r st A st1 A1" and v: "virt < 0x800000000000"
    and f: "tbl (ents hhdm (vmem st1)) r (path virt) = Some f"
  shows "remap hhdm r st A virt e (set_entry (f * 4096 + hhdm) (pt_index virt) e st1) A1"
proof -
  let ?st = "set_entry (f * 4096 + hhdm) (pt_index virt) e st1"
  note g = growD [OF g]
  note l = set_leaf [OF g(2) user_path [OF v] f path_length index_bounds(4) refl, where e = e]
  have "pte hhdm ?st r w = (if w AND NOT 0xFFF = virt AND NOT 0xFFF then e else pte hhdm st r w)"
    if w: "w < 0x800000000000" for w
    unfolding pte_def l(3) [OF user_path [OF w]] same_page [OF w v] g(5) [OF user_path [OF w] path_length] by simp
  moreover have "vmem ?st x = vmem st x" if d: "(d, 0) \<in> A" "d \<notin> tables hhdm (vmem st) r" "x \<in> region hhdm d 0" for d x
  proof -
    have "vmem ?st x = vmem st1 x" by (rule l(4)) (use d g(1,4) in auto)
    with g(6) [OF d] show ?thesis by simp
  qed
  ultimately show ?thesis unfolding remap_def using g(1,4) l(1,2) by auto
qed

lemma grow_refl: "vm_ok hhdm st r A \<Longrightarrow> grow hhdm r st A st A"
  by (simp add: grow_def)

lemma upath_prefixes:
  assumes "v < 0x800000000000"
  shows "upath ([] @ [pml4_index v])" "upath ([pml4_index v] @ [pdpt_index v])"
    "upath ([pml4_index v, pdpt_index v] @ [pd_index v])"
  using user_path [OF assms] by (auto simp: upath_def path_def)

lemma vmm_map_remap:
  assumes ok: "vm_ok hhdm st r A" and v: "virt < 0x800000000000"
    and m: "vmm_map hhdm oom (r * 4096 + hhdm) virt phys flags st = Some st'"
  shows "\<exists>A'. remap hhdm r st A virt ((phys AND PTE_ADDR_MASK) OR (flags AND PTE_FLAGS_MASK) OR PTE_PRESENT) st' A'"
proof -
  have pi: "pml4_index (virt AND NOT 0xFFF) = pml4_index virt" "pdpt_index (virt AND NOT 0xFFF) = pdpt_index virt"
    "pd_index (virt AND NOT 0xFFF) = pd_index virt"
    using page_indices(1) [of virt] unfolding path_def list.inject by blast+
  from m obtain pdpt st1 pd st2 pt st3 where
    s1: "get_next_level hhdm oom (r * 4096 + hhdm) (pml4_index virt) True st = Some (pdpt, st1)" and
    s2: "get_next_level hhdm oom (the pdpt) (pdpt_index virt) True st1 = Some (pd, st2)" and
    s3: "get_next_level hhdm oom (the pd) (pd_index virt) True st2 = Some (pt, st3)" and
    s4: "st' = set_entry (the pt) (pt_index virt) ((phys AND PTE_ADDR_MASK) OR (flags AND PTE_FLAGS_MASK) OR PTE_PRESENT) st3"
    unfolding vmm_map_def Let_def pi page_indices(2) by (auto simp: bind_eq_Some_conv)
  note u = upath_prefixes [OF v]
  from gnl_ok [OF ok u(1) _ s1] obtain n1 A1 where
    n1: "pdpt = Some (n1 * 4096 + hhdm)" "tbl (ents hhdm (vmem st1)) r [pml4_index virt] = Some n1" "grow hhdm r st A st1 A1"
    unfolding append.simps tbl.simps(1) by blast
  from gnl_ok [OF growD(2) [OF n1(3)] u(2) n1(2) s2 [unfolded n1(1) option.sel]] obtain n2 A2 where
    n2: "pd = Some (n2 * 4096 + hhdm)" "tbl (ents hhdm (vmem st2)) r [pml4_index virt, pdpt_index virt] = Some n2"
      "grow hhdm r st1 A1 st2 A2" unfolding append.simps by blast
  from gnl_ok [OF growD(2) [OF n2(3)] u(3) n2(2) s3 [unfolded n2(1) option.sel]] obtain n3 A3 where
    n3: "pt = Some (n3 * 4096 + hhdm)" "tbl (ents hhdm (vmem st3)) r (path virt) = Some n3" "grow hhdm r st2 A2 st3 A3"
    unfolding append.simps path_def by blast
  have "grow hhdm r st A st3 A3" using grow_trans n1(3) n2(3) n3(3) by blast
  from grow_leaf_remap [OF this v n3(2)] s4 n3(1) show ?thesis by auto
qed

text \<open>Writes outside the tables do not change them.\<close>

lemma vm_cong:
  assumes m: "\<forall>g \<in> tables hhdm (vmem st) r. \<forall>x \<in> region hhdm g 0. m' x = vmem st x" and q: "upath q"
  shows "tbl (ents hhdm m') r q = tbl (ents hhdm (vmem st)) r q" "leaf (ents hhdm m') r q j = leaf (ents hhdm (vmem st)) r q j"
proof -
  have e: "ents hhdm m' g j = ents hhdm (vmem st) g j" if "g \<in> tables hhdm (vmem st) r" for g j
  proof (cases "j < 512")
    case True
    have "r64 m' (g * 4096 + hhdm + 8 * j) = r64 (vmem st) (g * 4096 + hhdm + 8 * j)"
      by (rule r64_cong) (rule m [rule_format, OF that], use True in \<open>auto simp: region_def\<close>)
    with True show ?thesis by (simp add: ents_def entry_def)
  qed (simp add: ents_def)
  show t: "tbl (ents hhdm m') r q = tbl (ents hhdm (vmem st)) r q"
    using q
  proof (induction q rule: rev_induct)
    case (snoc i q)
    note u = upath_snoc [OF snoc.prems]
    show ?case
    proof (cases "tbl (ents hhdm (vmem st)) r q")
      case (Some g)
      then have "g \<in> tables hhdm (vmem st) r" using u by (auto simp: tables_def)
      with Some snoc.IH [OF u] e [of g i] show ?thesis by (simp add: tbl_snoc)
    next
      case None
      with snoc.IH [OF u] show ?thesis by (simp add: tbl_snoc)
    qed
  qed simp
  show "leaf (ents hhdm m') r q j = leaf (ents hhdm (vmem st)) r q j"
  proof (cases "tbl (ents hhdm (vmem st)) r q")
    case (Some g)
    then have "g \<in> tables hhdm (vmem st) r" using q by (auto simp: tables_def)
    with Some e [of g j] show ?thesis unfolding leaf_def t by simp
  qed (simp add: leaf_def t)
qed

text \<open>A new frame, filled by the caller.\<close>

lemma fresh_frame:
  assumes ok: "vm_ok hhdm st r A" and a: "pmm_alloc oom (vpmm st) = (phys, s)" "phys \<noteq> 0"
    and m: "\<forall>n x. unat phys = n * 4096 \<longrightarrow> x \<notin> region hhdm n 0 \<longrightarrow> m' x = vmem st x"
  obtains n where "phys = of_nat n * PAGE_SIZE" "unat phys = n * 4096" "n < 2 ^ 40" "(n, 0) \<notin> A"
    "vm_ok hhdm (st\<lparr>vpmm := s, vmem := m'\<rparr>) r (insert (n, 0) A)" "tables hhdm m' r = tables hhdm (vmem st) r"
    "\<And>q j. upath q \<Longrightarrow> leaf (ents hhdm m') r q j = leaf (ents hhdm (vmem st)) r q j"
    "\<And>q. upath q \<Longrightarrow> tbl (ents hhdm m') r q = tbl (ents hhdm (vmem st)) r q"
    "\<And>d x. (d, 0) \<in> A \<Longrightarrow> x \<in> region hhdm d 0 \<Longrightarrow> m' x = vmem st x"
proof -
  from pg.alloc_region [OF vm_okD(1) [OF ok] _ a(1) [unfolded pmm_alloc_def] a(2), of hhdm] obtain n where
    n: "phys = of_nat n * PAGE_SIZE" "unat phys = n * 4096" "(n, 0) \<notin> A" "pmm_ok s (insert (n, 0) A)"
      "total_phys_pages s = total_phys_pages (vpmm st)" "\<forall>q j. (q, j) \<in> A \<longrightarrow> region hhdm n 0 \<inter> region hhdm q j = {}" by auto
  have n40: "n < 2 ^ 40" using pg.in_range [OF n(4), of n 0] n(5) vm_okD(2) [OF ok] by simp
  have d: "m' x = vmem st x" if "(d, 0) \<in> A" "x \<in> region hhdm d 0" for d x
    using m [rule_format, OF n(2), of x] n(6) that by blast
  then have "\<forall>g \<in> tables hhdm (vmem st) r. \<forall>x \<in> region hhdm g 0. m' x = vmem st x"
    using treeD(2) [OF vm_okD(3) [OF ok]] by (auto simp: tables_def)
  note c = vm_cong [OF this]
  have "tree (ents hhdm m') r (insert (n, 0) A)"
    unfolding tree_def using treeD [OF vm_okD(3) [OF ok]] c(1) by (metis (no_types, lifting) insertI2)
  then have "vm_ok hhdm (st\<lparr>vpmm := s, vmem := m'\<rparr>) r (insert (n, 0) A)"
    using vm_okD(2) [OF ok] n(4,5) by (simp add: vm_ok_def)
  moreover have "tables hhdm m' r = tables hhdm (vmem st) r" using c(1) by (auto simp: tables_def)
  ultimately show thesis using that [OF n(1,2) n40 n(3)] c d by blast
qed

text \<open>Mapping allocates, and so may panic, only for missing tables.\<close>

lemma gnl_some:
  assumes ok: "vm_ok hhdm st r A" and u: "upath (q @ [i])" and q: "tbl (ents hhdm (vmem st)) r q = Some f"
    and t: "tbl (ents hhdm (vmem st)) r (q @ [i]) = Some g"
  shows "\<exists>n st' A'. get_next_level hhdm oom (f * 4096 + hhdm) i True st = Some (Some (n * 4096 + hhdm), st') \<and>
    tbl (ents hhdm (vmem st')) r (q @ [i]) = Some n \<and> grow hhdm r st A st' A'"
proof -
  have "i < 512" using u by (auto simp: upath_def)
  then have "\<exists>t st'. get_next_level hhdm oom (f * 4096 + hhdm) i True st = Some (t, st')"
    using q t by (auto simp: get_next_level_def Let_def tbl_snoc ents_def split: if_splits)
  with gnl_ok [OF ok u q] show ?thesis by blast
qed

lemma vmm_map_total:
  assumes ok: "vm_ok hhdm st r A" and v: "virt < 0x800000000000"
    and f: "tbl (ents hhdm (vmem st)) r (path virt) = Some f"
  shows "vmm_map hhdm oom (r * 4096 + hhdm) virt phys flags st \<noteq> None"
proof -
  note u = upath_prefixes [OF v]
  have pi: "pml4_index (virt AND NOT 0xFFF) = pml4_index virt" "pdpt_index (virt AND NOT 0xFFF) = pdpt_index virt"
    "pd_index (virt AND NOT 0xFFF) = pd_index virt"
    using page_indices(1) [of virt] unfolding path_def list.inject by blast+
  have t3: "tbl (ents hhdm (vmem st)) r ([pml4_index virt, pdpt_index virt] @ [pd_index virt]) = Some f"
    using f unfolding path_def append.simps .
  then obtain b where "tbl (ents hhdm (vmem st)) r [pml4_index virt, pdpt_index virt] = Some b"
    unfolding tbl_snoc by (auto split: option.splits)
  then have t2: "tbl (ents hhdm (vmem st)) r ([pml4_index virt] @ [pdpt_index virt]) = Some b" by simp
  then obtain a where "tbl (ents hhdm (vmem st)) r [pml4_index virt] = Some a"
    unfolding tbl_snoc by (auto split: option.splits)
  then have t1: "tbl (ents hhdm (vmem st)) r ([] @ [pml4_index virt]) = Some a" by simp
  from gnl_some [OF ok u(1) _ t1] obtain n1 st1 A1 where
    s1: "get_next_level hhdm oom (r * 4096 + hhdm) (pml4_index virt) True st = Some (Some (n1 * 4096 + hhdm), st1)"
      "tbl (ents hhdm (vmem st1)) r [pml4_index virt] = Some n1" "grow hhdm r st A st1 A1"
    unfolding append.simps tbl.simps(1) by blast
  from gnl_some [OF growD(2) [OF s1(3)] u(2) s1(2) growD(3) [OF s1(3) u(2) t2]] obtain n2 st2 A2 where
    s2: "get_next_level hhdm oom (n1 * 4096 + hhdm) (pdpt_index virt) True st1 = Some (Some (n2 * 4096 + hhdm), st2)"
      "tbl (ents hhdm (vmem st2)) r [pml4_index virt, pdpt_index virt] = Some n2" "grow hhdm r st1 A1 st2 A2"
    unfolding append.simps by blast
  note g = growD(3) [OF grow_trans [OF s1(3) s2(3)] u(3) t3]
  from gnl_some [OF growD(2) [OF s2(3)] u(3) s2(2) g] obtain n3 st3 where
    s3: "get_next_level hhdm oom (n2 * 4096 + hhdm) (pd_index virt) True st2 = Some (Some (n3 * 4096 + hhdm), st3)" by blast
  show ?thesis unfolding vmm_map_def Let_def pi by (simp add: s1(1) s2(1) s3)
qed

lemma vmm_unmap_remap:
  assumes ok: "vm_ok hhdm st r A" and v: "virt < 0x800000000000"
  shows "remap hhdm r st A virt 0 (vmm_unmap hhdm (r * 4096 + hhdm) virt st) A"
proof (cases "tbl (ents hhdm (vmem st)) r (path virt)")
  case None
  have "pte hhdm st r w = 0" if "w AND NOT 0xFFF = virt AND NOT 0xFFF" for w
    using page_indices [of w] page_indices [of virt] None that by (simp add: pte_def leaf_def)
  moreover have "vmm_unmap hhdm (r * 4096 + hhdm) virt st = st"
    unfolding vmm_unmap_def Let_def walk_tbl page_indices by (simp add: None)
  ultimately show ?thesis using ok by (simp add: remap_def)
next
  case (Some f)
  have "vmm_unmap hhdm (r * 4096 + hhdm) virt st = set_entry (f * 4096 + hhdm) (pt_index virt) 0 st"
    unfolding vmm_unmap_def Let_def walk_tbl page_indices by (simp add: Some)
  with grow_leaf_remap [OF grow_refl [OF ok] v Some] show ?thesis by simp
qed

subsection \<open>Properties\<close>

lemma map_entry:
  fixes phys flags :: u64
  shows "((phys AND PTE_ADDR_MASK) OR (flags AND PTE_FLAGS_MASK) OR PTE_PRESENT) AND PTE_ADDR_MASK = phys AND PTE_ADDR_MASK"
    and "has_bit ((phys AND PTE_ADDR_MASK) OR (flags AND PTE_FLAGS_MASK) OR PTE_PRESENT) PTE_PRESENT"
proof -
  have "(flags AND PTE_FLAGS_MASK) OR PTE_PRESENT = (flags OR PTE_PRESENT) AND PTE_FLAGS_MASK"
    by (simp add: bit.conj_disj_distrib2)
  then show "((phys AND PTE_ADDR_MASK) OR (flags AND PTE_FLAGS_MASK) OR PTE_PRESENT) AND PTE_ADDR_MASK = phys AND PTE_ADDR_MASK"
    using entry_parts(1) [of phys "flags OR PTE_PRESENT"] by simp
qed (simp add: has_present bit_simps)

lemma remap_phys:
  assumes "remap hhdm r st A virt e st' A'" and "v < 0x800000000000"
  shows "vmm_get_phys hhdm (r * 4096 + hhdm) v st' =
    (if v AND NOT 0xFFF = virt AND NOT 0xFFF
     then if has_bit e PTE_PRESENT then (e AND PTE_ADDR_MASK) + (v AND 0xFFF) else 0
     else vmm_get_phys hhdm (r * 4096 + hhdm) v st)"
  using assms unfolding remap_def get_phys_pte by simp

text \<open>C26. Mapping and unmapping are updates of the translation function: after \<open>vmm_map\<close> the addresses of
  the page translate into the given frame, after \<open>vmm_unmap\<close> to nothing, and every other user address
  translates as before. The page tables stay a tree in allocated frames, and no allocated frame that is
  not a table is written. \<open>vmm_map\<close> cannot panic when the tables of the page exist.\<close>

theorem vmm_translation:
  assumes ok: "vm_ok hhdm st r A" and v: "virt < 0x800000000000"
  shows "(\<forall>st'. vmm_map hhdm oom (r * 4096 + hhdm) virt phys flags st = Some st' \<longrightarrow>
      (\<exists>A'. A \<subseteq> A' \<and> vm_ok hhdm st' r A' \<and>
        (\<forall>w < 0x800000000000. vmm_get_phys hhdm (r * 4096 + hhdm) w st' =
           (if w AND NOT 0xFFF = virt AND NOT 0xFFF then (phys AND PTE_ADDR_MASK) + (w AND 0xFFF)
            else vmm_get_phys hhdm (r * 4096 + hhdm) w st)) \<and>
        (\<forall>d. (d, 0) \<in> A \<and> d \<notin> tables hhdm (vmem st) r \<longrightarrow> (\<forall>x \<in> region hhdm d 0. vmem st' x = vmem st x)))) \<and>
    (tbl (ents hhdm (vmem st)) r (path virt) \<noteq> None \<longrightarrow>
      vmm_map hhdm oom (r * 4096 + hhdm) virt phys flags st \<noteq> None) \<and>
    (let st' = vmm_unmap hhdm (r * 4096 + hhdm) virt st in vm_ok hhdm st' r A \<and>
      (\<forall>w < 0x800000000000. vmm_get_phys hhdm (r * 4096 + hhdm) w st' =
         (if w AND NOT 0xFFF = virt AND NOT 0xFFF then 0 else vmm_get_phys hhdm (r * 4096 + hhdm) w st)) \<and>
      (\<forall>d. (d, 0) \<in> A \<and> d \<notin> tables hhdm (vmem st) r \<longrightarrow> (\<forall>x \<in> region hhdm d 0. vmem st' x = vmem st x)))"
proof (intro conjI allI impI)
  fix st'
  assume "vmm_map hhdm oom (r * 4096 + hhdm) virt phys flags st = Some st'"
  from vmm_map_remap [OF ok v this] obtain A' where
    m: "remap hhdm r st A virt ((phys AND PTE_ADDR_MASK) OR (flags AND PTE_FLAGS_MASK) OR PTE_PRESENT) st' A'" by blast
  show "\<exists>A'. A \<subseteq> A' \<and> vm_ok hhdm st' r A' \<and>
        (\<forall>w < 0x800000000000. vmm_get_phys hhdm (r * 4096 + hhdm) w st' =
           (if w AND NOT 0xFFF = virt AND NOT 0xFFF then (phys AND PTE_ADDR_MASK) + (w AND 0xFFF)
            else vmm_get_phys hhdm (r * 4096 + hhdm) w st)) \<and>
        (\<forall>d. (d, 0) \<in> A \<and> d \<notin> tables hhdm (vmem st) r \<longrightarrow> (\<forall>x \<in> region hhdm d 0. vmem st' x = vmem st x))"
    using m remap_phys [OF m, unfolded map_entry(1)] map_entry(2) [of phys flags] unfolding remap_def
    by (intro exI [of _ A']) presburger
next
  assume "tbl (ents hhdm (vmem st)) r (path virt) \<noteq> None"
  then show "vmm_map hhdm oom (r * 4096 + hhdm) virt phys flags st \<noteq> None" using vmm_map_total [OF ok v] by blast
next
  note m = vmm_unmap_remap [OF ok v]
  have "\<not> has_bit 0 PTE_PRESENT" by (simp add: has_bit_def)
  with m remap_phys [OF m] show "let st' = vmm_unmap hhdm (r * 4096 + hhdm) virt st in vm_ok hhdm st' r A \<and>
      (\<forall>w < 0x800000000000. vmm_get_phys hhdm (r * 4096 + hhdm) w st' =
         (if w AND NOT 0xFFF = virt AND NOT 0xFFF then 0 else vmm_get_phys hhdm (r * 4096 + hhdm) w st)) \<and>
      (\<forall>d. (d, 0) \<in> A \<and> d \<notin> tables hhdm (vmem st) r \<longrightarrow> (\<forall>x \<in> region hhdm d 0. vmem st' x = vmem st x))"
    unfolding Let_def remap_def by presburger
qed

text \<open>
  A small machine for the examples: frames 1 to 4 are the tables of an address space in which the page at
  \<open>0x1000\<close> is mapped to frame 5, copy on write; frame 6 is free.
\<close>

definition demo_frames :: pmm where
  "demo_frames = (empty_pmm 8)\<lparr>freelist := (\<lambda>_. None)(0 := Some 6), free_count := (\<lambda>_. 0)(0 := 1),
     page_array := (page_array (empty_pmm 8))(6 := \<lparr>pg_flags = 0, pg_order = 0, is_free = True,
       pg_next = None, pg_prev = None\<rparr>), free_phys_pages := 1\<rparr>"

definition demo_vm :: vmm where
  "demo_vm = set_entry (4 * 4096 + 0) 1 0x5205 (set_entry (3 * 4096 + 0) 0 0x4007 (set_entry (2 * 4096 + 0) 0 0x3007
     (set_entry (1 * 4096 + 0) 0 0x2007 \<lparr>vmem = \<lambda>_. 0, vpmm = demo_frames\<rparr>)))"

abbreviation (input) demo_blocks :: "(nat \<times> nat) set" where
  "demo_blocks \<equiv> {(1, 0), (2, 0), (3, 0), (4, 0), (5, 0)}"

lemma demo_frames_ok: "pmm_ok demo_frames demo_blocks"
proof -
  let ?F = "(\<lambda>_. [])(0 := [6]) :: nat \<Rightarrow> nat list"
  have f: "fblocks ?F = {(6, 0)}" by (auto simp: fblocks_def split: if_splits)
  have "npages ?F = (\<Sum>k\<in>{0::nat}. 2 ^ k * length (?F k))"
    unfolding npages_def by (rule sum.mono_neutral_right) auto
  then have "npages ?F = 1" by simp
  then have "buddy_inv demo_frames ?F demo_blocks"
    unfolding buddy_inv_def f
    by (auto simp: demo_frames_def empty_pmm_def fl_rep_def fl_list_def tiled_def heads_ok_def flags_ok_def coalesced_def)
  then show ?thesis by (auto simp: pmm_ok_def demo_frames_def empty_pmm_def)
qed

lemma demo_ents: "ents 0 (vmem demo_vm) = (\<lambda>_ _. 0)(1 := (\<lambda>_. 0)(0 := 0x2007), 2 := (\<lambda>_. 0)(0 := 0x3007),
    3 := (\<lambda>_. 0)(0 := 0x4007), 4 := (\<lambda>_. 0)(1 := 0x5205))"
proof -
  have z: "ents 0 (vmem \<lparr>vmem = \<lambda>_. 0, vpmm = demo_frames\<rparr>) = (\<lambda>_ _. 0)"
    by (intro ext) (simp add: ents_def entry_def r64_zero)
  show ?thesis unfolding demo_vm_def by (simp only: ents_set [of 0 0] ents_set [of 1 0] z rel_simps) (auto intro!: ext)
qed

lemma demo_tbl:
  assumes "upath q" and "tbl (ents 0 (vmem demo_vm)) 1 q = Some f"
  shows "q = replicate (length q) 0 \<and> f = length q + 1"
proof -
  have fr: "frame 0x2007 = 2" "frame 0x3007 = 3" "frame 0x4007 = 4" by (simp_all add: frame_def)
  consider "q = []" | a where "q = [a]" | a b where "q = [a, b]" | a b c where "q = [a, b, c]"
    using assms(1) by (cases q rule: list.exhaust [case_names Nil Cons]) (auto simp: upath_def numeral_eq_Suc le_Suc_eq length_Suc_conv)
  then show ?thesis using assms(2) by cases (auto simp: demo_ents fr has_bit_def split: if_splits)
qed

lemma demo_vm_ok: "vm_ok 0 demo_vm 1 demo_blocks" "tables 0 (vmem demo_vm) 1 \<subseteq> {1, 2, 3, 4}"
proof -
  have len: "length q \<in> {0, 1, 2, 3}" if "upath q" for q
  proof -
    from that have "length q \<le> 3" by (simp add: upath_def)
    then show ?thesis by (simp only: insert_iff empty_iff) linarith
  qed
  have f: "f \<in> {1, 2, 3, 4}" if "upath q" "tbl (ents 0 (vmem demo_vm)) 1 q = Some f" for q f
    using demo_tbl [OF that] len [OF that(1)] by auto
  then show "tables 0 (vmem demo_vm) 1 \<subseteq> {1, 2, 3, 4}" by (auto simp: tables_def)
  have "p = q" if "upath p" "upath q" "tbl (ents 0 (vmem demo_vm)) 1 p = Some f" "tbl (ents 0 (vmem demo_vm)) 1 q = Some f" for p q f
    using demo_tbl [OF that(1,3)] demo_tbl [OF that(2,4)] by (metis add_right_cancel)
  then have "tree (ents 0 (vmem demo_vm)) 1 demo_blocks" unfolding tree_def using f by blast
  then show "vm_ok 0 demo_vm 1 demo_blocks" using demo_frames_ok
    by (simp add: vm_ok_def demo_vm_def demo_frames_def empty_pmm_def)
qed

lemma demo_path: "path 0x1000 = [0, 0, 0]" "pt_index 0x1000 = 1"
  by (simp_all add: path_def pml4_index_def pdpt_index_def pd_index_def pt_index_def)

lemma demo_walk: "tbl (ents 0 (vmem demo_vm)) 1 (path 0x1000) = Some 4" "pte 0 demo_vm 1 0x1000 = 0x5205"
proof -
  have fr: "frame 0x2007 = 2" "frame 0x3007 = 3" "frame 0x4007 = 4" by (simp_all add: frame_def)
  show "tbl (ents 0 (vmem demo_vm)) 1 (path 0x1000) = Some 4" by (simp add: demo_ents demo_path fr has_bit_def)
  then show "pte 0 demo_vm 1 0x1000 = 0x5205" by (simp add: pte_def leaf_def demo_path) (simp add: demo_ents)
qed

theorem vmm_translation_witness:
  "\<exists>st'. vmm_map 0 id 4096 0x1000 0x6000 7 demo_vm = Some st' \<and> vmm_get_phys 0 4096 0x1234 st' = 0x6234 \<and>
    vmm_get_phys 0 4096 0x1234 (vmm_unmap 0 4096 0x1000 demo_vm) = 0"
proof -
  have v: "(0x1000 :: u64) < 0x800000000000" "(0x1234 :: u64) < 0x800000000000" by simp_all
  note t = vmm_translation [OF demo_vm_ok(1) v(1), where oom = id and phys = "0x6000" and flags = 7]
  from t demo_walk(1) obtain st' where st': "vmm_map 0 id 4096 0x1000 0x6000 7 demo_vm = Some st'" by auto
  with t v(2) have "vmm_get_phys 0 4096 0x1234 st' = 0x6234" by auto
  moreover from t v(2) have "vmm_get_phys 0 4096 0x1234 (vmm_unmap 0 4096 0x1000 demo_vm) = 0" by (simp add: Let_def)
  ultimately show ?thesis using st' by blast
qed

lemma cow_entry:
  fixes e :: u64
  assumes n: "n < 2 ^ 40" and pr: "has_bit e PTE_PRESENT"
    and e': "e' = ((of_nat n * PAGE_SIZE) AND PTE_ADDR_MASK) OR ((e AND PTE_FLAGS_MASK AND NOT PTE_COW) OR PTE_WRITABLE)"
  shows "e' AND PTE_ADDR_MASK = of_nat n * PAGE_SIZE" "has_bit e' PTE_PRESENT" "has_bit e' PTE_WRITABLE" "\<not> has_bit e' PTE_COW"
proof -
  have "(e AND PTE_FLAGS_MASK AND NOT PTE_COW) OR PTE_WRITABLE = ((e AND NOT PTE_COW) OR PTE_WRITABLE) AND PTE_FLAGS_MASK"
    unfolding bit.conj_disj_distrib2 by (simp add: ac_simps)
  then show "e' AND PTE_ADDR_MASK = of_nat n * PAGE_SIZE"
    unfolding e' using entry_parts(1) [of "of_nat n * PAGE_SIZE" "(e AND NOT PTE_COW) OR PTE_WRITABLE"] page_mask [OF n] by simp
  have hb: "has_bit x 2 = bit x 1" "has_bit x 512 = bit x 9" for x
    using bit_iff_and_push_bit_not_eq_0 [of x 1] bit_iff_and_push_bit_not_eq_0 [of x 9] by (simp_all add: has_bit_def)
  show "has_bit e' PTE_PRESENT" using pr unfolding has_present e' addr_mask by (simp add: bit_simps)
  show "has_bit e' PTE_WRITABLE" unfolding hb e' addr_mask by (simp add: bit_simps)
  show "\<not> has_bit e' PTE_COW" unfolding hb e' addr_mask by (simp add: bit_simps)
qed

text \<open>C27. Copy on write: a write fault on a page marked copy on write gives the process a private frame. The
  handler returns with the page mapped, writable and no longer marked, to a frame that was free, whose
  contents are those of the shared frame; the shared frame and every other data frame are unchanged, and
  no other page changes its translation.\<close>

theorem cow_fault_copies:
  assumes ok: "vm_ok hhdm st (frame cr3_val) A" and fa: "4096 \<le> fault_addr" "fault_addr < 0x800000000000"
    and wr: "error_code AND 2 \<noteq> 0" and e: "e = pte hhdm st (frame cr3_val) fault_addr"
    and cow: "has_bit e PTE_PRESENT" "has_bit e PTE_COW"
    and sh: "(frame e, 0) \<in> A" "frame e \<notin> tables hhdm (vmem st) (frame cr3_val)"
    and al: "fst (pmm_alloc oom (vpmm st)) \<noteq> 0"
  shows "\<exists>n st'. vmm_page_fault_handler hhdm oom fault_addr cr3_val cs error_code has_process st = (Fixed, st') \<and>
    (n, 0) \<notin> A \<and> vm_ok hhdm st' (frame cr3_val) (insert (n, 0) A) \<and>
    (\<forall>i < 4096. vmem st' (n * 4096 + hhdm + i) = vmem st (frame e * 4096 + hhdm + i)) \<and>
    (\<forall>d. (d, 0) \<in> A \<and> d \<notin> tables hhdm (vmem st) (frame cr3_val) \<longrightarrow> (\<forall>x \<in> region hhdm d 0. vmem st' x = vmem st x)) \<and>
    (\<forall>v < 0x800000000000. vmm_get_phys hhdm (frame cr3_val * 4096 + hhdm) v st' =
       (if v AND NOT 0xFFF = fault_addr AND NOT 0xFFF then of_nat n * PAGE_SIZE + (v AND 0xFFF)
        else vmm_get_phys hhdm (frame cr3_val * 4096 + hhdm) v st)) \<and>
    has_bit (pte hhdm st' (frame cr3_val) fault_addr) PTE_WRITABLE \<and>
    \<not> has_bit (pte hhdm st' (frame cr3_val) fault_addr) PTE_COW"
proof -
  let ?r = "frame cr3_val"
  obtain phys s where a: "pmm_alloc oom (vpmm st) = (phys, s)" "phys \<noteq> 0" using al by (metis fst_conv surj_pair)
  define m where "m = memcpy (unat phys + hhdm) (frame e * 4096 + hhdm) 4096 (vmem st)"
  have m: "m = block_copy (n * 4096 + hhdm) (frame e * 4096 + hhdm) 4096 (vmem st)" if "unat phys = n * 4096" for n
    unfolding m_def that by (rule memcpy_block, cases "n \<le> frame e", simp, linarith)
  have out: "\<forall>n x. unat phys = n * 4096 \<longrightarrow> x \<notin> region hhdm n 0 \<longrightarrow> m x = vmem st x"
    by (auto simp: m block_copy_def region_def)
  from fresh_frame [OF ok a out] obtain n where
    n: "phys = of_nat n * PAGE_SIZE" "unat phys = n * 4096" "n < 2 ^ 40" "(n, 0) \<notin> A"
    "vm_ok hhdm (st\<lparr>vpmm := s, vmem := m\<rparr>) ?r (insert (n, 0) A)" "tables hhdm m ?r = tables hhdm (vmem st) ?r"
    "\<And>q j. upath q \<Longrightarrow> leaf (ents hhdm m) ?r q j = leaf (ents hhdm (vmem st)) ?r q j"
    "\<And>q. upath q \<Longrightarrow> tbl (ents hhdm m) ?r q = tbl (ents hhdm (vmem st)) ?r q"
    "\<And>d x. (d, 0) \<in> A \<Longrightarrow> x \<in> region hhdm d 0 \<Longrightarrow> m x = vmem st x" by blast
  note u = user_path [OF fa(2)]
  obtain f where f: "tbl (ents hhdm (vmem st)) ?r (path fault_addr) = Some f"
    using cow(1) by (auto simp: e pte_def leaf_def has_bit_def split: option.splits)
  define e' where "e' = (phys AND PTE_ADDR_MASK) OR ((e AND PTE_FLAGS_MASK AND NOT PTE_COW) OR PTE_WRITABLE)"
  define st' where "st' = set_entry (f * 4096 + hhdm) (pt_index fault_addr) e' (st\<lparr>vpmm := s, vmem := m\<rparr>)"
  have ee: "entry (vmem st) (f * 4096 + hhdm) (pt_index fault_addr) = e"
    using index_bounds(4) [of fault_addr] f by (simp add: e pte_def leaf_def ents_def)
  have "\<not> fault_addr < 4096" using fa(1) by simp
  then have h: "vmm_page_fault_handler hhdm oom fault_addr cr3_val cs error_code has_process st = (Fixed, st')"
    using wr cow a(2) by (simp add: vmm_page_fault_handler_def table_of_frame walk_tbl f ee a(1) Let_def st'_def e'_def m_def)
  have rm: "remap hhdm ?r (st\<lparr>vpmm := s, vmem := m\<rparr>) (insert (n, 0) A) fault_addr e' st' (insert (n, 0) A)"
    unfolding st'_def by (rule grow_leaf_remap [OF grow_refl [OF n(5)] fa(2)]) (simp add: n(8) [OF u] f)
  note ce = cow_entry [OF n(3) cow(1) e'_def [unfolded n(1)]]
  have pt: "pte hhdm (st\<lparr>vpmm := s, vmem := m\<rparr>) ?r v = pte hhdm st ?r v" if "v < 0x800000000000" for v
    using n(7) [OF user_path [OF that]] by (simp add: pte_def)
  have nt: "n \<notin> tables hhdm (vmem st) ?r" using n(4) treeD(2) [OF vm_okD(3) [OF ok]] by (auto simp: tables_def)
  have data: "vmem st' x = m x" if "(d, 0) \<in> insert (n, 0) A" "d \<notin> tables hhdm (vmem st) ?r" "x \<in> region hhdm d 0" for d x
    using rm that n(6) by (simp add: remap_def)
  have copy: "vmem st' (n * 4096 + hhdm + i) = vmem st (frame e * 4096 + hhdm + i)" if "i < 4096" for i
    using data [OF _ nt, of "n * 4096 + hhdm + i"] that by (simp add: region_def m [OF n(2)] block_copy_def)
  have old: "\<forall>d. (d, 0) \<in> A \<and> d \<notin> tables hhdm (vmem st) ?r \<longrightarrow> (\<forall>x \<in> region hhdm d 0. vmem st' x = vmem st x)"
  proof (intro allI impI ballI)
    fix d x
    assume d: "(d, 0) \<in> A \<and> d \<notin> tables hhdm (vmem st) ?r" "x \<in> region hhdm d 0"
    then show "vmem st' x = vmem st x" using data [of d x] n(9) [of d x] by simp
  qed
  have ph: "vmm_get_phys hhdm (?r * 4096 + hhdm) v st' = (if v AND NOT 0xFFF = fault_addr AND NOT 0xFFF
      then of_nat n * PAGE_SIZE + (v AND 0xFFF) else vmm_get_phys hhdm (?r * 4096 + hhdm) v st)" if "v < 0x800000000000" for v
    unfolding remap_phys [OF rm that] ce(1) using ce(2) by (simp add: get_phys_pte pt [OF that])
  have "pte hhdm st' ?r fault_addr = e'" using rm fa(2) by (simp add: remap_def)
  moreover have "vm_ok hhdm st' ?r (insert (n, 0) A)" using rm by (simp add: remap_def)
  ultimately show ?thesis using h n(4) copy old ph ce(3,4) by (intro exI [of _ n] exI [of _ st']) simp
qed

theorem cow_fault_copies_witness:
  "\<exists>st'. vmm_page_fault_handler 0 id 0x1234 0x1000 0x23 7 True demo_vm = (Fixed, st') \<and>
    \<not> has_bit (pte 0 st' 1 0x1234) PTE_COW"
proof -
  have p: "pte 0 demo_vm 1 0x1234 = 0x5205"
    using demo_walk(2) page_indices [of "0x1234"] by (simp add: pte_def demo_path)
  have f: "frame 0x1000 = 1" "frame 0x5205 = 5" by (simp_all add: frame_def)
  have "[0..<16] = 0 # [1..<16]" by (simp add: upt_conv_Cons)
  then have a: "fst (pmm_alloc id (vpmm demo_vm)) \<noteq> 0"
    by (simp add: pmm_alloc_def pmm_alloc_pages_def demo_vm_def demo_frames_def Let_def)
  have "5 \<notin> tables 0 (vmem demo_vm) 1" using demo_vm_ok(2) by auto
  with cow_fault_copies [of 0 demo_vm "0x1000" demo_blocks "0x1234" 7 "0x5205" id "0x23" True] demo_vm_ok(1) a p f
  show ?thesis by (simp add: has_bit_def) blast
qed

end
