(* ===== verification/Vfs.thy ===== *)
theory Vfs
  imports Objects Vnode Kstring "HOL-Library.Monad_Syntax"
begin

section \<open>The virtual file system (\<open>kernel/fs/vfs.c\<close>)\<close>

text \<open>
  Nodes live in a store at their addresses, \<open>0\<close> is \<open>NULL\<close>, and following a pointer to a node that does not
  exist is \<open>None\<close>. A node names its table of operations; the table is a record of function pointers, each
  of which may be \<open>NULL\<close>. The tables of all file systems and the page cache are parameters here
  (\<open>vfs_env\<close>); \<open>Ramfs\<close> defines the table of the RAM file system.

  C strings are byte lists without the terminator, except where the functions of \<open>Kstring\<close> are applied.
\<close>

record ramfs_file_data =
  fd_buffer :: nat
  fd_capacity :: u64

record fs_state =
  fs_heap :: heap
  fs_nodes :: "nat \<Rightarrow> vfs_node option"
  fs_files :: "nat \<Rightarrow> ramfs_file_data option"
  vfs_root :: nat
  devfs_root :: nat

text \<open>\<open>vfs_file_operations_t\<close>: \<open>read\<close> and \<open>write\<close> take the node, the offset, the size and the address of the buffer.\<close>

record file_ops =
  op_read :: "(nat \<Rightarrow> u64 \<Rightarrow> u64 \<Rightarrow> nat \<Rightarrow> fs_state \<Rightarrow> (int \<times> fs_state) option) option"
  op_write :: "(nat \<Rightarrow> u64 \<Rightarrow> u64 \<Rightarrow> nat \<Rightarrow> fs_state \<Rightarrow> (int \<times> fs_state) option) option"
  op_open :: "(nat \<Rightarrow> fs_state \<Rightarrow> fs_state option) option"
  op_close :: "(nat \<Rightarrow> fs_state \<Rightarrow> fs_state option) option"
  op_readdir :: "(nat \<Rightarrow> u32 \<Rightarrow> fs_state \<Rightarrow> (nat \<times> fs_state) option) option"
  op_finddir :: "(nat \<Rightarrow> bytes \<Rightarrow> fs_state \<Rightarrow> (nat \<times> fs_state) option) option"
  op_create :: "(nat \<Rightarrow> bytes \<Rightarrow> u32 \<Rightarrow> fs_state \<Rightarrow> (nat \<times> fs_state) option) option"

record vfs_env =
  ops_of :: "fs_ops \<Rightarrow> file_ops"
  page_cache_read :: "nat \<Rightarrow> u64 \<Rightarrow> u64 \<Rightarrow> nat \<Rightarrow> fs_state \<Rightarrow> (int \<times> fs_state) option"
  page_cache_write :: "nat \<Rightarrow> u64 \<Rightarrow> u64 \<Rightarrow> nat \<Rightarrow> fs_state \<Rightarrow> (int \<times> fs_state) option"

abbreviation (input) FS_CACHEABLE :: u32 where "FS_CACHEABLE \<equiv> 0x200000"

definition has_flag :: "vfs_node \<Rightarrow> u32 \<Rightarrow> bool" where
  "has_flag n f \<longleftrightarrow> n_flags n AND f \<noteq> 0"

text \<open>The file system mounted on a node replaces it.\<close>

definition mounted :: "nat \<Rightarrow> fs_state \<Rightarrow> nat option" where
  "mounted node st = do {
     n \<leftarrow> fs_nodes st node;
     Some (if has_flag n FS_MOUNTPOINT \<and> n_ptr n \<noteq> 0 then n_ptr n else node)
   }"

subsection \<open>Directories\<close>

definition vfs_readdir :: "vfs_env \<Rightarrow> nat \<Rightarrow> u32 \<Rightarrow> fs_state \<Rightarrow> (nat \<times> fs_state) option" where
  "vfs_readdir env node index st =
     (if node = 0 then Some (0, st)
      else do {
        n \<leftarrow> fs_nodes st node;
        if \<not> has_flag n FS_DIRECTORY \<or> n_ops n = NoOps then Some (0, st)
        else case op_readdir (ops_of env (n_ops n)) of
               None \<Rightarrow> Some (0, st)
             | Some f \<Rightarrow> f node index st
      })"

definition vfs_finddir :: "vfs_env \<Rightarrow> nat \<Rightarrow> bytes option \<Rightarrow> fs_state \<Rightarrow> (nat \<times> fs_state) option" where
  "vfs_finddir env node name st =
     (case name of
        None \<Rightarrow> Some (0, st)
      | Some nm \<Rightarrow>
          if node = 0 then Some (0, st)
          else do {
            dir \<leftarrow> mounted node st;
            n \<leftarrow> fs_nodes st dir;
            if \<not> has_flag n FS_DIRECTORY \<or> n_ops n = NoOps then Some (0, st)
            else case op_finddir (ops_of env (n_ops n)) of
                   None \<Rightarrow> Some (0, st)
                 | Some f \<Rightarrow> f dir nm st
          })"

definition vfs_create :: "vfs_env \<Rightarrow> nat \<Rightarrow> bytes option \<Rightarrow> u32 \<Rightarrow> fs_state \<Rightarrow> (nat \<times> fs_state) option" where
  "vfs_create env dir name flags st =
     (case name of
        None \<Rightarrow> Some (0, st)
      | Some nm \<Rightarrow>
          if dir = 0 \<or> nm = [] then Some (0, st)
          else do {
            dir' \<leftarrow> mounted dir st;
            n \<leftarrow> fs_nodes st dir';
            if \<not> has_flag n FS_DIRECTORY \<or> n_ops n = NoOps then Some (0, st)
            else case op_create (ops_of env (n_ops n)) of
                   None \<Rightarrow> Some (0, st)
                 | Some f \<Rightarrow>
                     let type = flags AND (FS_FILE OR FS_DIRECTORY OR FS_SOCKET OR FS_SYMLINK)
                     in f dir' nm (if type \<noteq> 0 then type else FS_FILE) st
          })"

subsection \<open>Path resolution\<close>

text \<open>
  The walk below \<open>/dev/\<close>: components are copied into a buffer of 64 bytes, so a longer component is looked
  up in pieces.
\<close>

definition comp_len :: "bytes \<Rightarrow> nat" where
  "comp_len sub = length (takeWhile (\<lambda>c. c \<noteq> 47) (take 63 sub))"

lemma dev_walk_smaller:
  assumes "sub \<noteq> []" and "sub1 = drop (comp_len sub) sub"
    and "sub2 = (if sub1 \<noteq> [] \<and> hd sub1 = 47 then tl sub1 else sub1)"
  shows "length sub2 < length sub"
proof (cases "comp_len sub = 0")
  case True
  then have "hd sub = 47" using assms(1) by (cases sub) (auto simp: comp_len_def numeral_eq_Suc split: if_splits)
  with True assms show ?thesis by (cases sub) auto
next
  case False
  with assms show ?thesis by (cases sub) (auto simp: less_Suc_eq_le)
qed

function dev_walk :: "vfs_env \<Rightarrow> bytes \<Rightarrow> nat \<Rightarrow> fs_state \<Rightarrow> (nat \<times> fs_state) option" where
  "dev_walk env sub cur st =
     (if sub = [] \<or> cur = 0 then Some (cur, st)
      else
        let c_idx = comp_len sub; comp = take c_idx sub; sub1 = drop c_idx sub;
            sub2 = (if sub1 \<noteq> [] \<and> hd sub1 = 47 then tl sub1 else sub1)
        in if c_idx > 0 then
             (case vfs_finddir env cur (Some comp) st of
                None \<Rightarrow> None
              | Some (cur', st') \<Rightarrow> dev_walk env sub2 cur' st')
           else dev_walk env sub2 cur st)"
  by pat_completeness auto

termination dev_walk
  by (relation "measure (\<lambda>(env, sub, cur, st). length sub)") (simp_all add: dev_walk_smaller)

text \<open>The first delimiter \<open>strsep\<close> finds lies inside the buffer, so its loop ends.\<close>

lemma sep_find_less: "sep_find s d = Some (Some k) \<Longrightarrow> k < length s"
  by (induction s arbitrary: k) (auto split: if_splits option.splits bool.splits)

lemma strsep_less:
  assumes "strsep buf (Some p) d = Some (t, Some q, buf')"
  shows "p < q \<and> q \<le> length buf \<and> length buf' = length buf"
  using assms sep_find_less by (fastforce simp: strsep_def split: option.splits)

lemma strsep_length: "strsep buf p d = Some (t, q, buf') \<Longrightarrow> length buf' = length buf"
  by (auto simp: strsep_def split: option.splits)

text \<open>The loop over the components: the node reached, \<open>0\<close> when a component does not exist.\<close>

function path_loop :: "vfs_env \<Rightarrow> bytes \<Rightarrow> nat option \<Rightarrow> nat \<Rightarrow> fs_state \<Rightarrow> (nat \<times> fs_state) option" where
  "path_loop env buffer rest current st =
     (case rest of
        None \<Rightarrow> Some (current, st)
      | Some p \<Rightarrow>
          (case strsep buffer (Some p) [47, 0] of
             None \<Rightarrow> None
           | Some (token, rest1, buf1) \<Rightarrow>
               (case token of
                  None \<Rightarrow> path_loop env buf1 rest1 current st
                | Some t \<Rightarrow>
                    let tok = drop t buf1 in
                    if hd tok = 0 then path_loop env buf1 rest1 current st
                    else if strcmp tok [46, 0] = Some 0 then path_loop env buf1 rest1 current st
                    else if strcmp tok [46, 46, 0] = Some 0 then
                      (case fs_nodes st current of
                         None \<Rightarrow> None
                       | Some n \<Rightarrow>
                           path_loop env buf1 rest1 (if n_parent n \<noteq> 0 then n_parent n else current) st)
                    else
                      (case vfs_finddir env current (Some (takeWhile (\<lambda>c. c \<noteq> 0) tok)) st of
                         None \<Rightarrow> None
                       | Some (child, st1) \<Rightarrow>
                           if child = 0 then Some (0, st1)
                           else (case mounted child st1 of
                                   None \<Rightarrow> None
                                 | Some cur \<Rightarrow> path_loop env buf1 rest1 cur st1)))))"
  by pat_completeness auto
termination path_loop
  by (relation "measure (\<lambda>(env, buffer, rest, current, st). case rest of None \<Rightarrow> 0 | Some p \<Rightarrow> Suc (Suc (length buffer) - p))")
     (auto split: option.splits dest!: strsep_less)

text \<open>
  A path of 256 bytes or more is copied into a heap buffer instead of a stack buffer; the walk is the same.
\<close>

definition vfs_resolve_path ::
  "nat \<Rightarrow> (pmm \<Rightarrow> pmm) \<Rightarrow> vfs_env \<Rightarrow> bytes option \<Rightarrow> fs_state \<Rightarrow> (nat \<times> fs_state) option" where
  "vfs_resolve_path hhdm oom env path st =
     (case path of
        None \<Rightarrow> Some (0, st)
      | Some p \<Rightarrow>
          if p = [] \<or> hd p \<noteq> 47 then Some (0, st)
          else do {
            (dev, st0) \<leftarrow> (if take 5 p = cstr ''/dev/'' \<and> devfs_root st \<noteq> 0
                            then dev_walk env (drop 5 p) (devfs_root st) st else Some (0, st));
            if dev \<noteq> 0 then Some (dev, st0)
            else if vfs_root st0 = 0 then Some (0, st0)
            else do {
              current \<leftarrow> mounted (vfs_root st0) st0;
              if p = [47] \<or> p = [47, 47] then Some (current, st0)
              else if length p < 256 then path_loop env (tl p @ [0]) (Some 0) current st0
              else do {
                (buffer, h) \<leftarrow> kmalloc hhdm oom (of_nat (length p + 1)) (fs_heap st0);
                let st1 = st0\<lparr>fs_heap := h\<rparr>;
                if buffer = 0 then Some (0, st1)
                else do {
                  (node, st2) \<leftarrow> path_loop env (tl p @ [0]) (Some 0) current st1;
                  h' \<leftarrow> kfree hhdm buffer (fs_heap st2);
                  Some (node, st2\<lparr>fs_heap := h'\<rparr>)
                }
              }
            }
          })"

subsection \<open>Files\<close>

definition vfs_open :: "nat \<Rightarrow> (pmm \<Rightarrow> pmm) \<Rightarrow> vfs_env \<Rightarrow> bytes option \<Rightarrow> u32 \<Rightarrow> fs_state \<Rightarrow> (nat \<times> fs_state) option" where
  "vfs_open hhdm oom env path flags st = do {
     (node, st1) \<leftarrow> vfs_resolve_path hhdm oom env path st;
     if node = 0 then Some (0, st1)
     else do {
       n \<leftarrow> fs_nodes st1 node;
       (case (n_ops n, op_open (ops_of env (n_ops n))) of
          (NoOps, _) \<Rightarrow> Some (node, st1)
        | (_, None) \<Rightarrow> Some (node, st1)
        | (_, Some f) \<Rightarrow> map_option (Pair node) (f node st1))
     }
   }"

definition vfs_mount :: "nat \<Rightarrow> (pmm \<Rightarrow> pmm) \<Rightarrow> vfs_env \<Rightarrow> bytes option \<Rightarrow> nat \<Rightarrow> fs_state \<Rightarrow> (nat \<times> fs_state) option" where
  "vfs_mount hhdm oom env path local_root st =
     (if local_root = 0 then Some (0, st)
      else if vfs_root st = 0 then Some (local_root, st\<lparr>vfs_root := local_root\<rparr>)
      else do {
        (mountpoint, st1) \<leftarrow> vfs_open hhdm oom env path 0 st;
        if mountpoint = 0 then Some (0, st1)
        else do {
          n \<leftarrow> fs_nodes st1 mountpoint;
          Some (local_root, st1\<lparr>fs_nodes := (fs_nodes st1)
            (mountpoint \<mapsto> n\<lparr>n_flags := n_flags n OR FS_MOUNTPOINT, n_ptr := local_root\<rparr>)\<rparr>)
        }
      })"

text \<open>Only nodes that a disk driver has marked go through the page cache.\<close>

definition vfs_read :: "vfs_env \<Rightarrow> nat \<Rightarrow> u64 \<Rightarrow> u64 \<Rightarrow> nat \<Rightarrow> fs_state \<Rightarrow> (int \<times> fs_state) option" where
  "vfs_read env node offset sz buffer st =
     (if node = 0 then Some (- 1, st)
      else do {
        n \<leftarrow> fs_nodes st node;
        if n_ops n = NoOps then Some (- 1, st)
        else if has_flag n FS_CACHEABLE \<and> n_inode n \<noteq> 0 then page_cache_read env node offset sz buffer st
        else case op_read (ops_of env (n_ops n)) of
               None \<Rightarrow> Some (- 1, st)
             | Some f \<Rightarrow> f node offset sz buffer st
      })"

definition vfs_write :: "vfs_env \<Rightarrow> nat \<Rightarrow> u64 \<Rightarrow> u64 \<Rightarrow> nat \<Rightarrow> fs_state \<Rightarrow> (int \<times> fs_state) option" where
  "vfs_write env node offset sz buffer st =
     (if node = 0 then Some (- 1, st)
      else do {
        n \<leftarrow> fs_nodes st node;
        if n_ops n = NoOps then Some (- 1, st)
        else if has_flag n FS_CACHEABLE \<and> n_inode n \<noteq> 0 then page_cache_write env node offset sz buffer st
        else case op_write (ops_of env (n_ops n)) of
               None \<Rightarrow> Some (- 1, st)
             | Some f \<Rightarrow> f node offset sz buffer st
      })"

definition vfs_close :: "vfs_env \<Rightarrow> nat \<Rightarrow> fs_state \<Rightarrow> fs_state option" where
  "vfs_close env node st =
     (if node = 0 then Some st
      else do {
        n \<leftarrow> fs_nodes st node;
        (case (n_ops n, op_close (ops_of env (n_ops n))) of
           (NoOps, _) \<Rightarrow> Some st
         | (_, None) \<Rightarrow> Some st
         | (_, Some f) \<Rightarrow> f node st)
      })"

subsection \<open>What path resolution computes\<close>

text \<open>
  The specification: the components of the path are the maximal runs without a slash, and each one is a step
  from node to node. \<open>0\<close> ends the walk.
\<close>

definition walk_step :: "vfs_env \<Rightarrow> bytes \<Rightarrow> nat \<Rightarrow> fs_state \<Rightarrow> (nat \<times> fs_state) option" where
  "walk_step env c cur st =
     (if c = cstr ''.'' then Some (cur, st)
      else if c = cstr ''..'' then
        map_option (\<lambda>n. (if n_parent n \<noteq> 0 then n_parent n else cur, st)) (fs_nodes st cur)
      else do {
        (child, st1) \<leftarrow> vfs_finddir env cur (Some c) st;
        if child = 0 then Some (0, st1) else map_option (\<lambda>x. (x, st1)) (mounted child st1)
      })"

fun walk_path :: "vfs_env \<Rightarrow> bytes list \<Rightarrow> nat \<Rightarrow> fs_state \<Rightarrow> (nat \<times> fs_state) option" where
  "walk_path env [] cur st = Some (cur, st)"
| "walk_path env (c # cs) cur st =
     (case walk_step env c cur st of
        None \<Rightarrow> None
      | Some (x, st1) \<Rightarrow> if x = 0 then Some (0, st1) else walk_path env cs x st1)"

abbreviation components :: "bytes \<Rightarrow> bytes list" where
  "components \<equiv> tokens (\<lambda>c. c = 47)"

lemma sep_find_text:
  assumes "0 \<notin> set a" and "47 \<notin> set a"
  shows "sep_find (a @ 47 # r) [47, 0] = Some (Some (length a))" "sep_find (a @ 0 # r) [47, 0] = Some None"
  using assms by (induction a) auto

declare path_loop.simps [simp del]

lemma path_loop_token:
  assumes s: "strsep buffer (Some p) [47, 0] = Some (Some t, rest, buf)" and t: "drop t buf = c @ 0 # r" and c: "0 \<notin> set c"
    and cur: "cur \<noteq> 0"
  shows "path_loop env buffer (Some p) cur st =
    (if c = [] then path_loop env buf rest cur st
     else case walk_step env c cur st of
       None \<Rightarrow> None
     | Some (x, st1) \<Rightarrow> if x = 0 then Some (0, st1) else path_loop env buf rest x st1)"
proof -
  have dot: "strcmp (c @ 0 # r) [46, 0] = Some 0 \<longleftrightarrow> c = cstr ''.''" "strcmp (c @ 0 # r) [46, 46, 0] = Some 0 \<longleftrightarrow> c = cstr ''..''"
    using strcmp_cstr [OF c, of "[46]" r "[]"] strcmp_cstr [OF c, of "[46, 46]" r "[]"] by (auto simp: cstr_def)
  have h: "hd (c @ 0 # r) = 0 \<longleftrightarrow> c = []" using c by (cases c) auto
  have tw: "takeWhile (\<lambda>c. c \<noteq> 0) (c @ 0 # r) = c" by (rule takeWhile_cstr [OF c])
  have "\<not> (c = cstr ''.'' \<and> c = [])" "\<not> (c = cstr ''..'' \<and> c = [])" by (auto simp: cstr_def)
  then show ?thesis using cur
    by (subst path_loop.simps) (auto simp: s t Let_def h dot tw walk_step_def mounted_def split: option.splits bind_splits)
qed

lemma components_split:
  assumes "47 \<notin> set a"
  shows "components (a @ 47 # b) = (if a = [] then components b else a # components b)"
    and "components a = (if a = [] then [] else [a])"
proof -
  have a: "takeWhile (\<lambda>c. c \<noteq> 47) (a @ 47 # b) = a" "dropWhile (\<lambda>c. c \<noteq> 47) (a @ 47 # b) = 47 # b"
    using assms by (induction a) auto
  have d: "dropWhile (\<lambda>c. c = 47) (a @ y) = a @ y" if "a \<noteq> []" for y using that assms by (cases a) auto
  show "components (a @ 47 # b) = (if a = [] then components b else a # components b)"
  proof (cases "a = []")
    case False
    with a d [of "47 # b"] show ?thesis by (subst tokens.simps) (simp add: tokens_delim)
  qed (simp add: tokens_delim)
  have w: "takeWhile (\<lambda>c. c \<noteq> 47) a = a" "dropWhile (\<lambda>c. c \<noteq> 47) a = []" using assms by (auto simp: takeWhile_eq_all_conv)
  have "components [] = []" by (simp add: tokens.simps)
  then show "components a = (if a = [] then [] else [a])"
    using d [of "[]"] tokens.simps [of "\<lambda>c. c = 47" a] by (cases "a = []") (simp_all only: append_Nil2 w if_True if_False simp_thms)
qed

lemma path_loop_walk:
  assumes "0 \<notin> set q" and "cur \<noteq> 0"
  shows "path_loop env (pre @ q @ [0]) (Some (length pre)) cur st = walk_path env (components q) cur st"
  using assms
proof (induction "length q" arbitrary: q pre cur st rule: less_induct)
  case less
  show ?case
  proof (cases "47 \<in> set q")
    case False
    have s: "strsep (pre @ q @ [0]) (Some (length pre)) [47, 0] = Some (Some (length pre), None, pre @ q @ [0])"
      using sep_find_text(2) [OF less.prems(1) False, of "[]"] by (simp add: strsep_def)
    from path_loop_token [OF s, of q "[]"] less.prems components_split(2) [OF False] show ?thesis
      by (auto simp: path_loop.simps [of _ _ None] split: option.splits)
  next
    case True
    then obtain a b where q: "q = a @ 47 # b" "47 \<notin> set a" by (meson split_list_first)
    then have a: "0 \<notin> set a" "0 \<notin> set b" using less.prems(1) by auto
    let ?buf = "(pre @ a @ [0]) @ b @ [0]"
    have s: "strsep (pre @ q @ [0]) (Some (length pre)) [47, 0] = Some (Some (length pre), Some (length (pre @ a @ [0])), ?buf)"
      using sep_find_text(1) [OF a(1) q(2), of "b @ [0]"] by (simp add: strsep_def q list_update_append)
    have ih: "path_loop env ?buf (Some (length (pre @ a @ [0]))) x st' = walk_path env (components b) x st'" if "x \<noteq> 0" for x st'
      by (rule less.hyps) (use q a that in auto)
    show ?thesis
      using path_loop_token [OF s, of a "b @ [0]" cur env st] less.prems(2) a ih
      by (auto simp: q components_split(1) [OF q(2)] split: option.splits)
  qed
qed


definition demo_root :: fs_state where
  "demo_root = \<lparr>fs_heap = demo_heap, fs_nodes = [64 \<mapsto> zero_node\<lparr>n_flags := FS_DIRECTORY, n_parent := 64\<rparr>],
     fs_files = Map.empty, vfs_root = 64, devfs_root = 0\<rparr>"


end
