(* ===== verification/Ramfs.thy ===== *)
theory Ramfs
  imports Vfs
begin

section \<open>The RAM file system (\<open>kernel/fs/ramfs.c\<close>)\<close>

text \<open>
  The operations on files and directories, the creation of nodes and the table of operations for the
  virtual file system. The loops over the list of children follow the \<open>next\<close> pointers and would not end
  on a cyclic list; a loop that does not end has no value (\<open>None\<close>).

  The second part proves that a directory is a finite map with insertion at the end, and that a file is a
  growing byte array.
\<close>

abbreviation (input) RAMFS_DATA_SIZE :: u64 where "RAMFS_DATA_SIZE \<equiv> 16"

definition set_node :: "nat \<Rightarrow> vfs_node \<Rightarrow> fs_state \<Rightarrow> fs_state" where
  "set_node a n st = st\<lparr>fs_nodes := (fs_nodes st)(a \<mapsto> n)\<rparr>"

subsection \<open>Reading and writing\<close>

definition ramfs_read :: "nat \<Rightarrow> u64 \<Rightarrow> u64 \<Rightarrow> nat \<Rightarrow> fs_state \<Rightarrow> (int \<times> fs_state) option" where
  "ramfs_read node offset sz buffer st = do {
     n \<leftarrow> fs_nodes st node;
     if n_ptr n = 0 \<or> offset \<ge> n_length n then Some (0, st)
     else do {
       fdata \<leftarrow> fs_files st (n_ptr n);
       let bytes_to_read = (if offset + sz > n_length n then n_length n - offset else sz);
       let h = fs_heap st;
       let m = memcpy buffer (fd_buffer fdata + unat offset) (unat bytes_to_read) (hmem h);
       Some (sint bytes_to_read, st\<lparr>fs_heap := h\<lparr>hmem := m\<rparr>\<rparr>)
     }
   }"

definition ramfs_write ::
  "nat \<Rightarrow> (pmm \<Rightarrow> pmm) \<Rightarrow> nat \<Rightarrow> u64 \<Rightarrow> u64 \<Rightarrow> nat \<Rightarrow> fs_state \<Rightarrow> (int \<times> fs_state) option" where
  "ramfs_write hhdm oom node offset sz buffer st = do {
     n \<leftarrow> fs_nodes st node;
     if n_ptr n = 0 then Some (- 1, st)
     else do {
       fdata \<leftarrow> fs_files st (n_ptr n);
       let required_size = offset + sz;
       grown \<leftarrow> (if required_size > fd_capacity fdata then do {
                   let new_cap = required_size + 1024;
                   (new_buf, h) \<leftarrow> krealloc hhdm oom (fd_buffer fdata) new_cap (fs_heap st);
                   Some (if new_buf = 0 then Inl (st\<lparr>fs_heap := h\<rparr>)
                         else let fdata' = \<lparr>fd_buffer = new_buf, fd_capacity = new_cap\<rparr>
                              in Inr (fdata', st\<lparr>fs_heap := h, fs_files := (fs_files st)(n_ptr n \<mapsto> fdata')\<rparr>))
                 } else Some (Inr (fdata, st)));
       Some (case grown of
               Inl st1 \<Rightarrow> (- 1, st1)
             | Inr (fdata', st1) \<Rightarrow>
                 let h = fs_heap st1;
                     m = memcpy (fd_buffer fdata' + unat offset) buffer (unat sz) (hmem h);
                     st2 = st1\<lparr>fs_heap := h\<lparr>hmem := m\<rparr>\<rparr>
                 in (sint sz, if required_size > n_length n then set_node node (n\<lparr>n_length := required_size\<rparr>) st2 else st2))
     }
   }"

subsection \<open>The list of children\<close>

partial_function (option) child_at :: "(nat \<Rightarrow> vfs_node option) \<Rightarrow> u32 \<Rightarrow> u32 \<Rightarrow> nat \<Rightarrow> nat option" where
  "child_at N index i child =
     (if child = 0 then Some 0
      else if i = index then Some child
      else do { n \<leftarrow> N child; child_at N index (i + 1) (n_next n) })"

partial_function (option) find_child :: "(nat \<Rightarrow> vfs_node option) \<Rightarrow> bytes \<Rightarrow> nat \<Rightarrow> nat option" where
  "find_child N name child =
     (if child = 0 then Some 0
      else do {
        n \<leftarrow> N child;
        c \<leftarrow> strcmp (n_name n @ [0]) (name @ [0]);
        if c = 0 then Some child else find_child N name (n_next n)
      })"

partial_function (option) last_child :: "(nat \<Rightarrow> vfs_node option) \<Rightarrow> nat \<Rightarrow> nat option" where
  "last_child N cur = do {
     n \<leftarrow> N cur;
     if n_next n = 0 then Some cur else last_child N (n_next n)
   }"

definition ramfs_readdir :: "nat \<Rightarrow> u32 \<Rightarrow> fs_state \<Rightarrow> (nat \<times> fs_state) option" where
  "ramfs_readdir node index st = do {
     n \<leftarrow> fs_nodes st node;
     if \<not> has_flag n FS_DIRECTORY then Some (0, st)
     else map_option (\<lambda>c. (c, st)) (child_at (fs_nodes st) index 0 (n_children n))
   }"

definition ramfs_finddir :: "nat \<Rightarrow> bytes \<Rightarrow> fs_state \<Rightarrow> (nat \<times> fs_state) option" where
  "ramfs_finddir node name st = do {
     n \<leftarrow> fs_nodes st node;
     if \<not> has_flag n FS_DIRECTORY then Some (0, st)
     else map_option (\<lambda>c. (c, st)) (find_child (fs_nodes st) name (n_children n))
   }"

definition append_child :: "nat \<Rightarrow> nat \<Rightarrow> fs_state \<Rightarrow> fs_state option" where
  "append_child parent new st = do {
     p \<leftarrow> fs_nodes st parent;
     if n_children p = 0 then Some (set_node parent (p\<lparr>n_children := new\<rparr>) st)
     else do {
       l \<leftarrow> last_child (fs_nodes st) (n_children p);
       n \<leftarrow> fs_nodes st l;
       Some (set_node l (n\<lparr>n_next := new\<rparr>) st)
     }
   }"

subsection \<open>Creating nodes\<close>

text \<open>\<open>strncpy\<close> of the name into the 128 zero bytes of a new node, read back as a string.\<close>

definition node_name :: "bytes \<Rightarrow> bytes" where
  "node_name name = take 127 name"

definition ramfs_create_root :: "nat \<Rightarrow> (pmm \<Rightarrow> pmm) \<Rightarrow> fs_state \<Rightarrow> (nat \<times> fs_state) option" where
  "ramfs_create_root hhdm oom st = do {
     (root, h) \<leftarrow> kzalloc hhdm oom VFS_NODE_SIZE (fs_heap st);
     if root = 0 then None
     else Some (root, set_node root (zero_node\<lparr>n_name := cstr ''/'', n_flags := FS_DIRECTORY, n_permissions := 0x1ED,
       n_ops := RamfsOps, n_parent := root\<rparr>) (st\<lparr>fs_heap := h\<rparr>))
   }"

definition ramfs_create_directory ::
  "nat \<Rightarrow> (pmm \<Rightarrow> pmm) \<Rightarrow> nat \<Rightarrow> bytes option \<Rightarrow> fs_state \<Rightarrow> (nat \<times> fs_state) option" where
  "ramfs_create_directory hhdm oom parent name st =
     (case name of
        None \<Rightarrow> Some (0, st)
      | Some nm \<Rightarrow>
          if nm = [] then Some (0, st)
          else do {
            (existing, st0) \<leftarrow> (if parent \<noteq> 0 then ramfs_finddir parent nm st else Some (0, st));
            if existing \<noteq> 0 then Some (existing, st0)
            else do {
              (dir, h) \<leftarrow> kzalloc hhdm oom VFS_NODE_SIZE (fs_heap st0);
              let st1 = st0\<lparr>fs_heap := h\<rparr>;
              if dir = 0 then Some (0, st1)
              else do {
                let st2 = set_node dir (zero_node\<lparr>n_name := node_name nm, n_flags := FS_DIRECTORY, n_permissions := 0x1ED,
                  n_ops := RamfsOps, n_parent := (if parent \<noteq> 0 then parent else dir)\<rparr>) st1;
                if parent = 0 then Some (dir, st2) else map_option (Pair dir) (append_child parent dir st2)
              }
            }
          })"

text \<open>\<open>data\<close> is the address of the initial contents, or \<open>NULL\<close>.\<close>

definition ramfs_create_file ::
  "nat \<Rightarrow> (pmm \<Rightarrow> pmm) \<Rightarrow> nat \<Rightarrow> bytes \<Rightarrow> nat \<Rightarrow> u64 \<Rightarrow> fs_state \<Rightarrow> (nat \<times> fs_state) option" where
  "ramfs_create_file hhdm oom parent name data sz st = do {
     (file, h) \<leftarrow> kzalloc hhdm oom VFS_NODE_SIZE (fs_heap st);
     if file = 0 then Some (0, st\<lparr>fs_heap := h\<rparr>)
     else do {
       let n = zero_node\<lparr>n_name := node_name name, n_flags := FS_FILE, n_permissions := 0x1A4, n_length := sz,
         n_ops := RamfsOps, n_parent := parent\<rparr>;
       (fdata, h1) \<leftarrow> kzalloc hhdm oom RAMFS_DATA_SIZE h;
       if fdata = 0 then map_option (\<lambda>h2. (0, st\<lparr>fs_heap := h2\<rparr>)) (kfree hhdm file h1)
       else do {
         (ok, fd, h2) \<leftarrow> (if sz > 0 \<and> data \<noteq> 0 then do {
             (b, h2) \<leftarrow> kmalloc hhdm oom sz h1;
             Some (if b \<noteq> 0
                   then (True, \<lparr>fd_buffer = b, fd_capacity = sz\<rparr>, h2\<lparr>hmem := memcpy b data (unat sz) (hmem h2)\<rparr>)
                   else (False, \<lparr>fd_buffer = 0, fd_capacity = 0\<rparr>, h2))
           } else Some (True, \<lparr>fd_buffer = 0, fd_capacity = 0\<rparr>, h1));
         if \<not> ok then do {
           h3 \<leftarrow> kfree hhdm fdata h2;
           h4 \<leftarrow> kfree hhdm file h3;
           Some (0, st\<lparr>fs_heap := h4\<rparr>)
         } else do {
           let st1 = set_node file (n\<lparr>n_ptr := fdata\<rparr>) (st\<lparr>fs_heap := h2, fs_files := (fs_files st)(fdata \<mapsto> fd)\<rparr>);
           if parent = 0 then Some (file, st1) else map_option (Pair file) (append_child parent file st1)
         }
       }
     }
   }"

definition ramfs_vfs_create ::
  "nat \<Rightarrow> (pmm \<Rightarrow> pmm) \<Rightarrow> nat \<Rightarrow> bytes \<Rightarrow> u32 \<Rightarrow> fs_state \<Rightarrow> (nat \<times> fs_state) option" where
  "ramfs_vfs_create hhdm oom dir name flags st =
     (if flags AND FS_DIRECTORY \<noteq> 0 then ramfs_create_directory hhdm oom dir (Some name) st
      else ramfs_create_file hhdm oom dir name 0 0 st)"

definition ramfs_fops :: "nat \<Rightarrow> (pmm \<Rightarrow> pmm) \<Rightarrow> file_ops" where
  "ramfs_fops hhdm oom = \<lparr>op_read = Some ramfs_read, op_write = Some (ramfs_write hhdm oom), op_open = None, op_close = None,
     op_readdir = Some ramfs_readdir, op_finddir = Some ramfs_finddir, op_create = Some (ramfs_vfs_create hhdm oom)\<rparr>"

text \<open>The chain of directories \<open>names\<close> below a directory.\<close>

fun ramfs_mkdir_p :: "nat \<Rightarrow> (pmm \<Rightarrow> pmm) \<Rightarrow> nat \<Rightarrow> bytes list \<Rightarrow> fs_state \<Rightarrow> (nat \<times> fs_state) option" where
  "ramfs_mkdir_p hhdm oom dir [] st = Some (dir, st)"
| "ramfs_mkdir_p hhdm oom dir (nm # names) st =
     (if dir = 0 then Some (0, st)
      else case ramfs_create_directory hhdm oom dir (Some nm) st of
             None \<Rightarrow> None
           | Some (d, st1) \<Rightarrow> ramfs_mkdir_p hhdm oom d names st1)"

definition applets :: "bytes list" where
  "applets = map cstr [''ls'', ''cat'', ''cp'', ''mv'', ''rm'', ''mkdir'', ''rmdir'', ''touch'', ''clear'', ''echo'', ''grep'',
     ''head'', ''tail'', ''wc'', ''uname'', ''date'', ''df'', ''free'', ''ps'', ''kill'', ''sleep'', ''chmod'', ''chown'']"

text \<open>A link is a copy of the node under another name, put in front of the list of children.\<close>

fun busybox_links :: "nat \<Rightarrow> (pmm \<Rightarrow> pmm) \<Rightarrow> vfs_env \<Rightarrow> nat \<Rightarrow> nat \<Rightarrow> bytes list \<Rightarrow> fs_state \<Rightarrow> fs_state option" where
  "busybox_links hhdm oom env bin_dir bbox_node [] st = Some st"
| "busybox_links hhdm oom env bin_dir bbox_node (nm # names) st =
     (case vfs_finddir env bin_dir (Some nm) st of
        None \<Rightarrow> None
      | Some (found, st1) \<Rightarrow>
          if found \<noteq> 0 then busybox_links hhdm oom env bin_dir bbox_node names st1
          else
            (case kzalloc hhdm oom VFS_NODE_SIZE (fs_heap st1) of
               None \<Rightarrow> None
             | Some (link, h) \<Rightarrow>
                 let st2 = st1\<lparr>fs_heap := h\<rparr> in
                 if link = 0 then busybox_links hhdm oom env bin_dir bbox_node names st2
                 else
                   (case (fs_nodes st2 bbox_node, fs_nodes st2 bin_dir) of
                      (Some b, Some d) \<Rightarrow>
                        busybox_links hhdm oom env bin_dir bbox_node names
                          (set_node bin_dir (d\<lparr>n_children := link\<rparr>)
                            (set_node link (b\<lparr>n_name := node_name nm, n_parent := bin_dir, n_next := n_children d\<rparr>) st2))
                    | _ \<Rightarrow> None)))"

definition ramfs_create_busybox_links ::
  "nat \<Rightarrow> (pmm \<Rightarrow> pmm) \<Rightarrow> vfs_env \<Rightarrow> nat \<Rightarrow> nat \<Rightarrow> fs_state \<Rightarrow> fs_state option" where
  "ramfs_create_busybox_links hhdm oom env bin_dir bbox_node st =
     (if bin_dir = 0 \<or> bbox_node = 0 then Some st else busybox_links hhdm oom env bin_dir bbox_node applets st)"

subsection \<open>A directory is a finite map\<close>

text \<open>\<open>chain N a xs\<close>: following \<open>next\<close> from \<open>a\<close> visits the nodes \<open>xs\<close> and ends.\<close>

fun chain :: "(nat \<Rightarrow> vfs_node option) \<Rightarrow> nat \<Rightarrow> nat list \<Rightarrow> bool" where
  "chain N a [] \<longleftrightarrow> a = 0"
| "chain N a (x # xs) \<longleftrightarrow> a = x \<and> x \<noteq> 0 \<and> (\<exists>n. N x = Some n \<and> chain N (n_next n) xs)"

definition name_of :: "(nat \<Rightarrow> vfs_node option) \<Rightarrow> nat \<Rightarrow> bytes" where
  "name_of N x = n_name (the (N x))"

text \<open>The first child of the name; \<open>0\<close> when there is none.\<close>

definition dir_lookup :: "(nat \<Rightarrow> vfs_node option) \<Rightarrow> nat list \<Rightarrow> bytes \<Rightarrow> nat" where
  "dir_lookup N xs name = (case find (\<lambda>x. name_of N x = name) xs of None \<Rightarrow> 0 | Some x \<Rightarrow> x)"

definition dir_ok :: "fs_state \<Rightarrow> nat \<Rightarrow> nat list \<Rightarrow> bool" where
  "dir_ok st d xs \<longleftrightarrow> (\<exists>n. fs_nodes st d = Some n \<and> has_flag n FS_DIRECTORY \<and> \<not> has_flag n FS_MOUNTPOINT \<and> n_ops n = RamfsOps \<and>
       chain (fs_nodes st) (n_children n) xs) \<and>
     distinct (d # xs) \<and> (\<forall>x \<in> set xs. 0 \<notin> set (name_of (fs_nodes st) x) \<and> length (name_of (fs_nodes st) x) \<le> 127)"

lemma chain_upd: "y \<notin> set xs \<Longrightarrow> chain (N(y := v)) a xs = chain N a xs"
  by (induction xs arbitrary: a) auto

lemma chain_nodes: "chain N a xs \<Longrightarrow> x \<in> set xs \<Longrightarrow> \<exists>n. N x = Some n \<and> x \<noteq> 0"
  by (induction xs arbitrary: a) auto

lemma find_child_chain:
  assumes "chain N a xs" and "\<forall>x \<in> set xs. 0 \<notin> set (name_of N x)" and "0 \<notin> set name"
  shows "find_child N name a = Some (dir_lookup N xs name)"
  using assms(1,2)
proof (induction xs arbitrary: a)
  case Nil
  then show ?case by (simp add: find_child.simps dir_lookup_def)
next
  case (Cons x xs)
  then obtain n where n: "a = x" "x \<noteq> 0" "N x = Some n" "chain N (n_next n) xs" by auto
  then have nm: "name_of N x = n_name n" by (simp add: name_of_def)
  with Cons.prems(2) have "0 \<notin> set (n_name n)" by simp
  then obtain c where c: "strcmp (n_name n @ [0]) (name @ [0]) = Some c" "c = 0 \<longleftrightarrow> n_name n = name"
    using strcmp_cstr [of "n_name n" name "[]" "[]"] assms(3) by auto
  from Cons.IH [OF n(4)] Cons.prems(2) have "find_child N name (n_next n) = Some (dir_lookup N xs name)" by simp
  with n c nm show ?case by (subst find_child.simps) (simp add: dir_lookup_def)
qed

lemma child_at_chain:
  assumes "chain N a xs" and "unat i + length xs < 2 ^ 32" and "unat i \<le> unat index"
  shows "child_at N index i a = Some (if unat index - unat i < length xs then xs ! (unat index - unat i) else 0)"
  using assms
proof (induction xs arbitrary: a i)
  case Nil
  then show ?case by (simp add: child_at.simps)
next
  case (Cons x xs)
  then obtain n where n: "a = x" "x \<noteq> 0" "N x = Some n" "chain N (n_next n) xs" by auto
  show ?case
  proof (cases "i = index")
    case True
    with n show ?thesis by (subst child_at.simps) simp
  next
    case False
    then have lt: "unat i < unat index" using Cons.prems(3) by (metis le_neq_implies_less word_unat_eq_iff)
    have u: "unat (i + 1) = unat i + 1" using Cons.prems(2) by (simp add: unat_word_ariths)
    from Cons.IH [OF n(4), of "i + 1"] Cons.prems(2) lt u
    have "child_at N index (i + 1) (n_next n) =
        Some (if unat index - (unat i + 1) < length xs then xs ! (unat index - (unat i + 1)) else 0)" by simp
    moreover have "unat index - unat i = Suc (unat index - (unat i + 1))" using lt by simp
    ultimately show ?thesis using n False by (subst child_at.simps) simp
  qed
qed

lemma last_child_chain: "chain N a xs \<Longrightarrow> xs \<noteq> [] \<Longrightarrow> last_child N a = Some (last xs)"
proof (induction xs arbitrary: a)
  case (Cons x xs)
  then obtain n where n: "a = x" "N x = Some n" "chain N (n_next n) xs" by auto
  then show ?case using Cons.IH [OF n(3)] by (cases xs) (auto simp: last_child.simps [of N x])
qed simp

lemma chain_append:
  assumes "chain N a xs" and "xs \<noteq> []" and "distinct xs" and "N (last xs) = Some l" and "N new = Some n" and "n_next n = 0"
    and "new \<noteq> 0" and "new \<notin> set xs"
  shows "chain (N(last xs \<mapsto> l\<lparr>n_next := new\<rparr>)) a (xs @ [new])"
  using assms
proof (induction xs arbitrary: a)
  case (Cons x xs)
  show ?case
  proof (cases xs)
    case Nil
    with Cons.prems show ?thesis by auto
  next
    case (Cons y ys)
    then have "last (x # xs) = last xs" "x \<noteq> last xs" using Cons.prems by auto
    then show ?thesis using Cons.IH Cons.prems Cons by auto
  qed
qed simp

lemma ramfs_finddir_ok:
  assumes "dir_ok st d xs" and "0 \<notin> set name"
  shows "ramfs_finddir d name st = Some (dir_lookup (fs_nodes st) xs name, st)"
  using assms find_child_chain by (auto simp: ramfs_finddir_def dir_ok_def)

lemma ramfs_readdir_ok:
  assumes "dir_ok st d xs" and "length xs < 2 ^ 32"
  shows "ramfs_readdir d index st = Some (if unat index < length xs then xs ! unat index else 0, st)"
  using assms child_at_chain [of "fs_nodes st" _ xs 0 index] by (auto simp: ramfs_readdir_def dir_ok_def)

text \<open>Linking a new node at the end.\<close>

lemma append_child_ok:
  assumes d: "dir_ok st d xs" and new: "fs_nodes st new = Some n" "n_next n = 0" "new \<noteq> 0" "new \<notin> set (d # xs)" "0 \<notin> set (n_name n)"
    "length (n_name n) \<le> 127"
  shows "\<exists>st'. append_child d new st = Some st' \<and> dir_ok st' d (xs @ [new]) \<and> fs_heap st' = fs_heap st \<and> fs_files st' = fs_files st \<and>
    name_of (fs_nodes st') = name_of (fs_nodes st) \<and>
    (\<forall>y. y \<notin> set (d # xs) \<longrightarrow> fs_nodes st' y = fs_nodes st y)"
proof -
  from d obtain p where p: "fs_nodes st d = Some p" "has_flag p FS_DIRECTORY" "chain (fs_nodes st) (n_children p) xs"
      "\<not> has_flag p FS_MOUNTPOINT" "n_ops p = RamfsOps" by (auto simp: dir_ok_def)
  have dist: "distinct (d # xs)" and nm: "\<forall>x \<in> set xs. 0 \<notin> set (name_of (fs_nodes st) x) \<and> length (name_of (fs_nodes st) x) \<le> 127"
    using d by (auto simp: dir_ok_def)
  show ?thesis
  proof (cases "xs = []")
    case True
    let ?st = "set_node d (p\<lparr>n_children := new\<rparr>) st"
    have "name_of (fs_nodes ?st) = name_of (fs_nodes st)" using p by (auto simp: name_of_def set_node_def)
    moreover have "dir_ok ?st d (xs @ [new])"
      using True p new by (auto simp: dir_ok_def set_node_def has_flag_def name_of_def)
    moreover have "append_child d new st = Some ?st" using True p by (simp add: append_child_def)
    ultimately show ?thesis by (auto simp: set_node_def)
  next
    case False
    then have c0: "n_children p \<noteq> 0" using p(3) by (cases xs) auto
    obtain l where l: "fs_nodes st (last xs) = Some l" using chain_nodes [OF p(3)] False by (meson last_in_set)
    let ?st = "set_node (last xs) (l\<lparr>n_next := new\<rparr>) st"
    have names: "name_of (fs_nodes ?st) = name_of (fs_nodes st)" using l by (auto simp: name_of_def set_node_def)
    have ch: "chain (fs_nodes ?st) (n_children p) (xs @ [new])"
      using chain_append [OF p(3) False _ l new(1,2,3)] dist new(4) by (simp add: set_node_def)
    have "last xs \<noteq> d" using dist False by auto
    then have "fs_nodes ?st d = Some p" using p(1) by (simp add: set_node_def)
    with ch p(2,4,5) dist new nm names have "dir_ok ?st d (xs @ [new])" by (auto simp: dir_ok_def name_of_def [of _ new])
    moreover have "append_child d new st = Some ?st"
      using p c0 last_child_chain [OF p(3) False] l by (simp add: append_child_def)
    ultimately show ?thesis using names False by (auto simp: set_node_def)
  qed
qed

lemma dir_lookup_append:
  assumes "name_of N' = name_of N"
  shows "dir_lookup N' (xs @ [x]) nm = (if \<exists>y \<in> set xs. name_of N y = nm then dir_lookup N xs nm
    else if name_of N x = nm then x else 0)"
proof -
  have "find P (xs @ [x]) = (if \<exists>y \<in> set xs. P y then find P xs else if P x then Some x else None)" for P
    by (induction xs) auto
  then show ?thesis using assms by (simp add: dir_lookup_def find_None_iff)
qed

lemma children_cong: "\<forall>y \<in> set ys. N' y = N y \<Longrightarrow> chain N' a ys = chain N a ys"
  by (induction ys arbitrary: a) auto

lemma dir_ok_frame:
  assumes "dir_ok st d xs" and "\<forall>y \<in> set (d # xs). fs_nodes st' y = fs_nodes st y"
  shows "dir_ok st' d xs" and "y \<in> set xs \<Longrightarrow> name_of (fs_nodes st') y = name_of (fs_nodes st) y"
proof -
  have "chain (fs_nodes st') a xs = chain (fs_nodes st) a xs" for a using assms(2) by (intro children_cong) simp
  with assms show "dir_ok st' d xs" by (auto simp: dir_ok_def name_of_def)
  show "y \<in> set xs \<Longrightarrow> name_of (fs_nodes st') y = name_of (fs_nodes st) y" using assms(2) by (simp add: name_of_def)
qed

lemma dir_lookup_cong: "(\<And>y. y \<in> set xs \<Longrightarrow> name_of N' y = name_of N y) \<Longrightarrow> dir_lookup N' xs nm = dir_lookup N xs nm"
proof -
  assume a: "\<And>y. y \<in> set xs \<Longrightarrow> name_of N' y = name_of N y"
  then have "find (\<lambda>x. name_of N' x = nm) xs = find (\<lambda>x. name_of N x = nm) xs" by (intro find_cong) auto
  then show ?thesis by (simp add: dir_lookup_def)
qed

text \<open>
  What creating a name in a directory gives: nothing is changed for lack of memory (\<open>0\<close>), or the node exists
  already, or it is new, at the end of the list.
\<close>

definition created :: "fs_state \<Rightarrow> nat \<Rightarrow> nat list \<Rightarrow> bytes \<Rightarrow> nat \<Rightarrow> fs_state \<Rightarrow> nat list \<Rightarrow> bool" where
  "created st d xs name x st' xs' \<longleftrightarrow> dir_ok st' d xs' \<and>
     (x = 0 \<and> xs' = xs \<and> fs_nodes st' = fs_nodes st \<and> fs_files st' = fs_files st \<or>
      x = dir_lookup (fs_nodes st) xs name \<and> x \<noteq> 0 \<and> st' = st \<and> xs' = xs \<or>
      x \<noteq> 0 \<and> x \<notin> set (d # xs) \<and> xs' = xs @ [x] \<and>
      (\<forall>y \<in> set xs. name_of (fs_nodes st') y = name_of (fs_nodes st) y) \<and> name_of (fs_nodes st') x = node_name name)"

lemma link_new:
  assumes d: "dir_ok st d xs" and x: "x \<noteq> 0" "x \<notin> set (d # xs)" and n: "n_next n = 0" "n_name n = node_name name"
    and nm: "0 \<notin> set name"
  shows "\<exists>st'. append_child d x (set_node x n st) = Some st' \<and> created st d xs name x st' (xs @ [x]) \<and> fs_heap st' = fs_heap st"
proof -
  have f: "\<forall>y \<in> set (d # xs). fs_nodes (set_node x n st) y = fs_nodes st y" using x by (auto simp: set_node_def)
  have "0 \<notin> set (n_name n)" "length (n_name n) \<le> 127" using nm n(2) by (auto simp: node_name_def dest: in_set_takeD)
  with append_child_ok [OF dir_ok_frame(1) [OF d f], of x n] x n obtain st' where
    st': "append_child d x (set_node x n st) = Some st'" "dir_ok st' d (xs @ [x])" "fs_heap st' = fs_heap st"
      "name_of (fs_nodes st') = name_of (fs_nodes (set_node x n st))"
    by (auto simp: set_node_def)
  have "name_of (fs_nodes st') x = node_name name" using st'(4) n(2) by (simp add: name_of_def set_node_def)
  with st' x dir_ok_frame(2) [OF d f] show ?thesis by (auto simp: created_def)
qed

lemma kzalloc_node:
  assumes h: "heap_ok hhdm oom A h L" and sz: "0 < unat sz" "unat sz < 2 ^ 64 - 4127"
  obtains (full) h' where "kzalloc hhdm oom sz h = Some (0, h')" "heap_ok hhdm oom A h' L"
  | (new) x k h' where "kzalloc hhdm oom sz h = Some (x, h')" "x \<noteq> 0" "x \<notin> fst ` L" "heap_ok hhdm oom A h' (insert (x, k) L)"
  using hz.malloc_fresh [OF assms] by metis

lemma create_directory_ok:
  assumes h: "heap_ok hhdm oom A (fs_heap st) L" and d: "dir_ok st d xs" "d \<noteq> 0" and al: "set (d # xs) \<subseteq> fst ` L"
    and nm: "name \<noteq> []" "0 \<notin> set name"
  shows "\<exists>x st' xs' L'. ramfs_create_directory hhdm oom d (Some name) st = Some (x, st') \<and>
    heap_ok hhdm oom A (fs_heap st') L' \<and> L \<subseteq> L' \<and> set (d # xs') \<subseteq> fst ` L' \<and> created st d xs name x st' xs'"
proof (cases "dir_lookup (fs_nodes st) xs name = 0")
  case False
  then show ?thesis using assms ramfs_finddir_ok [OF d(1) nm(2)]
    by (intro exI [of _ "dir_lookup (fs_nodes st) xs name"] exI [of _ st] exI [of _ xs] exI [of _ L])
      (simp add: ramfs_create_directory_def created_def)
next
  case True
  have sz: "0 < unat (200 :: u64)" "unat (200 :: u64) < 2 ^ 64 - 4127" by simp_all
  from h sz show ?thesis
  proof (cases rule: kzalloc_node)
    case (full h')
    then show ?thesis using assms True ramfs_finddir_ok [OF d(1) nm(2)] dir_ok_frame(1) [OF d(1), of "st\<lparr>fs_heap := h'\<rparr>"]
      by (intro exI [of _ 0] exI [of _ "st\<lparr>fs_heap := h'\<rparr>"] exI [of _ xs] exI [of _ L])
        (simp add: ramfs_create_directory_def created_def)
  next
    case (new x k h')
    let ?st = "st\<lparr>fs_heap := h'\<rparr>" and ?n = "zero_node\<lparr>n_name := node_name name, n_flags := FS_DIRECTORY,
      n_permissions := 0x1ED, n_ops := RamfsOps, n_parent := d\<rparr>"
    have "dir_ok ?st d xs" by (rule dir_ok_frame(1) [OF d(1)]) simp
    moreover have "x \<notin> set (d # xs)" using new(3) al by blast
    ultimately obtain st' where "append_child d x (set_node x ?n ?st) = Some st'" "created ?st d xs name x st' (xs @ [x])"
      "fs_heap st' = h'"
      using link_new [of ?st d xs x ?n name] new(2) nm(2) by (auto simp: zero_node_def)
    moreover have "created st d xs name x st' (xs @ [x])"
      using \<open>created ?st d xs name x st' (xs @ [x])\<close> new(2) by (auto simp: created_def)
    ultimately show ?thesis using new True d(2) nm al ramfs_finddir_ok [OF d(1) nm(2)]
      by (intro exI [of _ x] exI [of _ st'] exI [of _ "xs @ [x]"] exI [of _ "insert (x, k) L"])
        (auto simp: ramfs_create_directory_def)
  qed
qed

lemma created_heap:
  "created (st\<lparr>fs_heap := h\<rparr>) d xs name x st' (xs @ [x]) \<Longrightarrow> x \<noteq> 0 \<Longrightarrow> created st d xs name x st' (xs @ [x])"
  "created (st\<lparr>fs_heap := h, fs_files := F\<rparr>) d xs name x st' (xs @ [x]) \<Longrightarrow> x \<noteq> 0 \<Longrightarrow> created st d xs name x st' (xs @ [x])"
  by (auto simp: created_def)

lemma not_created:
  assumes "dir_ok st d xs"
  shows "created st d xs name 0 (st\<lparr>fs_heap := h\<rparr>) xs"
  using dir_ok_frame(1) [OF assms, of "st\<lparr>fs_heap := h\<rparr>"] by (simp add: created_def)

lemma create_file_ok:
  assumes h: "heap_ok hhdm oom A (fs_heap st) L" and d: "dir_ok st d xs" "d \<noteq> 0" and al: "set (d # xs) \<subseteq> fst ` L"
    and nm: "0 \<notin> set name"
  shows "\<exists>x st' xs' L'. ramfs_create_file hhdm oom d name 0 0 st = Some (x, st') \<and>
    heap_ok hhdm oom A (fs_heap st') L' \<and> L \<subseteq> L' \<and> set (d # xs') \<subseteq> fst ` L' \<and> created st d xs name x st' xs'"
proof -
  have sz: "0 < unat (200 :: u64)" "unat (200 :: u64) < 2 ^ 64 - 4127" "0 < unat (16 :: u64)" "unat (16 :: u64) < 2 ^ 64 - 4127"
    by simp_all
  from h sz(1,2) show ?thesis
  proof (cases rule: kzalloc_node)
    case (full h')
    with not_created [OF d(1)] al show ?thesis
      by (intro exI [of _ 0] exI [of _ "st\<lparr>fs_heap := h'\<rparr>"] exI [of _ xs] exI [of _ L]) (simp add: ramfs_create_file_def)
  next
    case (new x k h1)
    from new(4) sz(3,4) show ?thesis
    proof (cases rule: kzalloc_node)
      case (full h2)
      from hz.free_new [OF full(2) new(3)] obtain h3 where "kfree hhdm x h2 = Some h3" "heap_ok hhdm oom A h3 L" by blast
      with full new not_created [OF d(1)] al show ?thesis
        by (intro exI [of _ 0] exI [of _ "st\<lparr>fs_heap := h3\<rparr>"] exI [of _ xs] exI [of _ L]) (simp add: ramfs_create_file_def)
    next
      case (new f l h2)
      note x = \<open>kzalloc hhdm oom 200 (fs_heap st) = Some (x, h1)\<close> \<open>x \<noteq> 0\<close> \<open>x \<notin> fst ` L\<close>
      let ?st = "st\<lparr>fs_heap := h2, fs_files := (fs_files st)(f \<mapsto> \<lparr>fd_buffer = 0, fd_capacity = 0\<rparr>)\<rparr>"
        and ?n = "zero_node\<lparr>n_name := node_name name, n_flags := FS_FILE, n_permissions := 0x1A4, n_length := 0,
          n_ops := RamfsOps, n_parent := d, n_ptr := f\<rparr>"
      have "dir_ok ?st d xs" by (rule dir_ok_frame(1) [OF d(1)]) simp
      moreover have "x \<notin> set (d # xs)" using x(3) al by blast
      ultimately obtain st' where st': "append_child d x (set_node x ?n ?st) = Some st'"
        "created ?st d xs name x st' (xs @ [x])" "fs_heap st' = h2"
        using link_new [of ?st d xs x ?n name] x(2) nm by (auto simp: zero_node_def)
      have "ramfs_create_file hhdm oom d name 0 0 st = Some (x, st')"
        using new x d(2) st'(1) by (simp add: ramfs_create_file_def Let_def)
      with st'(3) new(4) al created_heap(2) [OF st'(2) x(2)] show ?thesis
        by (intro exI [of _ x] exI [of _ st'] exI [of _ "xs @ [x]"] exI [of _ "insert (f, l) (insert (x, k) L)"]) auto
    qed
  qed
qed

subsubsection \<open>The interface of a directory\<close>

text \<open>
  What path resolution and the creation of files rely on: a directory represents a map from names to nodes
  (\<open>0\<close> for absent names), lookup evaluates it, and creation of an absent name extends it or runs out of memory.
\<close>

locale directory =
  fixes lookup_in :: "nat \<Rightarrow> bytes \<Rightarrow> 's \<Rightarrow> (nat \<times> 's) option"
    and create_in :: "nat \<Rightarrow> bytes \<Rightarrow> u32 \<Rightarrow> 's \<Rightarrow> (nat \<times> 's) option"
    and rep :: "'s \<Rightarrow> nat \<Rightarrow> (bytes \<Rightarrow> nat) \<Rightarrow> bool"
    and valid :: "bytes \<Rightarrow> bool"
  assumes lookup_law: "rep s d m \<Longrightarrow> valid nm \<Longrightarrow> lookup_in d nm s = Some (m nm, s)"
    and create_law: "rep s d m \<Longrightarrow> valid nm \<Longrightarrow> \<exists>x s'. create_in d nm fl s = Some (x, s') \<and>
      rep s' d (if x = 0 \<or> m nm \<noteq> 0 then m else m(nm := x))"
begin

lemma create_then_lookup:
  assumes "rep s d m" and "valid nm"
  shows "\<exists>x s'. create_in d nm fl s = Some (x, s') \<and>
    (\<forall>k. valid k \<longrightarrow> lookup_in d k s' = Some (if k = nm \<and> x \<noteq> 0 \<and> m nm = 0 then x else m k, s'))"
proof -
  from create_law [OF assms, of fl] obtain x s' where x: "create_in d nm fl s = Some (x, s')"
    "rep s' d (if x = 0 \<or> m nm \<noteq> 0 then m else m(nm := x))" by blast
  then show ?thesis using lookup_law [OF x(2)] by (intro exI [of _ x] exI [of _ s']) auto
qed

text \<open>Names once present stay present, whatever is created afterwards.\<close>

lemma create_all_keep:
  assumes "rep s d m" and "\<forall>nm \<in> set nms. valid nm" and "valid k" and "m k \<noteq> 0"
  shows "\<exists>s'. foldr (\<lambda>nm r. Option.bind r (\<lambda>s. map_option snd (create_in d nm fl s))) nms (Some s) = Some s' \<and>
    lookup_in d k s' = Some (m k, s')"
proof -
  have "\<exists>s' m'. foldr (\<lambda>nm r. Option.bind r (\<lambda>s. map_option snd (create_in d nm fl s))) nms (Some s) = Some s' \<and>
      rep s' d m' \<and> m' k = m k" using assms(2)
  proof (induction nms)
    case (Cons nm nms)
    then obtain s1 m1 where s1: "foldr (\<lambda>nm r. Option.bind r (\<lambda>s. map_option snd (create_in d nm fl s))) nms (Some s) = Some s1"
      "rep s1 d m1" "m1 k = m k" by auto
    from create_law [OF s1(2), of nm fl] Cons.prems obtain x s2 where
      "create_in d nm fl s1 = Some (x, s2)" "rep s2 d (if x = 0 \<or> m1 nm \<noteq> 0 then m1 else m1(nm := x))" by auto
    with s1 assms(4) show ?case
      by (intro exI [of _ s2] exI [of _ "if x = 0 \<or> m1 nm \<noteq> 0 then m1 else m1(nm := x)"]) auto
  qed (use assms(1) in auto)
  with lookup_law [OF _ assms(3)] show ?thesis by metis
qed

end

definition valid_name :: "bytes \<Rightarrow> bool" where
  "valid_name nm \<longleftrightarrow> nm \<noteq> [] \<and> 0 \<notin> set nm \<and> length nm \<le> 127"

definition ramfs_dir :: "nat \<Rightarrow> (pmm \<Rightarrow> pmm) \<Rightarrow> (nat \<times> nat) set \<Rightarrow> fs_state \<Rightarrow> nat \<Rightarrow> (bytes \<Rightarrow> nat) \<Rightarrow> bool" where
  "ramfs_dir hhdm oom A st d m \<longleftrightarrow> d \<noteq> 0 \<and> (\<exists>xs L. heap_ok hhdm oom A (fs_heap st) L \<and> dir_ok st d xs \<and>
     set (d # xs) \<subseteq> fst ` L \<and> (\<forall>nm. valid_name nm \<longrightarrow> m nm = dir_lookup (fs_nodes st) xs nm))"

text \<open>The table of operations with the entry of this file system; the other entries are those of \<open>E\<close>.\<close>

definition with_ramfs :: "nat \<Rightarrow> (pmm \<Rightarrow> pmm) \<Rightarrow> vfs_env \<Rightarrow> vfs_env" where
  "with_ramfs hhdm oom E = E\<lparr>ops_of := (ops_of E)(RamfsOps := ramfs_fops hhdm oom)\<rparr>"

lemma vfs_finddir_ramfs:
  assumes "dir_ok st d xs" and "d \<noteq> 0"
  shows "vfs_finddir (with_ramfs hhdm oom E) d (Some nm) st = ramfs_finddir d nm st"
  using assms by (auto simp: vfs_finddir_def mounted_def dir_ok_def with_ramfs_def ramfs_fops_def)

lemma vfs_create_ramfs:
  assumes "dir_ok st d xs" and "d \<noteq> 0" and "nm \<noteq> []"
  shows "vfs_create (with_ramfs hhdm oom E) d (Some nm) fl st = ramfs_vfs_create hhdm oom d nm
    (let type = fl AND (FS_FILE OR FS_DIRECTORY OR FS_SOCKET OR FS_SYMLINK) in if type \<noteq> 0 then type else FS_FILE) st"
  using assms by (auto simp: vfs_create_def mounted_def dir_ok_def with_ramfs_def ramfs_fops_def Let_def)

lemma dir_lookup_none:
  assumes "dir_ok st d xs"
  shows "dir_lookup (fs_nodes st) xs k = 0 \<longleftrightarrow> \<not> (\<exists>y \<in> set xs. name_of (fs_nodes st) y = k)"
proof (cases "find (\<lambda>x. name_of (fs_nodes st) x = k) xs")
  case None
  then show ?thesis using find_None_iff [of "\<lambda>x. name_of (fs_nodes st) x = k" xs] by (simp add: dir_lookup_def)
next
  case (Some y)
  then have y: "y \<in> set xs" "name_of (fs_nodes st) y = k" by (auto simp: find_Some_iff)
  from assms obtain n :: vfs_node where "chain (fs_nodes st) (n_children n) xs" by (auto simp: dir_ok_def)
  with y chain_nodes have "y \<noteq> 0" by blast
  with y Some show ?thesis by (auto simp: dir_lookup_def)
qed

lemma created_lookup:
  assumes d: "dir_ok st d xs" and c: "created st d xs nm x st' xs'" and nm: "valid_name nm"
  shows "dir_lookup (fs_nodes st') xs' k =
    (if x = 0 \<or> dir_lookup (fs_nodes st) xs nm \<noteq> 0 then dir_lookup (fs_nodes st) xs k
     else if k = nm then x else dir_lookup (fs_nodes st) xs k)"
proof -
  note z = dir_lookup_none [OF d]
  consider "x = 0" "xs' = xs" "fs_nodes st' = fs_nodes st" | "x = dir_lookup (fs_nodes st) xs nm" "x \<noteq> 0" "st' = st" "xs' = xs"
    | "x \<noteq> 0" "xs' = xs @ [x]" "\<forall>y \<in> set xs. name_of (fs_nodes st') y = name_of (fs_nodes st) y" "name_of (fs_nodes st') x = nm"
    using c nm by (auto simp: created_def valid_name_def node_name_def)
  then show ?thesis
  proof cases
    case 3
    have "dir_lookup (fs_nodes st') xs k = dir_lookup (fs_nodes st) xs k" for k
      by (rule dir_lookup_cong) (use 3 in auto)
    with 3 z [of nm] z [of k] show ?thesis by (auto simp: dir_lookup_append [OF refl])
  qed auto
qed

lemma ramfs_dir_create:
  assumes r: "ramfs_dir hhdm oom A st d m" and nm: "valid_name nm"
  shows "\<exists>x st'. vfs_create (with_ramfs hhdm oom E) d (Some nm) fl st = Some (x, st') \<and>
    ramfs_dir hhdm oom A st' d (if x = 0 \<or> m nm \<noteq> 0 then m else m(nm := x))"
proof -
  from r obtain xs L where h: "heap_ok hhdm oom A (fs_heap st) L" and d: "dir_ok st d xs" "d \<noteq> 0" and al: "set (d # xs) \<subseteq> fst ` L"
    and m: "\<And>nm. valid_name nm \<Longrightarrow> m nm = dir_lookup (fs_nodes st) xs nm" by (auto simp: ramfs_dir_def)
  have v: "nm \<noteq> []" "0 \<notin> set nm" using nm by (auto simp: valid_name_def)
  let ?fl = "let type = fl AND (FS_FILE OR FS_DIRECTORY OR FS_SOCKET OR FS_SYMLINK) in if type \<noteq> 0 then type else FS_FILE"
  have "\<exists>x st' xs' L'. ramfs_vfs_create hhdm oom d nm ?fl st = Some (x, st') \<and>
    heap_ok hhdm oom A (fs_heap st') L' \<and> L \<subseteq> L' \<and> set (d # xs') \<subseteq> fst ` L' \<and> created st d xs nm x st' xs'"
    unfolding ramfs_vfs_create_def using create_directory_ok [OF h d al v] create_file_ok [OF h d al v(2)] by simp
  then obtain x st' xs' L' where c: "ramfs_vfs_create hhdm oom d nm ?fl st = Some (x, st')"
    "heap_ok hhdm oom A (fs_heap st') L'" "set (d # xs') \<subseteq> fst ` L'" "created st d xs nm x st' xs'" by blast
  have k: "(if x = 0 \<or> m nm \<noteq> 0 then m else m(nm := x)) k = dir_lookup (fs_nodes st') xs' k" if "valid_name k" for k
    using m [OF that] m [OF nm] created_lookup [OF d(1) c(4) nm, of k] by auto
  have ok: "dir_ok st' d xs'" using c(4) by (simp add: created_def)
  have "ramfs_dir hhdm oom A st' d (if x = 0 \<or> m nm \<noteq> 0 then m else m(nm := x))"
    unfolding ramfs_dir_def by (intro conjI exI [of _ xs'] exI [of _ L'] allI impI d(2) c(2,3) ok k)
  with c(1) show ?thesis using vfs_create_ramfs [OF d v(1), of hhdm oom E fl] by auto
qed

interpretation rd: directory "\<lambda>d nm. vfs_finddir (with_ramfs hhdm oom E) d (Some nm)" "\<lambda>d nm. vfs_create (with_ramfs hhdm oom E) d (Some nm)"
  "ramfs_dir hhdm oom A" valid_name for hhdm oom E A
proof
  fix st d m nm
  assume "ramfs_dir hhdm oom A st d m" "valid_name nm"
  then show "vfs_finddir (with_ramfs hhdm oom E) d (Some nm) st = Some (m nm, st)"
    using vfs_finddir_ramfs ramfs_finddir_ok by (auto simp: ramfs_dir_def valid_name_def)
qed (rule ramfs_dir_create)


text \<open>A root directory in the heap of the examples.\<close>

definition demo_fs :: fs_state where
  "demo_fs = \<lparr>fs_heap = demo_large, fs_nodes = [8224 \<mapsto> zero_node\<lparr>n_name := cstr ''/'', n_flags := FS_DIRECTORY, n_ops := RamfsOps,
     n_parent := 8224\<rparr>], fs_files = Map.empty, vfs_root = 8224, devfs_root = 0\<rparr>"

lemma demo_fs_heap: "heap_ok 0 id {} demo_large {(8224, 8000)}"
proof -
  have "oom_ok id" by simp
  with demo_large_inv demo_large_live show ?thesis by (auto simp: heap_ok_def)
qed

lemma demo_fs_dir: "ramfs_dir 0 id {} demo_fs 8224 (\<lambda>_. 0)"
proof -
  have "dir_ok demo_fs 8224 []" by (simp add: dir_ok_def demo_fs_def has_flag_def zero_node_def)
  moreover have "dir_lookup (fs_nodes demo_fs) [] nm = 0" for nm by (simp add: dir_lookup_def)
  ultimately show ?thesis using demo_fs_heap unfolding ramfs_dir_def
    by (intro conjI exI [of _ "[]"] exI [of _ "{(8224, 8000)}"]) (auto simp: demo_fs_def)
qed


subsection \<open>A file is a growing byte array\<close>

text \<open>The contents of a file; \<open>L\<close> are the objects of the heap.\<close>

definition file_at :: "fs_state \<Rightarrow> (nat \<times> nat) set \<Rightarrow> vfs_node \<Rightarrow> ramfs_file_data \<Rightarrow> bytes \<Rightarrow> bool" where
  "file_at st L n fd bs \<longleftrightarrow> fs_files st (n_ptr n) = Some fd \<and> n_ptr n \<noteq> 0 \<and> length bs = unat (n_length n) \<and>
     n_length n \<le> fd_capacity fd \<and>
     (if fd_buffer fd = 0 then fd_capacity fd = 0
      else \<exists>k. (fd_buffer fd, k) \<in> L \<and> unat (fd_capacity fd) \<le> k \<and> (\<forall>i < length bs. hmem (fs_heap st) (fd_buffer fd + i) = bs ! i))"

definition file_rep :: "fs_state \<Rightarrow> (nat \<times> nat) set \<Rightarrow> nat \<Rightarrow> bytes \<Rightarrow> bool" where
  "file_rep st L node bs \<longleftrightarrow> (\<exists>n fd. fs_nodes st node = Some n \<and> file_at st L n fd bs)"

text \<open>\<open>written bs off ds bs'\<close>: \<open>bs'\<close> is \<open>bs\<close> with \<open>ds\<close> written at \<open>off\<close>. The bytes between the old end and \<open>off\<close> are arbitrary.\<close>

definition written :: "bytes \<Rightarrow> nat \<Rightarrow> bytes \<Rightarrow> bytes \<Rightarrow> bool" where
  "written bs off ds bs' \<longleftrightarrow> length bs' = max (length bs) (off + length ds) \<and>
     (\<forall>i < length bs'. (off \<le> i \<and> i < off + length ds \<longrightarrow> bs' ! i = ds ! (i - off)) \<and>
        (i < length bs \<and> \<not> (off \<le> i \<and> i < off + length ds) \<longrightarrow> bs' ! i = bs ! i))"

lemma written_inside: "off \<le> length bs \<Longrightarrow> written bs off ds bs' \<Longrightarrow> bs' = take off bs @ ds @ drop (off + length ds) bs"
  by (rule nth_equalityI) (auto simp: written_def nth_append)

text \<open>The copy into the file's buffer.\<close>

lemma write_copy:
  assumes h: "heap_ok hhdm oom A h L" and o: "(B, K) \<in> L" "(b, l) \<in> L" "b \<noteq> B" and k: "off + n \<le> K" "n \<le> l"
    and m: "m = memcpy (B + off) b n (hmem h)"
  shows "heap_ok hhdm oom A (h\<lparr>hmem := m\<rparr>) L" "\<And>i. m (B + i) = (if off \<le> i \<and> i < off + n then hmem h (b + (i - off)) else hmem h (B + i))"
    "\<And>c j x. (c, j) \<in> L \<Longrightarrow> c \<noteq> B \<Longrightarrow> x \<in> {c..<c + j} \<Longrightarrow> m x = hmem h x"
proof -
  have ap: "{B..<B + K} \<inter> {b..<b + l} = {}" using hm.objects_apart [OF h o(1,2)] o(3) by auto
  have "B + off \<le> b \<or> b + n \<le> B + off"
  proof (rule ccontr)
    assume "\<not> ?thesis"
    then have "B + off \<in> {B..<B + K} \<inter> {b..<b + l}" using k by auto
    with ap show False by blast
  qed
  then have m: "m = block_copy (B + off) b n (hmem h)" by (simp add: m memcpy_block)
  have out: "\<forall>x. x \<notin> {B + off..<B + off + n} \<longrightarrow> m x = hmem h x" by (auto simp: m block_copy_def)
  show "heap_ok hhdm oom A (h\<lparr>hmem := m\<rparr>) L" by (rule hm.copy_into(1) [OF h o(1) k(1) out])
  show "m (B + i) = (if off \<le> i \<and> i < off + n then hmem h (b + (i - off)) else hmem h (B + i))" for i
    by (auto simp: m block_copy_def)
  show "m x = hmem h x" if "(c, j) \<in> L" "c \<noteq> B" "x \<in> {c..<c + j}" for c j x
    using hm.copy_into(2) [OF h o(1) k(1) out that(1) _ that(3)] that(2) by simp
qed

text \<open>Growing the buffer, also from \<open>NULL\<close>.\<close>

lemma grow_buffer:
  assumes h: "heap_ok hhdm oom A h L" and b: "buf \<noteq> 0 \<longrightarrow> (buf, k) \<in> L" and sz: "0 < unat nc" "unat nc < 2 ^ 64 - 4127"
  obtains (full) h' where "krealloc hhdm oom buf nc h = Some (0, h')" "heap_ok hhdm oom A h' L"
      "\<And>c l x. (c, l) \<in> L \<Longrightarrow> x \<in> {c..<c + l} \<Longrightarrow> hmem h' x = hmem h x"
  | (new) B K h' L' where "krealloc hhdm oom buf nc h = Some (B, h')" "B \<noteq> 0" "unat nc \<le> K" "heap_ok hhdm oom A h' L'" "(B, K) \<in> L'"
      "\<And>x. buf \<noteq> 0 \<Longrightarrow> x < min k (unat nc) \<Longrightarrow> hmem h' (B + x) = hmem h (buf + x)"
      "\<And>c l. (c, l) \<in> L \<Longrightarrow> c \<noteq> buf \<Longrightarrow> (c, l) \<in> L' \<and> c \<noteq> B"
      "\<And>c l x. (c, l) \<in> L \<Longrightarrow> c \<noteq> buf \<Longrightarrow> x \<in> {c..<c + l} \<Longrightarrow> hmem h' x = hmem h x"
proof (cases "buf = 0")
  case True
  note kr = krealloc_def [of hhdm oom 0 nc h, simplified]
  from h sz show thesis
  proof (cases rule: hp.malloc_fresh)
    case (full h')
    with that(1) [of h'] hm.malloc_keeps [OF h sz full(1)] True kr show thesis by simp
  next
    case (new B K h')
    have "c \<noteq> B" if "(c, l) \<in> L" for c l using new(4) that by (auto simp: image_iff)
    with that(2) [of B h' K "insert (B, K) L"] hm.malloc_keeps [OF h sz new(1)] new True kr show thesis by simp
  qed
next
  case False
  with b have o: "(buf, k) \<in> L" by simp
  from h o sz show thesis
  proof (cases rule: krealloc_heap_ok)
    case (full h')
    with that(1) [of h'] show thesis by simp
  next
    case (new B K h')
    let ?L = "insert (B, K) (L - {(buf, k)})"
    have "c \<noteq> B" if c: "(c, l) \<in> L" "c \<noteq> buf" for c l
    proof
      assume "c = B"
      with c have "(B, l) \<in> ?L" by simp
      then have "l = K" using hp.object_unique [OF new(5), of B l K] by simp
      with \<open>c = B\<close> c(1) new(4) show False by simp
    qed
    with that(2) [OF new(1-3,5)] new(6,7) show thesis by simp
  qed
qed

lemma memcpy_0 [simp]: "memcpy d s 0 m = m"
  by (subst memcpy_block) auto

lemma write_finish:
  assumes h: "heap_ok hhdm oom A (fs_heap st) L" and n: "fs_nodes st node = Some n" and f: "file_at st L n fd bs"
    and src: "(b, l) \<in> L" "b \<noteq> fd_buffer fd" "unat sz \<le> l"
    and nov: "unat off + unat sz < 2 ^ 64" and cap: "off + sz \<le> fd_capacity fd"
    and st1: "st1 = st\<lparr>fs_heap := (fs_heap st)\<lparr>hmem := memcpy (fd_buffer fd + unat off) b (unat sz) (hmem (fs_heap st))\<rparr>\<rparr>"
    and st': "st' = (if off + sz > n_length n then set_node node (n\<lparr>n_length := off + sz\<rparr>) st1 else st1)"
  shows "heap_ok hhdm oom A (fs_heap st') L"
    and "\<exists>bs'. written bs (unat off) (map (\<lambda>i. hmem (fs_heap st) (b + i)) [0..<unat sz]) bs' \<and> file_rep st' L node bs'"
proof -
  have req: "unat (off + sz) = unat off + unat sz" using nov by (simp add: unat_word_ariths)
  define n' where "n' = (if off + sz > n_length n then n\<lparr>n_length := off + sz\<rparr> else n)"
  have n': "unat (n_length n') = max (unat (n_length n)) (unat off + unat sz)" "n_ptr n' = n_ptr n" "n_length n' \<le> fd_capacity fd"
    using req cap f by (auto simp: n'_def word_less_nat_alt word_le_nat_alt file_at_def)
  have st'n: "fs_nodes st' node = Some n'" "fs_heap st' = fs_heap st1" "fs_files st' = fs_files st"
    using n by (auto simp: st' st1 n'_def set_node_def)
  have fl: "fs_files st (n_ptr n) = Some fd" "n_ptr n \<noteq> 0" "length bs = unat (n_length n)" using f by (auto simp: file_at_def)
  show "heap_ok hhdm oom A (fs_heap st') L"
    and "\<exists>bs'. written bs (unat off) (map (\<lambda>i. hmem (fs_heap st) (b + i)) [0..<unat sz]) bs' \<and> file_rep st' L node bs'"
  proof (atomize (full), cases "fd_buffer fd = 0")
    case True
    with f have c0: "fd_capacity fd = 0" by (simp add: file_at_def)
    with cap req f have z: "unat sz = 0" "unat off = 0" "bs = []" by (auto simp: file_at_def word_le_nat_alt)
    then have "heap_ok hhdm oom A (fs_heap st') L" using h st'n(2) by (simp add: st1)
    moreover have "file_rep st' L node []" using st'n n' fl True c0 z by (auto simp: file_rep_def file_at_def)
    ultimately show "heap_ok hhdm oom A (fs_heap st') L \<and>
        (\<exists>bs'. written bs (unat off) (map (\<lambda>i. hmem (fs_heap st) (b + i)) [0..<unat sz]) bs' \<and> file_rep st' L node bs')"
      using z by (auto simp: written_def)
  next
    case False
    with f obtain k where k: "(fd_buffer fd, k) \<in> L" "unat (fd_capacity fd) \<le> k"
      "\<forall>i < length bs. hmem (fs_heap st) (fd_buffer fd + i) = bs ! i" by (auto simp: file_at_def)
    have le: "unat off + unat sz \<le> k" using cap req k(2) by (simp add: word_le_nat_alt)
    note c = write_copy [OF h k(1) src(1,2) le src(3) refl]
    define bs' where "bs' = map (\<lambda>i. hmem (fs_heap st') (fd_buffer fd + i)) [0..<max (length bs) (unat off + unat sz)]"
    have "written bs (unat off) (map (\<lambda>i. hmem (fs_heap st) (b + i)) [0..<unat sz]) bs'"
      using k(3) by (auto simp: written_def bs'_def st'n(2) st1 c(2))
    moreover have "file_rep st' L node bs'"
      using st'n n' fl False k(1,2) by (auto simp: file_rep_def file_at_def bs'_def)
    moreover have "heap_ok hhdm oom A (fs_heap st') L" using c(1) by (simp add: st'n(2) st1)
    ultimately show "heap_ok hhdm oom A (fs_heap st') L \<and>
        (\<exists>bs'. written bs (unat off) (map (\<lambda>i. hmem (fs_heap st) (b + i)) [0..<unat sz]) bs' \<and> file_rep st' L node bs')" by blast
  qed
qed

lemma ramfs_write_ok:
  assumes h: "heap_ok hhdm oom A (fs_heap st) L" and n: "fs_nodes st node = Some n" and f: "file_at st L n fd bs"
    and src: "(b, l) \<in> L" "b \<noteq> fd_buffer fd" "unat sz \<le> l" and nov: "unat off + unat sz < 2 ^ 64 - 5151"
  shows "\<exists>r st' L'. ramfs_write hhdm oom node off sz b st = Some (r, st') \<and> heap_ok hhdm oom A (fs_heap st') L' \<and>
    (r = - 1 \<and> file_rep st' L' node bs \<or>
     r = sint sz \<and> (\<exists>bs'. written bs (unat off) (map (\<lambda>i. hmem (fs_heap st) (b + i)) [0..<unat sz]) bs' \<and> file_rep st' L' node bs'))"
proof (cases "off + sz > fd_capacity fd")
  case False
  then have cap: "off + sz \<le> fd_capacity fd" by simp
  have nov': "unat off + unat sz < 2 ^ 64" using nov by simp
  note w = write_finish [OF h n f src nov' cap refl refl]
  from n f False have "ramfs_write hhdm oom node off sz b st = Some (sint sz,
      let st1 = st\<lparr>fs_heap := (fs_heap st)\<lparr>hmem := memcpy (fd_buffer fd + unat off) b (unat sz) (hmem (fs_heap st))\<rparr>\<rparr>
      in if off + sz > n_length n then set_node node (n\<lparr>n_length := off + sz\<rparr>) st1 else st1)"
    by (auto simp: ramfs_write_def file_at_def Let_def)
  with w show ?thesis unfolding Let_def by (intro exI conjI) auto
next
  case True
  define nc where "nc = off + sz + 1024"
  have nc: "unat nc = unat off + unat sz + 1024" using nov by (simp add: nc_def unat_word_ariths)
  have sz: "0 < unat nc" "unat nc < 2 ^ 64 - 4127" using nov by (simp_all add: nc)
  from f obtain k where k: "fd_buffer fd \<noteq> 0 \<longrightarrow> (fd_buffer fd, k) \<in> L" "fd_buffer fd \<noteq> 0 \<longrightarrow> unat (fd_capacity fd) \<le> k"
    by (auto simp: file_at_def split: if_splits)
  have fl: "fs_files st (n_ptr n) = Some fd" "n_ptr n \<noteq> 0" "length bs = unat (n_length n)" "n_length n \<le> fd_capacity fd"
    using f by (auto simp: file_at_def)
  from h k(1) sz show ?thesis
  proof (cases rule: grow_buffer)
    case (full h')
    let ?st = "st\<lparr>fs_heap := h'\<rparr>"
    have "hmem h' (fd_buffer fd + i) = hmem (fs_heap st) (fd_buffer fd + i)" if "fd_buffer fd \<noteq> 0" "i < length bs" for i
    proof -
      have "length bs \<le> k" using that k(2) fl(3,4) by (simp add: word_le_nat_alt)
      with full(3) [of "fd_buffer fd" k "fd_buffer fd + i"] k(1) that show ?thesis by simp
    qed
    then have "file_rep ?st L node bs" using n f by (auto simp: file_rep_def file_at_def)
    moreover have "ramfs_write hhdm oom node off sz b st = Some (- 1, ?st)"
      using n fl True full(1) by (simp add: ramfs_write_def Let_def nc_def)
    ultimately show ?thesis using full(2) by auto
  next
    case (new B K h' L')
    define fd' where "fd' = \<lparr>fd_buffer = B, fd_capacity = nc\<rparr>"
    define s0 where "s0 = st\<lparr>fs_heap := h', fs_files := (fs_files st)(n_ptr n \<mapsto> fd')\<rparr>"
    have n0: "fs_nodes s0 node = Some n" "heap_ok hhdm oom A (fs_heap s0) L'" using n new(4) by (simp_all add: s0_def)
    have lt: "length bs \<le> unat (fd_capacity fd)" "unat (fd_capacity fd) < unat nc"
      using fl True nov nc by (simp_all add: word_le_nat_alt word_less_nat_alt unat_word_ariths)
    have "hmem h' (B + i) = bs ! i" if "i < length bs" for i
    proof -
      have b0: "fd_buffer fd \<noteq> 0"
      proof
        assume "fd_buffer fd = 0"
        with f have "fd_capacity fd = 0" by (simp add: file_at_def)
        with fl(3,4) that show False by (simp add: word_le_nat_alt)
      qed
      with new(6) [of i] k that lt have "hmem h' (B + i) = hmem (fs_heap st) (fd_buffer fd + i)" by simp
      with f b0 that show ?thesis by (auto simp: file_at_def)
    qed
    then have f0: "file_at s0 L' n fd' bs" using fl lt new(2,3,5) by (auto simp: file_at_def s0_def fd'_def word_le_nat_alt)
    have src0: "(b, l) \<in> L'" "b \<noteq> fd_buffer fd'" using new(7) [OF src(1,2)] by (simp_all add: fd'_def)
    have cap: "off + sz \<le> fd_capacity fd'" using nc nov by (simp add: fd'_def word_le_nat_alt unat_word_ariths)
    have nov': "unat off + unat sz < 2 ^ 64" using nov by simp
    note w = write_finish [OF n0(2,1) f0 src0 src(3) nov' cap refl refl]
    have "map (\<lambda>i. hmem (fs_heap s0) (b + i)) [0..<unat sz] = map (\<lambda>i. hmem (fs_heap st) (b + i)) [0..<unat sz]"
      using new(8) [OF src(1,2)] src(3) by (simp add: s0_def)
    note w = w [unfolded this]
    have "ramfs_write hhdm oom node off sz b st = Some (sint sz,
        let st1 = s0\<lparr>fs_heap := (fs_heap s0)\<lparr>hmem := memcpy (fd_buffer fd' + unat off) b (unat sz) (hmem (fs_heap s0))\<rparr>\<rparr>
        in if off + sz > n_length n then set_node node (n\<lparr>n_length := off + sz\<rparr>) st1 else st1)"
      using n fl True new(1,2) by (simp add: ramfs_write_def Let_def nc_def [symmetric] s0_def fd'_def)
    with w show ?thesis unfolding Let_def by (intro exI conjI) auto
  qed
qed

lemma ramfs_read_ok:
  assumes h: "heap_ok hhdm oom A (fs_heap st) L" and n: "fs_nodes st node = Some n" and f: "file_at st L n fd bs"
    and dst: "(b, l) \<in> L" "b \<noteq> fd_buffer fd" "unat sz \<le> l" and nov: "unat off + unat sz < 2 ^ 64" "unat sz < 2 ^ 63"
  shows "\<exists>st'. ramfs_read node off sz b st = Some (int (min (unat sz) (length bs - unat off)), st') \<and>
    heap_ok hhdm oom A (fs_heap st') L \<and> file_rep st' L node bs \<and>
    (\<forall>i < min (unat sz) (length bs - unat off). hmem (fs_heap st') (b + i) = bs ! (unat off + i))"
proof (cases "off \<ge> n_length n")
  case True
  with n f h show ?thesis by (auto simp: ramfs_read_def file_at_def file_rep_def word_le_nat_alt)
next
  case False
  define c where "c = (if off + sz > n_length n then n_length n - off else sz)"
  have fl: "fs_files st (n_ptr n) = Some fd" "n_ptr n \<noteq> 0" "length bs = unat (n_length n)" "n_length n \<le> fd_capacity fd"
    using f by (auto simp: file_at_def)
  have c: "unat c = min (unat sz) (length bs - unat off)"
    using False nov(1) fl(3) by (auto simp: c_def word_less_nat_alt unat_word_ariths unat_sub word_le_nat_alt)
  then have si: "sint c = int (min (unat sz) (length bs - unat off))" using sint_small [of c] nov(2) by simp
  have b0: "fd_buffer fd \<noteq> 0"
  proof
    assume "fd_buffer fd = 0"
    with f fl(4) have "n_length n = 0" by (simp add: file_at_def)
    with False show False by simp
  qed
  with f obtain k where k: "(fd_buffer fd, k) \<in> L" "unat (fd_capacity fd) \<le> k"
    "\<forall>i < length bs. hmem (fs_heap st) (fd_buffer fd + i) = bs ! i" by (auto simp: file_at_def)
  have lk: "length bs \<le> k" using fl(3,4) k(2) by (simp add: word_le_nat_alt)
  define m where "m = memcpy b (fd_buffer fd + unat off) (unat c) (hmem (fs_heap st))"
  define st' where "st' = st\<lparr>fs_heap := (fs_heap st)\<lparr>hmem := m\<rparr>\<rparr>"
  have ap: "{b..<b + l} \<inter> {fd_buffer fd..<fd_buffer fd + k} = {}" using hm.objects_apart [OF h dst(1) k(1)] dst(2) by auto
  have "b \<le> fd_buffer fd + unat off \<or> fd_buffer fd + unat off + unat c \<le> b"
  proof (rule ccontr)
    assume "\<not> ?thesis"
    then have "b \<in> {b..<b + l} \<inter> {fd_buffer fd..<fd_buffer fd + k}" using c lk dst(3) by auto
    with ap show False by blast
  qed
  then have mb: "m = block_copy b (fd_buffer fd + unat off) (unat c) (hmem (fs_heap st))" by (simp add: m_def memcpy_block)
  have out: "\<forall>x. x \<notin> {b + 0..<b + 0 + unat c} \<longrightarrow> m x = hmem (fs_heap st) x" by (auto simp: mb block_copy_def)
  have le: "0 + unat c \<le> l" using c dst(3) by simp
  have ok: "heap_ok hhdm oom A (fs_heap st') L" using hm.copy_into(1) [OF h dst(1) le out] by (simp add: st'_def)
  have keep: "m x = hmem (fs_heap st) x" if "x \<in> {fd_buffer fd..<fd_buffer fd + k}" for x
    using hm.copy_into(2) [OF h dst(1) le out k(1) _ that] dst(2) by simp
  have "file_rep st' L node bs" using n fl b0 k keep lk by (auto simp: file_rep_def file_at_def st'_def)
  moreover have "ramfs_read node off sz b st = Some (sint c, st')"
    using n fl False by (simp add: ramfs_read_def Let_def c_def m_def st'_def)
  moreover have "hmem (fs_heap st') (b + i) = bs ! (unat off + i)" if "i < min (unat sz) (length bs - unat off)" for i
  proof -
    have "unat off + i < length bs" "i < unat c" using that c by linarith+
    with k(3) show ?thesis by (simp add: st'_def mb block_copy_def add.assoc)
  qed
  ultimately show ?thesis using si ok by simp
qed


text \<open>An empty file; the caller's buffer is the large object.\<close>

definition demo_file :: fs_state where
  "demo_file = demo_fs\<lparr>fs_nodes := (fs_nodes demo_fs)(1000 \<mapsto> zero_node\<lparr>n_ptr := 2000, n_flags := FS_FILE\<rparr>),
     fs_files := [2000 \<mapsto> \<lparr>fd_buffer = 0, fd_capacity = 0\<rparr>]\<rparr>"


end
