(* ===== verification/Partition.thy ===== *)
theory Partition
  imports Kheap Vnode "HOL-Library.Monad_Syntax"
begin

section \<open>Partition tables (\<open>kernel/fs/mbr.c\<close>, \<open>gpt.c\<close>, \<open>partition.c\<close>)\<close>

text \<open>
  The parsers of the two partition table formats and the scan that merges their results. A block device is
  its read function, a parameter: the sectors read, or \<open>None\<close> for an error code. The static arrays are part
  of the state; they start zeroed and only some of their fields are ever assigned. A read outside the
  sectors that were read has no value (\<open>None\<close>).
\<close>

datatype partition_kind = UNKNOWN | FAT32 | EXT2 | ESP | UNALLOCATED

record partition_info =
  p_index :: u8
  start_lba :: u32
  sector_count :: u32
  raw_type :: u8
  p_type :: u8
  kind :: partition_kind
  fs_name :: bytes
  is_esp :: bool

definition zero_part :: partition_info where
  "zero_part = \<lparr>p_index = 0, start_lba = 0, sector_count = 0, raw_type = 0, p_type = 0, kind = UNKNOWN, fs_name = [], is_esp = False\<rparr>"

type_synonym block_read = "u64 \<Rightarrow> u32 \<Rightarrow> bytes option"

record part_state =
  detected_partitions :: "nat \<Rightarrow> partition_info"
  partition_count :: nat
  gpt_partitions :: "nat \<Rightarrow> partition_info"
  gpt_partition_count :: nat
  unified_partitions :: "nat \<Rightarrow> partition_info"
  unified_partition_count :: nat
  d_heap :: heap

abbreviation (input) MAX_GPT_PARTITIONS :: nat where "MAX_GPT_PARTITIONS \<equiv> 128"
abbreviation (input) MAX_TOTAL_PARTITIONS :: nat where "MAX_TOTAL_PARTITIONS \<equiv> 32"
abbreviation (input) MBR_SIGNATURE :: u16 where "MBR_SIGNATURE \<equiv> 0xAA55"
abbreviation (input) GPT_SIGNATURE :: u64 where "GPT_SIGNATURE \<equiv> 0x5452415020494645"

subsection \<open>Master boot record\<close>

text \<open>One round of the loop over the four entries, 16 bytes each from offset 446.\<close>

definition mbr_entry :: "bytes \<Rightarrow> nat \<Rightarrow> part_state \<Rightarrow> part_state option" where
  "mbr_entry sec i st = do {
     let part = 446 + 16 * i;
     ty \<leftarrow> rd8 sec (part + 4);
     if ty = 0 then Some st
     else do {
       lba \<leftarrow> rd32le sec (part + 8);
       cnt \<leftarrow> rd32le sec (part + 12);
       let k = partition_count st;
       Some (st\<lparr>detected_partitions := (detected_partitions st)(k := (detected_partitions st k)
           \<lparr>p_index := of_nat i, p_type := ty, start_lba := lba, sector_count := cnt\<rparr>),
         partition_count := k + 1\<rparr>)
     }
   }"

definition mbr_init_device :: "block_read \<Rightarrow> part_state \<Rightarrow> part_state option" where
  "mbr_init_device read_dev st0 =
     (let st = st0\<lparr>partition_count := 0\<rparr> in
      case read_dev 0 1 of
        None \<Rightarrow> Some st
      | Some sec \<Rightarrow> do {
          sig \<leftarrow> rd16le sec 510;
          if sig \<noteq> MBR_SIGNATURE then Some st
          else do {
            st1 \<leftarrow> mbr_entry sec 0 st;
            st2 \<leftarrow> mbr_entry sec 1 st1;
            st3 \<leftarrow> mbr_entry sec 2 st2;
            mbr_entry sec 3 st3
          }
        })"

definition mbr_get_partition_count :: "part_state \<Rightarrow> nat" where
  "mbr_get_partition_count st = partition_count st"

definition mbr_get_partition :: "int \<Rightarrow> part_state \<Rightarrow> partition_info option" where
  "mbr_get_partition index st =
     (if index < 0 \<or> index \<ge> int (partition_count st) then None else Some (detected_partitions st (nat index)))"

subsection \<open>GUID partition table\<close>

text \<open>The offset of an entry is computed in 32 bits. An entry is unused when its type GUID is zero.\<close>

fun guid_empty :: "bytes \<Rightarrow> nat \<Rightarrow> nat list \<Rightarrow> bool option" where
  "guid_empty buf e [] = Some True"
| "guid_empty buf e (b # bs) = do {
     x \<leftarrow> rd8 buf (e + b);
     if x \<noteq> 0 then Some False else guid_empty buf e bs
   }"

lemma gpt_loop_smaller: "i < n \<Longrightarrow> unat (n - (i + 1)) < unat (n - i)" for i n :: u32
proof -
  assume "i < n"
  then have "n - (i + 1) = n - i - 1" "n - i \<noteq> 0" by (auto simp: diff_diff_eq)
  then show ?thesis using measure_unat by metis
qed

function gpt_loop :: "bytes \<Rightarrow> u32 \<Rightarrow> u32 \<Rightarrow> u32 \<Rightarrow> part_state \<Rightarrow> part_state option" where
  "gpt_loop buf num_entries entry_size i st =
     (if i < num_entries \<and> gpt_partition_count st < MAX_GPT_PARTITIONS then
        let e = unat (i * entry_size) in
        (case guid_empty buf e [0..<16] of
           None \<Rightarrow> None
         | Some True \<Rightarrow> gpt_loop buf num_entries entry_size (i + 1) st
         | Some False \<Rightarrow>
             (case (rd64le buf (e + 32), rd64le buf (e + 40)) of
                (Some first, Some final) \<Rightarrow>
                  let k = gpt_partition_count st in
                  gpt_loop buf num_entries entry_size (i + 1)
                    (st\<lparr>gpt_partitions := (gpt_partitions st)(k := (gpt_partitions st k)
                        \<lparr>p_index := of_nat k, p_type := 0x0C, start_lba := ucast first,
                         sector_count := ucast (final - first + 1)\<rparr>),
                      gpt_partition_count := k + 1\<rparr>)
              | _ \<Rightarrow> None))
      else Some st)"
  by pat_completeness auto

termination gpt_loop
  by (relation "measure (\<lambda>(buf, n, e, i, st). unat (n - i))") (auto simp: gpt_loop_smaller)

declare gpt_loop.simps [simp del]

text \<open>The second half: the entry array is read into a buffer from the heap and parsed.\<close>

definition gpt_read_entries :: "nat \<Rightarrow> (pmm \<Rightarrow> pmm) \<Rightarrow> block_read \<Rightarrow> u64 \<Rightarrow> u32 \<Rightarrow> u32 \<Rightarrow> part_state \<Rightarrow> part_state option" where
  "gpt_read_entries hhdm oom read_dev entries_lba num_entries entry_size st = do {
     let total_bytes = num_entries * entry_size;
     let sectors_to_read = (total_bytes + 511) div 512;
     (entries_buf, h) \<leftarrow> kmalloc hhdm oom (ucast (sectors_to_read * 512)) (d_heap st);
     let st1 = st\<lparr>d_heap := h\<rparr>;
     if entries_buf = 0 then Some st1
     else do {
       st2 \<leftarrow> (case read_dev entries_lba sectors_to_read of
                 None \<Rightarrow> Some st1
               | Some buf \<Rightarrow> gpt_loop buf num_entries entry_size 0 st1);
       h' \<leftarrow> kfree hhdm entries_buf (d_heap st2);
       Some (st2\<lparr>d_heap := h'\<rparr>)
     }
   }"

definition gpt_init_device :: "nat \<Rightarrow> (pmm \<Rightarrow> pmm) \<Rightarrow> block_read \<Rightarrow> part_state \<Rightarrow> part_state option" where
  "gpt_init_device hhdm oom read_dev st0 =
     (let st = st0\<lparr>gpt_partition_count := 0\<rparr> in
      case read_dev 0 1 of
        None \<Rightarrow> Some st
      | Some pmbr \<Rightarrow> do {
          sig \<leftarrow> rd16le pmbr 510;
          os_type \<leftarrow> rd8 pmbr 450;
          if sig \<noteq> MBR_SIGNATURE \<or> os_type \<noteq> 0xEE then Some st
          else (case read_dev 1 1 of
                  None \<Rightarrow> Some st
                | Some hdr \<Rightarrow> do {
                    gsig \<leftarrow> rd64le hdr 0;
                    if gsig \<noteq> GPT_SIGNATURE then Some st
                    else do {
                      entries_lba \<leftarrow> rd64le hdr 72;
                      num_entries \<leftarrow> rd32le hdr 80;
                      entry_size \<leftarrow> rd32le hdr 84;
                      gpt_read_entries hhdm oom read_dev entries_lba num_entries entry_size st
                    }
                  })
        })"

definition gpt_get_partition_count :: "part_state \<Rightarrow> nat" where
  "gpt_get_partition_count st = gpt_partition_count st"

definition gpt_get_partition :: "int \<Rightarrow> part_state \<Rightarrow> partition_info option" where
  "gpt_get_partition index st =
     (if index < 0 \<or> index \<ge> int (gpt_partition_count st) then None else Some (gpt_partitions st (nat index)))"

subsection \<open>The scan\<close>

definition add_unified :: "partition_info \<Rightarrow> part_state \<Rightarrow> part_state" where
  "add_unified p st = (let k = unified_partition_count st in
     st\<lparr>unified_partitions := (unified_partitions st)(k := p\<lparr>p_index := of_nat k\<rparr>), unified_partition_count := k + 1\<rparr>)"

definition label_gpt :: "partition_info \<Rightarrow> partition_info" where
  "label_gpt p =
     (if raw_type p = 0xEF \<or> kind p = ESP then p\<lparr>is_esp := True, fs_name := cstr ''EFI System (ESP)''\<rparr>
      else if kind p = FAT32 then p\<lparr>fs_name := cstr ''FAT32''\<rparr>
      else if kind p = EXT2 then p\<lparr>fs_name := cstr ''EXT2''\<rparr>
      else p\<lparr>fs_name := cstr ''Unknown/Raw''\<rparr>)"

definition label_mbr :: "partition_info \<Rightarrow> partition_info" where
  "label_mbr p =
     (if raw_type p = 0xEF \<or> raw_type p = 0xEE then p\<lparr>is_esp := True, fs_name := cstr ''ESP/Protective''\<rparr>
      else if raw_type p = 0x0B \<or> raw_type p = 0x0C then p\<lparr>fs_name := cstr ''FAT32''\<rparr>
      else if raw_type p = 0x83 then p\<lparr>fs_name := cstr ''EXT2/Linux''\<rparr>
      else p\<lparr>fs_name := cstr ''Unknown/Raw''\<rparr>)"

text \<open>The two loops: entries are taken while there is room and the table has them.\<close>

definition scan_loop :: "(int \<Rightarrow> part_state \<Rightarrow> partition_info option) \<Rightarrow> (partition_info \<Rightarrow> partition_info) \<Rightarrow> nat \<Rightarrow> part_state \<Rightarrow> part_state" where
  "scan_loop get lab n st = fold (\<lambda>i st.
     if unified_partition_count st < MAX_TOTAL_PARTITIONS
     then (case get (int i) st of None \<Rightarrow> st | Some p \<Rightarrow> add_unified (lab p) st)
     else st) [0..<n] st"

definition disk_partition_scan_device :: "nat \<Rightarrow> (pmm \<Rightarrow> pmm) \<Rightarrow> block_read \<Rightarrow> part_state \<Rightarrow> part_state option" where
  "disk_partition_scan_device hhdm oom dev st0 = do {
     let st = st0\<lparr>unified_partition_count := 0, unified_partitions := \<lambda>_. zero_part\<rparr>;
     st1 \<leftarrow> gpt_init_device hhdm oom dev st;
     let gpt_count = gpt_get_partition_count st1;
     if gpt_count > 0 then Some (scan_loop gpt_get_partition label_gpt gpt_count st1)
     else do {
       st2 \<leftarrow> mbr_init_device dev st1;
       Some (scan_loop mbr_get_partition label_mbr (mbr_get_partition_count st2) st2)
     }
   }"

definition disk_get_partition_count :: "part_state \<Rightarrow> nat" where
  "disk_get_partition_count st = unified_partition_count st"

definition disk_get_partition :: "int \<Rightarrow> part_state \<Rightarrow> partition_info option" where
  "disk_get_partition index st =
     (if index < 0 \<or> index \<ge> int (unified_partition_count st) then None else Some (unified_partitions st (nat index)))"

text \<open>The gaps that \<open>disk_find_unallocated_space\<close> reports for a disk with these partitions.\<close>

fun gaps :: "u32 \<Rightarrow> partition_info list \<Rightarrow> (u32 \<times> u32) list" where
  "gaps last_lba [] = []"
| "gaps last_lba (p # ps) =
     (if start_lba p > last_lba + 2048 then [(last_lba, start_lba p)] else []) @ gaps (start_lba p + sector_count p) ps"

definition disk_find_unallocated_space :: "partition_info list \<Rightarrow> (u32 \<times> u32) list" where
  "disk_find_unallocated_space ps = (if ps = [] then [] else gaps 2048 ps)"

subsection \<open>The protection of the EFI system partition\<close>

text \<open>No parser assigns \<open>raw_type\<close>, \<open>kind\<close> or \<open>is_esp\<close>, so they keep the zero of the static arrays.\<close>

definition unlabelled :: "partition_info \<Rightarrow> bool" where
  "unlabelled p \<longleftrightarrow> raw_type p = 0 \<and> kind p = UNKNOWN \<and> \<not> is_esp p"

definition tables_zero :: "part_state \<Rightarrow> bool" where
  "tables_zero st \<longleftrightarrow> (\<forall>i. unlabelled (detected_partitions st i) \<and> unlabelled (gpt_partitions st i))"

lemma tables_zero_upd [simp]:
  "tables_zero (st\<lparr>gpt_partition_count := k\<rparr>) = tables_zero st" "tables_zero (st\<lparr>partition_count := k\<rparr>) = tables_zero st"
  "tables_zero (st\<lparr>d_heap := h\<rparr>) = tables_zero st"
  by (simp_all add: tables_zero_def)

lemma mbr_entry_zero: "tables_zero st \<Longrightarrow> mbr_entry sec i st = Some st' \<Longrightarrow>
    tables_zero st' \<and> unified_partition_count st' = unified_partition_count st"
  by (auto simp: mbr_entry_def tables_zero_def unlabelled_def bind_eq_Some_conv Let_def split: if_splits)

lemma mbr_init_zero: "tables_zero st \<Longrightarrow> mbr_init_device dev st = Some st' \<Longrightarrow>
    tables_zero st' \<and> unified_partition_count st' = unified_partition_count st"
  unfolding mbr_init_device_def Let_def bind_eq_Some_conv
  by (auto simp: bind_eq_Some_conv split: option.splits if_splits dest!: mbr_entry_zero [rotated])

lemma gpt_loop_zero: "tables_zero st \<Longrightarrow> gpt_loop buf n e i st = Some st' \<Longrightarrow>
    tables_zero st' \<and> unified_partition_count st' = unified_partition_count st"
proof (induction buf n e i st rule: gpt_loop.induct)
  case (1 buf n e i st)
  show ?case
  proof (cases "i < n \<and> gpt_partition_count st < MAX_GPT_PARTITIONS")
    case False
    with "1.prems" show ?thesis by (simp add: gpt_loop.simps)
  next
    case True
    have unf: "gpt_loop buf n e i st = (case guid_empty buf (unat (i * e)) [0..<16] of None \<Rightarrow> None
         | Some True \<Rightarrow> gpt_loop buf n e (i + 1) st
         | Some False \<Rightarrow> (case (rd64le buf (unat (i * e) + 32), rd64le buf (unat (i * e) + 40)) of
              (Some first, Some final) \<Rightarrow> gpt_loop buf n e (i + 1)
                (st\<lparr>gpt_partitions := (gpt_partitions st)(gpt_partition_count st := (gpt_partitions st (gpt_partition_count st))
                  \<lparr>p_index := of_nat (gpt_partition_count st), p_type := 0x0C, start_lba := ucast first,
                   sector_count := ucast (final - first + 1)\<rparr>), gpt_partition_count := gpt_partition_count st + 1\<rparr>)
            | _ \<Rightarrow> None))"
      using True gpt_loop.simps [of buf n e i st] unfolding Let_def by simp
    from "1.prems"(2) consider "guid_empty buf (unat (i * e)) [0..<16] = Some True" "gpt_loop buf n e (i + 1) st = Some st'"
      | first final where "guid_empty buf (unat (i * e)) [0..<16] = Some False"
        "rd64le buf (unat (i * e) + 32) = Some first" "rd64le buf (unat (i * e) + 40) = Some final"
      unfolding unf by (auto split: option.splits bool.splits)
    then show ?thesis
    proof cases
      case 1
      from "1.IH"(1) [OF True refl 1(1) _ "1.prems"(1) 1(2)] show ?thesis by simp
    next
      case (2 first final)
      let ?st = "st\<lparr>gpt_partitions := (gpt_partitions st)(gpt_partition_count st := (gpt_partitions st (gpt_partition_count st))
        \<lparr>p_index := of_nat (gpt_partition_count st), p_type := 0x0C, start_lba := ucast first,
         sector_count := ucast (final - first + 1)\<rparr>), gpt_partition_count := gpt_partition_count st + 1\<rparr>"
      have "tables_zero ?st" using "1.prems"(1) by (simp add: tables_zero_def unlabelled_def)
      moreover have "gpt_loop buf n e (i + 1) ?st = Some st'" using "1.prems"(2) 2 unfolding unf by simp
      ultimately show ?thesis using "1.IH"(2) [OF True refl 2(1) _ refl _ _ refl] 2(2,3) by simp
    qed
  qed
qed

lemma gpt_read_entries_zero:
  assumes "tables_zero st" and r: "gpt_read_entries hhdm oom dev lba n e st = Some st'"
  shows "tables_zero st' \<and> unified_partition_count st' = unified_partition_count st"
proof -
  from r obtain b h where k: "kmalloc hhdm oom (ucast ((n * e + 511) div 512 * 512)) (d_heap st) = Some (b, h)"
    by (auto simp: gpt_read_entries_def Let_def bind_eq_Some_conv)
  show ?thesis
  proof (cases "b = 0")
    case True
    with r k assms(1) show ?thesis by (auto simp: gpt_read_entries_def Let_def)
  next
    case False
    with r k obtain s2 h' where s2: "(case dev lba ((n * e + 511) div 512) of None \<Rightarrow> Some (st\<lparr>d_heap := h\<rparr>)
        | Some buf \<Rightarrow> gpt_loop buf n e 0 (st\<lparr>d_heap := h\<rparr>)) = Some s2" "st' = s2\<lparr>d_heap := h'\<rparr>"
      by (auto simp: gpt_read_entries_def Let_def bind_eq_Some_conv)
    have "tables_zero s2 \<and> unified_partition_count s2 = unified_partition_count st"
    proof (cases "dev lba ((n * e + 511) div 512)")
      case None
      with s2 assms(1) show ?thesis by auto
    next
      case (Some buf)
      with s2 assms(1) gpt_loop_zero [of "st\<lparr>d_heap := h\<rparr>" buf n e 0 s2] show ?thesis by simp
    qed
    with s2(2) show ?thesis by simp
  qed
qed

lemma gpt_init_zero: "tables_zero st \<Longrightarrow> gpt_init_device hhdm oom dev st = Some st' \<Longrightarrow>
    tables_zero st' \<and> unified_partition_count st' = unified_partition_count st"
  unfolding gpt_init_device_def Let_def
  by (auto simp: bind_eq_Some_conv split: option.split_asm if_split_asm dest!: gpt_read_entries_zero [rotated])

lemma scan_loop_label:
  assumes get: "\<And>i st p. tables_zero st \<Longrightarrow> get i st = Some p \<Longrightarrow> unlabelled p"
    and lab: "\<And>p. unlabelled p \<Longrightarrow> lab p = p\<lparr>fs_name := cstr ''Unknown/Raw''\<rparr>"
    and st: "tables_zero st" "\<forall>j < unified_partition_count st. \<not> is_esp (unified_partitions st j) \<and> fs_name (unified_partitions st j) = cstr ''Unknown/Raw''"
  shows "\<forall>j < unified_partition_count (scan_loop get lab n st).
    \<not> is_esp (unified_partitions (scan_loop get lab n st) j) \<and> fs_name (unified_partitions (scan_loop get lab n st) j) = cstr ''Unknown/Raw''"
proof -
  have "tables_zero (scan_loop get lab n st) \<and> (\<forall>j < unified_partition_count (scan_loop get lab n st).
    \<not> is_esp (unified_partitions (scan_loop get lab n st) j) \<and> fs_name (unified_partitions (scan_loop get lab n st) j) = cstr ''Unknown/Raw'')"
  proof (induction n)
    case 0
    with st show ?case by (simp add: scan_loop_def)
  next
    case (Suc n)
    have step: "scan_loop get lab (Suc n) st = (let s = scan_loop get lab n st in
        if unified_partition_count s < MAX_TOTAL_PARTITIONS then (case get (int n) s of None \<Rightarrow> s | Some p \<Rightarrow> add_unified (lab p) s) else s)"
      by (simp add: scan_loop_def Let_def)
    show ?case
    proof (cases "get (int n) (scan_loop get lab n st)")
      case None
      with Suc show ?thesis by (simp add: step Let_def)
    next
      case (Some p)
      with get [of "scan_loop get lab n st"] Suc have "unlabelled p" by blast
      then have "\<not> is_esp (lab p)" "fs_name (lab p) = cstr ''Unknown/Raw''" using lab by (auto simp: unlabelled_def)
      with Suc Some show ?thesis by (auto simp: step Let_def add_unified_def tables_zero_def less_Suc_eq)
    qed
  qed
  then show ?thesis by blast
qed

text \<open>C31. The guard of the EFI system partition never takes effect: whatever partition table a disk has, the scan
  marks no partition as a system partition and labels all of them as unknown, because the parsers store the
  type of a partition in another field than the one the scan tests.\<close>

theorem scan_never_protects:
  assumes "tables_zero st" and "disk_partition_scan_device hhdm oom dev st = Some st'"
  shows "\<forall>j < disk_get_partition_count st'. \<exists>p. disk_get_partition (int j) st' = Some p \<and> \<not> is_esp p \<and> fs_name p = cstr ''Unknown/Raw''"
proof -
  have z: "tables_zero (st\<lparr>unified_partition_count := 0, unified_partitions := \<lambda>_. zero_part\<rparr>)"
    using assms(1) by (simp add: tables_zero_def)
  have get: "unlabelled p" if "tables_zero s" "gpt_get_partition i s = Some p" for i s p
    using that by (auto simp: gpt_get_partition_def tables_zero_def split: if_splits)
  have get': "unlabelled p" if "tables_zero s" "mbr_get_partition i s = Some p" for i s p
    using that by (auto simp: mbr_get_partition_def tables_zero_def split: if_splits)
  have lab: "label_gpt p = p\<lparr>fs_name := cstr ''Unknown/Raw''\<rparr>" "label_mbr p = p\<lparr>fs_name := cstr ''Unknown/Raw''\<rparr>" if "unlabelled p" for p
    using that by (auto simp: label_gpt_def label_mbr_def unlabelled_def)
  from assms(2) obtain s1 where g: "gpt_init_device hhdm oom dev (st\<lparr>unified_partition_count := 0, unified_partitions := \<lambda>_. zero_part\<rparr>) = Some s1"
    and r: "(if gpt_partition_count s1 > 0 then Some (scan_loop gpt_get_partition label_gpt (gpt_partition_count s1) s1)
      else do { s2 \<leftarrow> mbr_init_device dev s1; Some (scan_loop mbr_get_partition label_mbr (mbr_get_partition_count s2) s2) }) = Some st'"
    by (auto simp: disk_partition_scan_device_def bind_eq_Some_conv gpt_get_partition_count_def Let_def)
  from gpt_init_zero [OF z g] have s1: "tables_zero s1" "unified_partition_count s1 = 0" by simp_all
  have "\<forall>j < unified_partition_count st'. \<not> is_esp (unified_partitions st' j) \<and> fs_name (unified_partitions st' j) = cstr ''Unknown/Raw''"
  proof (cases "gpt_partition_count s1 > 0")
    case True
    with r have "st' = scan_loop gpt_get_partition label_gpt (gpt_partition_count s1) s1" by simp
    then show ?thesis using s1 by (simp only:) (rule scan_loop_label; (rule get lab; assumption | simp))
  next
    case False
    with r obtain s2 where s2: "mbr_init_device dev s1 = Some s2" "st' = scan_loop mbr_get_partition label_mbr (mbr_get_partition_count s2) s2"
      by (auto simp: bind_eq_Some_conv)
    from mbr_init_zero [OF s1(1) s2(1)] s1(2) have z2: "tables_zero s2" "unified_partition_count s2 = 0" by simp_all
    then show ?thesis unfolding s2(2) by - (rule scan_loop_label; (rule get' lab; assumption | simp))
  qed
  then show ?thesis by (simp add: disk_get_partition_count_def disk_get_partition_def)
qed

subsection \<open>Parsing a written boot record\<close>

text \<open>A boot record with given boot code and entries (type, first sector, number of sectors).\<close>

definition mbr_enc :: "u8 \<times> u32 \<times> u32 \<Rightarrow> bytes" where
  "mbr_enc e = (case e of (ty, lba, cnt) \<Rightarrow> [0, 0, 0, 0, ty, 0, 0, 0] @ le32 lba @ le32 cnt)"

definition mbr_sector :: "bytes \<Rightarrow> (u8 \<times> u32 \<times> u32) list \<Rightarrow> bytes" where
  "mbr_sector boot es = boot @ concat (map mbr_enc es) @ le16 MBR_SIGNATURE"

lemma length_mbr_enc [simp]: "length (mbr_enc e) = 16"
  by (simp add: mbr_enc_def split: prod.splits)

lemma length_mbr_encs [simp]: "length (concat (map mbr_enc es)) = 16 * length es"
  by (induction es) auto

lemma rd_append: "rd8 (pre @ xs) (length pre + k) = rd8 xs k" "rd16le (pre @ xs) (length pre + k) = rd16le xs k"
    "rd32le (pre @ xs) (length pre + k) = rd32le xs k"
  by (simp_all add: rd8_def rd16le_def rd32le_def nth_append)

lemma rd_entry:
  assumes "length boot = 446" and "i < length es" and "es ! i = (ty, lba, cnt)"
  shows "rd8 (mbr_sector boot es) (446 + 16 * i + 4) = Some ty" "rd32le (mbr_sector boot es) (446 + 16 * i + 8) = Some lba"
    "rd32le (mbr_sector boot es) (446 + 16 * i + 12) = Some cnt"
proof -
  define pre where "pre = boot @ concat (map mbr_enc (take i es))"
  define post where "post = concat (map mbr_enc (drop (Suc i) es)) @ le16 MBR_SIGNATURE"
  have "es = take i es @ es ! i # drop (Suc i) es" by (rule id_take_nth_drop [OF assms(2)])
  then have "concat (map mbr_enc es) = concat (map mbr_enc (take i es)) @ mbr_enc (es ! i) @ concat (map mbr_enc (drop (Suc i) es))"
    by (metis concat.simps(2) concat_append list.simps(9) map_append)
  then have s: "mbr_sector boot es = pre @ mbr_enc (ty, lba, cnt) @ post" by (simp add: mbr_sector_def pre_def post_def assms(3))
  have l: "length pre = 446 + 16 * i" using assms(1,2) by (simp add: pre_def)
  have "rd8 (mbr_enc (ty, lba, cnt) @ post) 4 = Some ty" by (simp add: rd8_def mbr_enc_def)
  then show "rd8 (mbr_sector boot es) (446 + 16 * i + 4) = Some ty" unfolding s l [symmetric] rd_append .
  have "rd32le ([0, 0, 0, 0, ty, 0, 0, 0] @ le32 lba @ le32 cnt @ post) (length [0, 0, 0, 0, ty, 0, 0, 0] + 0) = Some lba"
    unfolding rd_append by (rule rd32le_le32)
  then have "rd32le (mbr_enc (ty, lba, cnt) @ post) 8 = Some lba" by (simp add: mbr_enc_def numeral_eq_Suc)
  then show "rd32le (mbr_sector boot es) (446 + 16 * i + 8) = Some lba" unfolding s l [symmetric] rd_append .
  have "rd32le (([0, 0, 0, 0, ty, 0, 0, 0] @ le32 lba) @ le32 cnt @ post) (length ([0, 0, 0, 0, ty, 0, 0, 0] @ le32 lba) + 0) = Some cnt"
    unfolding rd_append by (rule rd32le_le32)
  then have "rd32le (mbr_enc (ty, lba, cnt) @ post) 12 = Some cnt" by (simp add: mbr_enc_def numeral_eq_Suc)
  then show "rd32le (mbr_sector boot es) (446 + 16 * i + 12) = Some cnt" unfolding s l [symmetric] rd_append .
qed

lemma rd_signature:
  assumes "length boot = 446" and "length es = 4"
  shows "rd16le (mbr_sector boot es) 510 = Some MBR_SIGNATURE"
proof -
  have "rd16le ((boot @ concat (map mbr_enc es)) @ le16 MBR_SIGNATURE) (length (boot @ concat (map mbr_enc es)) + 0) = Some MBR_SIGNATURE"
    unfolding rd_append using rd16le_le16 [of MBR_SIGNATURE "[]"] by simp
  then show ?thesis using assms by (simp add: mbr_sector_def)
qed

text \<open>What is expected of the parser: the used entries in order, numbered by their place in the table.\<close>

definition used_entries :: "(u8 \<times> u32 \<times> u32) list \<Rightarrow> (u8 \<times> u8 \<times> u32 \<times> u32) list" where
  "used_entries es = map (\<lambda>(i, ty, lba, cnt). (of_nat i, ty, lba, cnt)) (filter (\<lambda>(i, ty, r). ty \<noteq> 0) (zip [0..<length es] es))"

definition mbr_result :: "part_state \<Rightarrow> (u8 \<times> u8 \<times> u32 \<times> u32) list" where
  "mbr_result st = map (\<lambda>k. let p = detected_partitions st k in (p_index p, p_type p, start_lba p, sector_count p)) [0..<partition_count st]"

lemma used_entries_snoc: "used_entries (es @ [(ty, lba, cnt)]) = used_entries es @ (if ty = 0 then [] else [(of_nat (length es), ty, lba, cnt)])"
  by (simp add: used_entries_def)

lemma mbr_entry_ok:
  assumes b: "length boot = 446" and i: "i < length es" and r: "mbr_result st = used_entries (take i es)"
  shows "\<exists>st'. mbr_entry (mbr_sector boot es) i st = Some st' \<and> mbr_result st' = used_entries (take (Suc i) es) \<and>
    unified_partition_count st' = unified_partition_count st"
proof -
  obtain ty lba cnt where e: "es ! i = (ty, lba, cnt)" by (cases "es ! i")
  note rd = rd_entry [OF b i e]
  have t: "take (Suc i) es = take i es @ [(ty, lba, cnt)]" using i e by (simp add: take_Suc_conv_app_nth)
  have "mbr_result (st\<lparr>detected_partitions := (detected_partitions st)(partition_count st := p), partition_count := partition_count st + 1\<rparr>) =
      mbr_result st @ [(p_index p, p_type p, start_lba p, sector_count p)]" for p
    by (simp add: mbr_result_def)
  with rd r i show ?thesis by (auto simp: mbr_entry_def t used_entries_snoc Let_def)
qed

lemma mbr_init_ok:
  assumes b: "length boot = 446" and es: "length es = 4" and dev: "dev 0 1 = Some (mbr_sector boot es)"
  shows "\<exists>st'. mbr_init_device dev st = Some st' \<and> mbr_result st' = used_entries es"
proof -
  let ?st = "st\<lparr>partition_count := 0\<rparr>"
  have "mbr_result ?st = used_entries (take 0 es)" by (simp add: mbr_result_def used_entries_def)
  from mbr_entry_ok [OF b _ this] es obtain s1 where s1: "mbr_entry (mbr_sector boot es) 0 ?st = Some s1"
    "mbr_result s1 = used_entries (take 1 es)" by auto
  from mbr_entry_ok [OF b _ s1(2)] es obtain s2 where s2: "mbr_entry (mbr_sector boot es) 1 s1 = Some s2"
    "mbr_result s2 = used_entries (take 2 es)" by (auto simp: numeral_2_eq_2)
  from mbr_entry_ok [OF b _ s2(2)] es obtain s3 where s3: "mbr_entry (mbr_sector boot es) 2 s2 = Some s3"
    "mbr_result s3 = used_entries (take 3 es)" by (auto simp: numeral_3_eq_3)
  from mbr_entry_ok [OF b _ s3(2)] es obtain s4 where s4: "mbr_entry (mbr_sector boot es) 3 s3 = Some s4"
    "mbr_result s4 = used_entries es" by auto
  from rd_signature [OF b es] s1 s2 s3 s4 dev show ?thesis by (simp add: mbr_init_device_def Let_def)
qed


text \<open>A disk with an EFI system partition and nothing else.\<close>

definition demo_entries :: "(u8 \<times> u32 \<times> u32) list" where
  "demo_entries = [(0xEF, 2048, 1000), (0, 0, 0), (0, 0, 0), (0, 0, 0)]"

definition demo_disk :: block_read where
  "demo_disk lba cnt = (if lba = 0 then Some (mbr_sector (replicate 446 0) demo_entries) else None)"

definition demo_tables :: part_state where
  "demo_tables = \<lparr>detected_partitions = \<lambda>_. zero_part, partition_count = 0, gpt_partitions = \<lambda>_. zero_part, gpt_partition_count = 0,
     unified_partitions = \<lambda>_. zero_part, unified_partition_count = 0, d_heap = demo_heap\<rparr>"


lemma demo_gpt: "gpt_init_device 0 id demo_disk st = Some (st\<lparr>gpt_partition_count := 0\<rparr>)"
proof -
  have "rd8 (mbr_sector (replicate 446 0) demo_entries) 450 = Some 0xEF"
    using rd_entry(1) [of "replicate 446 0" 0 demo_entries "0xEF" 2048 1000] by (simp add: demo_entries_def)
  moreover have "rd16le (mbr_sector (replicate 446 0) demo_entries) 510 = Some MBR_SIGNATURE"
    by (rule rd_signature) (simp_all add: demo_entries_def)
  ultimately show ?thesis by (simp add: gpt_init_device_def demo_disk_def)
qed

theorem scan_never_protects_witness:
  "\<exists>st' p. disk_partition_scan_device 0 id demo_disk demo_tables = Some st' \<and> disk_get_partition 0 st' = Some p \<and>
    p_type p = 0xEF \<and> \<not> is_esp p"
proof -
  let ?st = "demo_tables\<lparr>unified_partition_count := 0, unified_partitions := \<lambda>_. zero_part, gpt_partition_count := 0\<rparr>"
  from mbr_init_ok [of "replicate 446 0" demo_entries demo_disk ?st] obtain s2 where
    s2: "mbr_init_device demo_disk ?st = Some s2" "mbr_result s2 = used_entries demo_entries"
    by (auto simp: demo_disk_def demo_entries_def)
  have z: "tables_zero demo_tables" by (simp add: tables_zero_def unlabelled_def demo_tables_def zero_part_def)
  then have z2: "tables_zero s2" "unified_partition_count s2 = 0"
    using mbr_init_zero [OF _ s2(1)] by (simp_all add: tables_zero_def)
  have "used_entries demo_entries = [(0, 0xEF, 2048, 1000)]" by (simp add: used_entries_def demo_entries_def upt_conv_Cons)
  with s2(2) have c: "partition_count s2 = 1" "p_type (detected_partitions s2 0) = 0xEF"
    by (auto simp: mbr_result_def Let_def map_eq_Cons_conv upt_eq_Cons_conv)
  define st' where "st' = scan_loop mbr_get_partition label_mbr 1 s2"
  have sc: "disk_partition_scan_device 0 id demo_disk demo_tables = Some st'"
    using demo_gpt s2(1) c(1) by (simp add: disk_partition_scan_device_def gpt_get_partition_count_def mbr_get_partition_count_def st'_def Let_def)
  have u: "unlabelled (detected_partitions s2 0)" using z2(1) by (simp add: tables_zero_def)
  have one: "disk_get_partition_count st' = 1" "p_type (unified_partitions st' 0) = 0xEF"
    using c z2(2) u by (simp_all add: st'_def scan_loop_def mbr_get_partition_def add_unified_def disk_get_partition_count_def label_mbr_def unlabelled_def)
  with scan_never_protects [OF z sc] show ?thesis using sc
    by (auto simp: disk_get_partition_def disk_get_partition_count_def)
qed

end
