(* ===== verification/Af_unix.thy ===== *)
theory Af_unix
  imports Blocking Ring Vfs
begin

section \<open>UNIX domain sockets (\<open>kernel/ipc/af_unix.c\<close>)\<close>

text \<open>
  Sockets with their ring buffers in a store at the addresses the heap gives them; following a pointer to a
  released socket has no value (\<open>None\<close>). The blocking operations are modelled section by section as for the
  pipes. The ring lives in 64 pages from the page allocator, whose address the socket keeps.
\<close>

abbreviation (input) UNIX_SOCK_BUF_SIZE :: nat where "UNIX_SOCK_BUF_SIZE \<equiv> 262144"
abbreviation (input) UNIX_BACKLOG_MAX :: int where "UNIX_BACKLOG_MAX \<equiv> 16"
abbreviation (input) UNIX_PATH_MAX :: nat where "UNIX_PATH_MAX \<equiv> 108"

text \<open>\<open>sizeof(unix_socket_t)\<close>.\<close>

abbreviation (input) UNIX_SOCKET_SIZE :: u64 where "UNIX_SOCKET_SIZE \<equiv> 320"

datatype unix_sock_state = UNIX_STATE_CREATED | UNIX_STATE_BOUND | UNIX_STATE_LISTENING | UNIX_STATE_CONNECTED | UNIX_STATE_CLOSED

record unix_socket = ring +
  u_state :: unix_sock_state
  u_type :: int
  u_path :: bytes
  u_buffer :: nat
  u_peer :: nat
  u_backlog :: "nat \<Rightarrow> nat"
  u_backlog_count :: nat
  u_backlog_max :: nat
  u_blocked_reader :: "nat option"
  u_blocked_writer :: "nat option"
  u_blocked_accept :: "nat option"
  u_ref_count :: int
  u_peer_closed :: bool

definition zero_socket :: unix_socket where
  "zero_socket = \<lparr>rbuf = \<lambda>_. 0, read_pos = 0, write_pos = 0, count = 0, u_state = UNIX_STATE_CREATED, u_type = 0, u_path = [], u_buffer = 0,
     u_peer = 0, u_backlog = \<lambda>_. 0, u_backlog_count = 0, u_backlog_max = 0, u_blocked_reader = None, u_blocked_writer = None,
     u_blocked_accept = None, u_ref_count = 0, u_peer_closed = False\<rparr>"

record unix_sys =
  u_fs :: fs_state
  u_sched :: sched
  socks :: "nat \<Rightarrow> unix_socket option"

definition put_sock :: "nat \<Rightarrow> unix_socket \<Rightarrow> unix_sys \<Rightarrow> unix_sys" where
  "put_sock a s st = st\<lparr>socks := (socks st)(a \<mapsto> s)\<rparr>"

definition on_sched :: "(sched \<Rightarrow> sched) \<Rightarrow> unix_sys \<Rightarrow> unix_sys" where
  "on_sched f st = st\<lparr>u_sched := f (u_sched st)\<rparr>"

definition set_heap :: "heap \<Rightarrow> unix_sys \<Rightarrow> unix_sys" where
  "set_heap h st = st\<lparr>u_fs := (u_fs st)\<lparr>fs_heap := h\<rparr>\<rparr>"

subsection \<open>Creation\<close>

definition unix_socket_create :: "nat \<Rightarrow> (pmm \<Rightarrow> pmm) \<Rightarrow> int \<Rightarrow> unix_sys \<Rightarrow> (nat \<times> unix_sys) option" where
  "unix_socket_create hhdm oom type st = do {
     (sock, h) \<leftarrow> kzalloc hhdm oom UNIX_SOCKET_SIZE (fs_heap (u_fs st));
     if sock = 0 then Some (0, set_heap h st)
     else do {
       (phys_buf, s') \<leftarrow> pmm_alloc_continuous oom 64 (hpmm h);
       let h1 = h\<lparr>hpmm := s'\<rparr>;
       if phys_buf = 0 then map_option (\<lambda>h2. (0, set_heap h2 st)) (kfree hhdm sock h1)
       else Some (sock, put_sock sock (zero_socket\<lparr>u_buffer := unat phys_buf + hhdm, u_state := UNIX_STATE_CREATED, u_type := type,
              u_ref_count := 1\<rparr>) (set_heap (h1\<lparr>hmem := memset (unat phys_buf + hhdm) 0 UNIX_SOCK_BUF_SIZE (hmem h1)\<rparr>) st))
     }
   }"

subsection \<open>Binding and listening\<close>

text \<open>
  The loop that unlinks an existing node from the children of its parent: \<open>prev\<close> is the node before \<open>cur\<close>,
  \<open>0\<close> at the front.
\<close>

partial_function (option) unlink_loop ::
  "nat \<Rightarrow> nat \<Rightarrow> nat \<Rightarrow> nat \<Rightarrow> nat \<Rightarrow> fs_state \<Rightarrow> fs_state option" where
  "unlink_loop hhdm existing parent prev cur st =
     (if cur = 0 then Some st
      else do {
        n \<leftarrow> fs_nodes st cur;
        if cur = existing then do {
          st1 \<leftarrow> (if prev \<noteq> 0
                   then map_option (\<lambda>p. st\<lparr>fs_nodes := (fs_nodes st)(prev \<mapsto> p\<lparr>n_next := n_next n\<rparr>)\<rparr>) (fs_nodes st prev)
                   else map_option (\<lambda>p. st\<lparr>fs_nodes := (fs_nodes st)(parent \<mapsto> p\<lparr>n_children := n_next n\<rparr>)\<rparr>) (fs_nodes st parent));
          h \<leftarrow> kfree hhdm existing (fs_heap st1);
          Some (st1\<lparr>fs_heap := h, fs_nodes := (fs_nodes st1)(existing := None)\<rparr>)
        } else unlink_loop hhdm existing parent cur (n_next n) st
      })"

definition unlink_existing :: "nat \<Rightarrow> nat \<Rightarrow> fs_state \<Rightarrow> fs_state option" where
  "unlink_existing hhdm existing st =
     (if existing = 0 then Some st
      else do {
        e \<leftarrow> fs_nodes st existing;
        if n_parent e = 0 then Some st
        else do {
          p \<leftarrow> fs_nodes st (n_parent e);
          if n_children p = 0 then Some st
          else unlink_loop hhdm existing (n_parent e) 0 (n_children p) st
        }
      })"

text \<open>
  The directory and the file name that \<open>bind\<close> takes from the path, as it computes them in place in its copy
  of the path: the terminator that cuts the directory off is written at the last slash, or, when that is the
  first character, behind it.
\<close>

definition split_path :: "bytes \<Rightarrow> (bytes \<times> bytes) option" where
  "split_path path = do {
     let copy = take 107 path;
     slash \<leftarrow> strrchr (copy @ [0]) 47;
     Some (case slash of
             None \<Rightarrow> (copy, copy)
           | Some i \<Rightarrow>
               if i = 0 then
                 let buf = (copy @ [0])[1 := 0]
                 in (takeWhile (\<lambda>c. c \<noteq> 0) buf, takeWhile (\<lambda>c. c \<noteq> 0) (drop 1 buf))
               else (take i copy, drop (i + 1) copy))
   }"

definition unix_socket_bind ::
  "nat \<Rightarrow> (pmm \<Rightarrow> pmm) \<Rightarrow> vfs_env \<Rightarrow> nat \<Rightarrow> bytes option \<Rightarrow> unix_sys \<Rightarrow> (int \<times> unix_sys) option" where
  "unix_socket_bind hhdm oom env sock addr st =
     (case addr of
        None \<Rightarrow> Some (- EINVAL, st)
      | Some sun_path \<Rightarrow>
          if sock = 0 then Some (- EINVAL, st)
          else do {
            s \<leftarrow> socks st sock;
            if u_state s \<noteq> UNIX_STATE_CREATED then Some (- EINVAL, st)
            else do {
              (existing, fs1) \<leftarrow> vfs_open hhdm oom env (Some sun_path) 0 (u_fs st);
              fs2 \<leftarrow> unlink_existing hhdm existing fs1;
              (dir, filename) \<leftarrow> split_path sun_path;
              (parent_dir, fs3) \<leftarrow> vfs_open hhdm oom env (Some (if dir = [] then [47] else dir)) 0 fs2;
              if parent_dir = 0 then Some (- ENOENT, st\<lparr>u_fs := fs3\<rparr>)
              else do {
                (sock_node, fs4) \<leftarrow> vfs_create env parent_dir (Some filename) (FS_SOCKET OR 0x1FF) fs3;
                if sock_node = 0 then Some (- EIO, st\<lparr>u_fs := fs4\<rparr>)
                else do {
                  n \<leftarrow> fs_nodes fs4 sock_node;
                  let fs5 = fs4\<lparr>fs_nodes := (fs_nodes fs4)(sock_node \<mapsto> n\<lparr>n_flags := FS_SOCKET, n_ops := UnixSocketOps, n_ptr := sock\<rparr>)\<rparr>;
                  Some (0, put_sock sock (s\<lparr>u_path := take 107 sun_path, u_state := UNIX_STATE_BOUND\<rparr>) (st\<lparr>u_fs := fs5\<rparr>))
                }
              }
            }
          })"

definition unix_socket_listen :: "nat \<Rightarrow> int \<Rightarrow> unix_sys \<Rightarrow> (int \<times> unix_sys) option" where
  "unix_socket_listen sock backlog st =
     (if sock = 0 then Some (- EINVAL, st)
      else do {
        s \<leftarrow> socks st sock;
        if u_state s \<noteq> UNIX_STATE_BOUND then Some (- EINVAL, st)
        else
          let mx = (if backlog > UNIX_BACKLOG_MAX then UNIX_BACKLOG_MAX else if backlog \<le> 0 then 1 else backlog)
          in Some (0, put_sock sock (s\<lparr>u_backlog_max := nat mx, u_backlog_count := 0, u_state := UNIX_STATE_LISTENING\<rparr>) st)
      })"

subsection \<open>Connecting\<close>

text \<open>Whatever \<open>ptr\<close> the node has is taken for a socket.\<close>

definition unix_socket_connect ::
  "nat \<Rightarrow> (pmm \<Rightarrow> pmm) \<Rightarrow> vfs_env \<Rightarrow> nat \<Rightarrow> bytes option \<Rightarrow> unix_sys \<Rightarrow> (int \<times> unix_sys) option" where
  "unix_socket_connect hhdm oom env client addr st =
     (case addr of
        None \<Rightarrow> Some (- EINVAL, st)
      | Some sun_path \<Rightarrow>
          if client = 0 then Some (- EINVAL, st)
          else do {
            c \<leftarrow> socks st client;
            if u_state c = UNIX_STATE_CONNECTED then Some (- EISCONN, st)
            else do {
              (node, fs1) \<leftarrow> vfs_open hhdm oom env (Some sun_path) 0 (u_fs st);
              let st1 = st\<lparr>u_fs := fs1\<rparr>;
              server \<leftarrow> (if node = 0 then Some 0 else map_option n_ptr (fs_nodes fs1 node));
              if server = 0 then Some (- ECONNREFUSED, st1)
              else do {
                s \<leftarrow> socks st1 server;
                if u_state s \<noteq> UNIX_STATE_LISTENING then Some (- ECONNREFUSED, st1)
                else if u_backlog_count s \<ge> u_backlog_max s then Some (- EAGAIN, st1)
                else do {
                  (server_peer, st2) \<leftarrow> unix_socket_create hhdm oom (u_type c) st1;
                  if server_peer = 0 then Some (- ENOMEM, st2)
                  else do {
                    c2 \<leftarrow> socks st2 client;
                    let st3 = put_sock client (c2\<lparr>u_peer := server_peer, u_state := UNIX_STATE_CONNECTED\<rparr>) st2;
                    p \<leftarrow> socks st3 server_peer;
                    let st4 = put_sock server_peer (p\<lparr>u_peer := client, u_state := UNIX_STATE_CONNECTED\<rparr>) st3;
                    s4 \<leftarrow> socks st4 server;
                    let st5 = put_sock server (s4\<lparr>u_backlog := (u_backlog s4)(u_backlog_count s4 := server_peer),
                      u_backlog_count := u_backlog_count s4 + 1, u_blocked_accept := None\<rparr>) st4;
                    Some (0, case u_blocked_accept s4 of
                               None \<Rightarrow> st5
                             | Some t \<Rightarrow> on_sched (io_wake_all \<circ> sched_unblock (Some t)) st5)
                  }
                }
              }
            }
          })"

subsection \<open>Accepting\<close>

definition shift_backlog :: "nat \<Rightarrow> (nat \<Rightarrow> nat) \<Rightarrow> nat \<Rightarrow> nat" where
  "shift_backlog n b = fold (\<lambda>i b. b(i := b (i + 1))) [0..<n - 1] b"

text \<open>From the test of the waiting loop to the return or the next yield; the value is the code and the accepted socket.\<close>

definition unix_accept_wait :: "nat \<Rightarrow> bool \<Rightarrow> unix_sys \<Rightarrow> ((int \<times> nat, unit) outcome \<times> unix_sys) option" where
  "unix_accept_wait server nonblock st = do {
     s \<leftarrow> socks st server;
     Some (if u_backlog_count s = 0 then
             if u_peer_closed s then (Ret (- ECONNABORTED, 0), st)
             else if nonblock then (Ret (- EAGAIN, 0), st)
             else (case current_task (u_sched st) of
                     Some t \<Rightarrow> (Yield (), on_sched (sched_block (Some t)) (put_sock server (s\<lparr>u_blocked_accept := Some t\<rparr>) st))
                   | None \<Rightarrow> (Spin (), st))
           else (Ret (0, u_backlog s 0), put_sock server (s\<lparr>u_backlog := shift_backlog (u_backlog_count s) (u_backlog s),
                   u_backlog_count := u_backlog_count s - 1\<rparr>) st))
   }"

definition unix_socket_accept :: "nat \<Rightarrow> nat \<Rightarrow> bool \<Rightarrow> unix_sys \<Rightarrow> ((int \<times> nat, unit) outcome \<times> unix_sys) option" where
  "unix_socket_accept server out_client nonblock st =
     (if server = 0 \<or> out_client = 0 then Some (Ret (- EINVAL, 0), st)
      else do {
        s \<leftarrow> socks st server;
        if u_state s \<noteq> UNIX_STATE_LISTENING then Some (Ret (- EINVAL, 0), st)
        else unix_accept_wait server nonblock st
      })"

definition unix_accept_resume :: "nat \<Rightarrow> bool \<Rightarrow> unix_sys \<Rightarrow> ((int \<times> nat, unit) outcome \<times> unix_sys) option" where
  "unix_accept_resume server nonblock st = do {
     s \<leftarrow> socks st server;
     unix_accept_wait server nonblock (put_sock server (s\<lparr>u_blocked_accept := None\<rparr>) st)
   }"

subsection \<open>Reading\<close>

text \<open>The wake-ups of the tasks a socket remembers: unblock the task and forget it.\<close>

definition wake_reader :: "nat \<Rightarrow> unix_sys \<Rightarrow> unix_sys option" where
  "wake_reader a st = do {
     s \<leftarrow> socks st a;
     Some (case u_blocked_reader s of
             None \<Rightarrow> st
           | Some t \<Rightarrow> on_sched (sched_unblock (Some t)) (put_sock a (s\<lparr>u_blocked_reader := None\<rparr>) st))
   }"

definition wake_writer :: "nat \<Rightarrow> unix_sys \<Rightarrow> unix_sys option" where
  "wake_writer a st = do {
     s \<leftarrow> socks st a;
     Some (case u_blocked_writer s of
             None \<Rightarrow> st
           | Some t \<Rightarrow> on_sched (sched_unblock (Some t)) (put_sock a (s\<lparr>u_blocked_writer := None\<rparr>) st))
   }"

text \<open>The value of a read is the code and the bytes stored from the start of the buffer.\<close>

definition unix_read_wait :: "nat \<Rightarrow> nat \<Rightarrow> bool \<Rightarrow> unix_sys \<Rightarrow> ((int \<times> bytes, nat) outcome \<times> unix_sys) option" where
  "unix_read_wait sock n nonblock st = do {
     s \<leftarrow> socks st sock;
     if count s = 0 then
       Some (if u_peer_closed s then (Ret (0, []), st)
             else if nonblock then (Ret (- EAGAIN, []), st)
             else (case current_task (u_sched st) of
                     Some t \<Rightarrow> (Yield n, on_sched (sched_block (Some t)) (put_sock sock (s\<lparr>u_blocked_reader := Some t\<rparr>) st))
                   | None \<Rightarrow> (Spin n, st)))
     else do {
       let to_read = min n (count s);
       let (out, s1) = ring_read UNIX_SOCK_BUF_SIZE to_read s;
       let st1 = put_sock sock s1 st;
       st2 \<leftarrow> (if u_peer s1 \<noteq> 0 then wake_writer (u_peer s1) st1 else Some st1);
       Some (Ret (int to_read, out), st2)
     }
   }"

definition unix_socket_read :: "nat \<Rightarrow> nat \<Rightarrow> nat \<Rightarrow> bool \<Rightarrow> unix_sys \<Rightarrow> ((int \<times> bytes, nat) outcome \<times> unix_sys) option" where
  "unix_socket_read sock buf n nonblock st =
     (if sock = 0 \<or> buf = 0 \<or> n = 0 then Some (Ret (0, []), st) else unix_read_wait sock n nonblock st)"

definition unix_read_resume :: "nat \<Rightarrow> nat \<Rightarrow> bool \<Rightarrow> unix_sys \<Rightarrow> ((int \<times> bytes, nat) outcome \<times> unix_sys) option" where
  "unix_read_resume sock n nonblock st = do {
     s \<leftarrow> socks st sock;
     unix_read_wait sock n nonblock (put_sock sock (s\<lparr>u_blocked_reader := None\<rparr>) st)
   }"

subsection \<open>Writing\<close>

text \<open>A yield keeps the bytes that are left and the number written; \<open>dest\<close> is the peer read before the loop.\<close>

fun unix_write_loop :: "nat \<Rightarrow> nat \<Rightarrow> bool \<Rightarrow> bytes \<Rightarrow> nat \<Rightarrow> unix_sys \<Rightarrow> ((int, bytes \<times> nat) outcome \<times> unix_sys) option" where
  "unix_write_loop sock dest nonblock [] written st = Some (Ret (int written), st)"
| "unix_write_loop sock dest nonblock (b # rest) written st =
     (case socks st dest of
        None \<Rightarrow> None
      | Some d \<Rightarrow>
          if count d \<ge> UNIX_SOCK_BUF_SIZE then
            (case socks st sock of
               None \<Rightarrow> None
             | Some s \<Rightarrow>
                 if u_peer_closed d \<or> u_peer_closed s then Some (Ret (- EPIPE), st)
                 else if nonblock then Some (Ret (if written > 0 then int written else - EAGAIN), st)
                 else (case current_task (u_sched st) of
                         Some t \<Rightarrow> Some (Yield (b # rest, written),
                           on_sched (sched_block (Some t)) (put_sock sock (s\<lparr>u_blocked_writer := Some t\<rparr>) st))
                       | None \<Rightarrow> Some (Spin (b # rest, written), st)))
          else
            (case wake_reader dest (on_sched io_wake_all (put_sock dest (ring_put UNIX_SOCK_BUF_SIZE b d) st)) of
               None \<Rightarrow> None
             | Some st1 \<Rightarrow> unix_write_loop sock dest nonblock rest (written + 1) st1))"

definition unix_socket_write :: "nat \<Rightarrow> bytes option \<Rightarrow> bool \<Rightarrow> unix_sys \<Rightarrow> ((int, bytes \<times> nat) outcome \<times> unix_sys) option" where
  "unix_socket_write sock buf nonblock st =
     (case buf of
        None \<Rightarrow> Some (Ret 0, st)
      | Some bs \<Rightarrow>
          if sock = 0 \<or> bs = [] then Some (Ret 0, st)
          else do {
            s \<leftarrow> socks st sock;
            if u_peer s = 0 \<or> u_peer_closed s then Some (Ret (- EPIPE), st)
            else unix_write_loop sock (u_peer s) nonblock bs 0 st
          })"

definition unix_write_resume :: "nat \<Rightarrow> nat \<Rightarrow> bool \<Rightarrow> bytes \<Rightarrow> nat \<Rightarrow> unix_sys \<Rightarrow> ((int, bytes \<times> nat) outcome \<times> unix_sys) option" where
  "unix_write_resume sock dest nonblock rest written st = do {
     s \<leftarrow> socks st sock;
     unix_write_loop sock dest nonblock rest written (put_sock sock (s\<lparr>u_blocked_writer := None\<rparr>) st)
   }"

subsection \<open>Closing\<close>

definition unix_sock_free :: "nat \<Rightarrow> nat \<Rightarrow> unix_sys \<Rightarrow> unix_sys option" where
  "unix_sock_free hhdm sock st = do {
     s \<leftarrow> socks st sock;
     let h = fs_heap (u_fs st);
     let h1 = (if u_buffer s \<noteq> 0 then h\<lparr>hpmm := pmm_free_pages (of_nat (u_buffer s - hhdm)) 6 (hpmm h)\<rparr> else h);
     h2 \<leftarrow> kfree hhdm sock h1;
     Some ((set_heap h2 st)\<lparr>socks := (socks st)(sock := None)\<rparr>)
   }"

text \<open>The peer learns that the connection is gone and both of its tasks are woken.\<close>

definition unix_hangup :: "nat \<Rightarrow> unix_sys \<Rightarrow> unix_sys option" where
  "unix_hangup peer st =
     (if peer = 0 then Some st
      else do {
        p \<leftarrow> socks st peer;
        st1 \<leftarrow> wake_reader peer (on_sched io_wake_all (put_sock peer (p\<lparr>u_peer_closed := True\<rparr>) st));
        wake_writer peer st1
      })"

definition unix_socket_close :: "nat \<Rightarrow> nat \<Rightarrow> unix_sys \<Rightarrow> unix_sys option" where
  "unix_socket_close hhdm sock st =
     (if sock = 0 then Some st
      else do {
        s \<leftarrow> socks st sock;
        st1 \<leftarrow> unix_hangup (u_peer s) (put_sock sock (s\<lparr>u_state := UNIX_STATE_CLOSED, u_peer_closed := True\<rparr>) st);
        s1 \<leftarrow> socks st1 sock;
        let st2 = put_sock sock (s1\<lparr>u_ref_count := u_ref_count s1 - 1\<rparr>) st1;
        if u_ref_count s1 - 1 \<le> 0 then unix_sock_free hhdm sock st2 else Some st2
      })"

subsection \<open>Readiness\<close>

definition unix_socket_can_read :: "nat \<Rightarrow> unix_sys \<Rightarrow> bool option" where
  "unix_socket_can_read sock st =
     (if sock = 0 then Some False
      else map_option (\<lambda>s. if u_state s = UNIX_STATE_LISTENING then u_backlog_count s > 0
                           else count s > 0 \<or> u_peer_closed s) (socks st sock))"

definition unix_socket_can_write :: "nat \<Rightarrow> unix_sys \<Rightarrow> bool option" where
  "unix_socket_can_write sock st =
     (if sock = 0 then Some False
      else do {
        s \<leftarrow> socks st sock;
        if u_peer s = 0 \<or> u_peer_closed s then Some False
        else map_option (\<lambda>p. count p < UNIX_SOCK_BUF_SIZE) (socks st (u_peer s))
      })"

subsection \<open>The operations of the node\<close>

text \<open>The first descriptor of the calling process that refers to the node decides whether the call may block.\<close>

definition sock_nonblock :: "process option \<Rightarrow> nat \<Rightarrow> bool" where
  "sock_nonblock proc node =
     (case proc of
        None \<Rightarrow> False
      | Some pr \<Rightarrow>
          (case find (\<lambda>i. files pr i = node) [0..<MAX_OPEN_FILES] of
             None \<Rightarrow> False
           | Some i \<Rightarrow> file_flags pr i AND O_NONBLOCK \<noteq> 0))"

definition node_sock :: "nat \<Rightarrow> unix_sys \<Rightarrow> nat option" where
  "node_sock node st = (if node = 0 then Some 0 else map_option n_ptr (fs_nodes (u_fs st) node))"

definition vfs_sock_read ::
  "process option \<Rightarrow> nat \<Rightarrow> nat \<Rightarrow> nat \<Rightarrow> unix_sys \<Rightarrow> ((int \<times> bytes, nat) outcome \<times> unix_sys) option" where
  "vfs_sock_read proc node sz buffer st = do {
     sock \<leftarrow> node_sock node st;
     if sock = 0 then Some (Ret (- EBADF, []), st)
     else unix_socket_read sock buffer sz (sock_nonblock proc node) st
   }"

definition vfs_sock_write ::
  "process option \<Rightarrow> nat \<Rightarrow> bytes option \<Rightarrow> unix_sys \<Rightarrow> ((int, bytes \<times> nat) outcome \<times> unix_sys) option" where
  "vfs_sock_write proc node buffer st = do {
     sock \<leftarrow> node_sock node st;
     if sock = 0 then Some (Ret (- EBADF), st)
     else unix_socket_write sock buffer (sock_nonblock proc node) st
   }"

definition vfs_sock_close :: "nat \<Rightarrow> nat \<Rightarrow> unix_sys \<Rightarrow> unix_sys option" where
  "vfs_sock_close hhdm node st =
     (if node = 0 then Some st
      else do {
        sock \<leftarrow> node_sock node st;
        st1 \<leftarrow> unix_socket_close hhdm sock st;
        h \<leftarrow> kfree hhdm node (fs_heap (u_fs st1));
        Some (st1\<lparr>u_fs := (u_fs st1)\<lparr>fs_heap := h, fs_nodes := (fs_nodes (u_fs st1))(node := None)\<rparr>\<rparr>)
      })"

lemmas sock_ops = put_sock_def on_sched_def set_heap_def

subsection \<open>Connected pairs\<close>

text \<open>\<open>linked st a b s d\<close>: the open sockets \<open>s\<close> at \<open>a\<close> and \<open>d\<close> at \<open>b\<close> are each other's peer.\<close>

definition linked :: "unix_sys \<Rightarrow> nat \<Rightarrow> nat \<Rightarrow> unix_socket \<Rightarrow> unix_socket \<Rightarrow> bool" where
  "linked st a b s d \<longleftrightarrow> a \<noteq> 0 \<and> b \<noteq> 0 \<and> a \<noteq> b \<and> socks st a = Some s \<and> socks st b = Some d \<and> u_peer s = b \<and> u_peer d = a \<and>
     \<not> u_peer_closed s \<and> \<not> u_peer_closed d"

lemma ring_put_fields [simp]:
  "u_peer (ring_put cap b d) = u_peer d" "u_peer_closed (ring_put cap b d) = u_peer_closed d"
  "u_blocked_reader (ring_put cap b d) = u_blocked_reader d" "u_blocked_writer (ring_put cap b d) = u_blocked_writer d"
  by (simp_all add: ring_put_def)

lemma ring_read_fields:
  "ring_read cap n s = (bs, s') \<Longrightarrow> u_peer s' = u_peer s \<and> u_peer_closed s' = u_peer_closed (s :: unix_socket)"
proof (induction n arbitrary: s bs)
  case (Suc n)
  then show ?case by (fastforce simp: ring_get_def split: prod.splits)
qed simp

text \<open>The fields the wake-ups touch are not part of the ring.\<close>

lemma ring_contents_reader [simp]:
  "ring_contents cap (d\<lparr>u_blocked_reader := x\<rparr>) = ring_contents cap d" "ring_ok cap (d\<lparr>u_blocked_reader := x\<rparr>) = ring_ok cap d"
  by (simp_all add: ring_contents_def ring_ok_def)

lemma wake_reader_linked:
  assumes "linked st a b s d"
  obtains st' x where "wake_reader b st = Some st'" and "linked st' a b s (d\<lparr>u_blocked_reader := x\<rparr>)"
    and "\<forall>c. c \<noteq> b \<longrightarrow> socks st' c = socks st c"
proof (cases "u_blocked_reader d")
  case None
  then have "d\<lparr>u_blocked_reader := None\<rparr> = d" by simp
  with None assms show ?thesis by (intro that [of st None]) (simp_all add: wake_reader_def linked_def)
next
  case (Some t)
  with assms show ?thesis
    by (intro that [of "on_sched (sched_unblock (Some t)) (put_sock b (d\<lparr>u_blocked_reader := None\<rparr>) st)" None])
      (auto simp: wake_reader_def linked_def sock_ops)
qed

lemma wake_writer_ok:
  assumes "socks st a = Some s"
  obtains st' x where "wake_writer a st = Some st'" and "socks st' = (socks st)(a \<mapsto> s\<lparr>u_blocked_writer := x\<rparr>)" and "u_fs st' = u_fs st"
proof (cases "u_blocked_writer s")
  case None
  then have "s\<lparr>u_blocked_writer := None\<rparr> = s" by simp
  with None assms show ?thesis by (intro that [of st None]) (simp_all add: wake_writer_def fun_upd_idem)
next
  case (Some t)
  with assms show ?thesis
    by (intro that [of "on_sched (sched_unblock (Some t)) (put_sock a (s\<lparr>u_blocked_writer := None\<rparr>) st)" None])
      (auto simp: wake_writer_def sock_ops)
qed

subsection \<open>Streams\<close>

text \<open>
  A write that may not block puts the bytes that fit behind those of the peer's ring.
\<close>

lemma unix_write_loop_linked:
  assumes "linked st a b s d" and "ring_ok UNIX_SOCK_BUF_SIZE d" and "k = min (length bs) (UNIX_SOCK_BUF_SIZE - count d)"
  shows "\<exists>st' d'. unix_write_loop a b True bs w st =
      Some (Ret (if bs = [] \<or> 0 < w + k then int (w + k) else - EAGAIN), st') \<and>
    linked st' a b s d' \<and> ring_ok UNIX_SOCK_BUF_SIZE d' \<and>
    ring_contents UNIX_SOCK_BUF_SIZE d' = ring_contents UNIX_SOCK_BUF_SIZE d @ take k bs \<and>
    (\<forall>c. c \<noteq> b \<longrightarrow> socks st' c = socks st c)"
  using assms
proof (induction bs arbitrary: st d w k)
  case Nil
  then show ?case by (intro exI [of _ st] exI [of _ d]) simp
next
  case (Cons x rest)
  note l = Cons.prems(1) [unfolded linked_def]
  show ?case
  proof (cases "count d \<ge> UNIX_SOCK_BUF_SIZE")
    case True
    with Cons.prems l show ?thesis by (intro exI [of _ st] exI [of _ d]) (simp add: linked_def)
  next
    case False
    let ?d = "ring_put UNIX_SOCK_BUF_SIZE x d"
    let ?st = "on_sched io_wake_all (put_sock b ?d st)"
    have room: "count d < UNIX_SOCK_BUF_SIZE" using False by simp
    have "linked ?st a b s ?d" using l by (auto simp: linked_def sock_ops)
    then obtain st1 y where w1: "wake_reader b ?st = Some st1" "linked st1 a b s (?d\<lparr>u_blocked_reader := y\<rparr>)"
      "\<forall>c. c \<noteq> b \<longrightarrow> socks st1 c = socks ?st c" by (rule wake_reader_linked)
    let ?k = "min (length rest) (UNIX_SOCK_BUF_SIZE - count (?d\<lparr>u_blocked_reader := y\<rparr>))"
    have "ring_ok UNIX_SOCK_BUF_SIZE (?d\<lparr>u_blocked_reader := y\<rparr>)"
      using ring_put_contents(1) [OF Cons.prems(2) room] by simp
    from Cons.IH [OF w1(2) this refl, of "w + 1"] obtain st' d' where
      i: "unix_write_loop a b True rest (w + 1) st1 = Some (Ret (int (w + 1 + ?k)), st')" "linked st' a b s d'"
        "ring_ok UNIX_SOCK_BUF_SIZE d'"
        "ring_contents UNIX_SOCK_BUF_SIZE d' = ring_contents UNIX_SOCK_BUF_SIZE ?d @ take ?k rest"
        "\<forall>c. c \<noteq> b \<longrightarrow> socks st' c = socks st1 c" by auto
    have k: "k = Suc ?k" using Cons.prems(3) room by (simp add: ring_put_def)
    have "unix_write_loop a b True (x # rest) w st = unix_write_loop a b True rest (w + 1) st1"
      using l False w1(1) by simp
    moreover have "socks ?st c = socks st c" if "c \<noteq> b" for c using that by (simp add: sock_ops)
    ultimately show ?thesis
      using i k w1(3) ring_put_contents(2) [OF Cons.prems(2) room, of x] by (intro exI [of _ st'] exI [of _ d']) simp
  qed
qed

lemma unix_read_linked:
  assumes l: "linked st a b s d" and ok: "ring_ok UNIX_SOCK_BUF_SIZE d" and n: "0 < n" "buf \<noteq> 0" and c: "0 < count d"
    and m: "m = min n (count d)"
  shows "\<exists>st' d' x. unix_socket_read b buf n nb st = Some (Ret (int m, take m (ring_contents UNIX_SOCK_BUF_SIZE d)), st') \<and>
    linked st' a b (s\<lparr>u_blocked_writer := x\<rparr>) d' \<and> ring_ok UNIX_SOCK_BUF_SIZE d' \<and>
    ring_contents UNIX_SOCK_BUF_SIZE d' = drop m (ring_contents UNIX_SOCK_BUF_SIZE d)"
proof -
  note l' = l [unfolded linked_def]
  obtain bs d' where r: "ring_read UNIX_SOCK_BUF_SIZE m d = (bs, d')" by (cases "ring_read UNIX_SOCK_BUF_SIZE m d") auto
  have "m \<le> count d" using m by simp
  note rc = ring_read_contents [OF ok this r]
  note f = ring_read_fields [OF r]
  have "bs = take m (ring_contents UNIX_SOCK_BUF_SIZE d)" "ring_contents UNIX_SOCK_BUF_SIZE d' = drop m (ring_contents UNIX_SOCK_BUF_SIZE d)"
    using rc by (metis append_eq_conv_conj)+
  moreover have "socks (put_sock b d' st) a = Some s" using l' by (simp add: put_sock_def)
  then obtain st' x where w: "wake_writer a (put_sock b d' st) = Some st'"
    "socks st' = (socks (put_sock b d' st))(a \<mapsto> s\<lparr>u_blocked_writer := x\<rparr>)" by (rule wake_writer_ok)
  moreover have "linked st' a b (s\<lparr>u_blocked_writer := x\<rparr>) d'" using w(2) l' f by (simp add: linked_def put_sock_def)
  moreover have "unix_socket_read b buf n nb st = Some (Ret (int m, bs), st')"
    using l' n c r w(1) f m by (simp add: unix_socket_read_def unix_read_wait_def)
  ultimately show ?thesis using rc by blast
qed

text \<open>C33. A connection is a byte stream in each direction. On connected sockets \<open>a\<close> and \<open>b\<close> a non-blocking write at
  \<open>a\<close> accepts as many of the bytes as the ring of \<open>b\<close> has room for, and answers \<open>EAGAIN\<close> when it has none. A read at
  \<open>b\<close> then returns the oldest bytes first: those that were pending before the write, followed by the accepted ones. What
  it does not return stays pending, and the pair stays connected.\<close>

theorem unix_stream_fifo:
  assumes "linked st a b s d" and "ring_ok UNIX_SOCK_BUF_SIZE d" and "bs \<noteq> []" and "0 < n" and "buf \<noteq> 0"
    and "k = min (length bs) (UNIX_SOCK_BUF_SIZE - count d)"
    and "items = ring_contents UNIX_SOCK_BUF_SIZE d @ take k bs" and "m = min n (length items)"
  shows "\<exists>st1 st2 s2 d2. unix_socket_write a (Some bs) True st = Some (Ret (if k = 0 then - EAGAIN else int k), st1) \<and>
    unix_socket_read b buf n True st1 = Some (Ret (int m, take m items), st2) \<and>
    linked st2 a b s2 d2 \<and> ring_ok UNIX_SOCK_BUF_SIZE d2 \<and> ring_contents UNIX_SOCK_BUF_SIZE d2 = drop m items"
proof -
  from unix_write_loop_linked [OF assms(1,2,6), of 0] assms(3) obtain st1 d1 where
    w: "unix_write_loop a b True bs 0 st = Some (Ret (if k = 0 then - EAGAIN else int k), st1)" "linked st1 a b s d1"
      "ring_ok UNIX_SOCK_BUF_SIZE d1" "ring_contents UNIX_SOCK_BUF_SIZE d1 = items" using assms(7) by (auto split: if_splits)
  have c: "count d1 = length items" using w(4) length_ring_contents by metis
  have "0 < length items"
    using assms(2,3,6,7) by (cases "count d = 0") (auto simp: ring_contents_def)
  with c have "0 < count d1" by simp
  from unix_read_linked [OF w(2,3) assms(4,5) this, of m True] c assms(8) w(4) obtain st2 d2 x where
    "unix_socket_read b buf n True st1 = Some (Ret (int m, take m items), st2)" "linked st2 a b (s\<lparr>u_blocked_writer := x\<rparr>) d2"
    "ring_ok UNIX_SOCK_BUF_SIZE d2" "ring_contents UNIX_SOCK_BUF_SIZE d2 = drop m items" by auto
  moreover have "unix_socket_write a (Some bs) True st = unix_write_loop a b True bs 0 st"
    using assms(1,3) by (simp add: unix_socket_write_def linked_def)
  ultimately show ?thesis using w(1) by metis
qed

definition demo_pair :: unix_sys where
  "demo_pair = \<lparr>u_fs = demo_root, u_sched = two_tasks,
     socks = [5000 \<mapsto> zero_socket\<lparr>u_state := UNIX_STATE_CONNECTED, u_peer := 6000, u_ref_count := 1\<rparr>,
              6000 \<mapsto> zero_socket\<lparr>u_state := UNIX_STATE_CONNECTED, u_peer := 5000, u_ref_count := 1, rbuf := (\<lambda>_. 7),
                count := 1, write_pos := 1\<rparr>]\<rparr>"

abbreviation (input) demo_a :: unix_socket where "demo_a \<equiv> the (socks demo_pair 5000)"
abbreviation (input) demo_b :: unix_socket where "demo_b \<equiv> the (socks demo_pair 6000)"

lemma demo_pair_linked: "linked demo_pair 5000 6000 demo_a demo_b" "ring_ok UNIX_SOCK_BUF_SIZE demo_b"
  "ring_contents UNIX_SOCK_BUF_SIZE demo_b = [7]" "count demo_b = 1" "u_ref_count demo_a = 1"
  by (simp_all add: demo_pair_def linked_def zero_socket_def ring_ok_def ring_contents_def)

theorem unix_stream_fifo_witness:
  "\<exists>st1 st2 s2 d2. unix_socket_write 5000 (Some [8, 9]) True demo_pair = Some (Ret 2, st1) \<and>
    unix_socket_read 6000 4096 2 True st1 = Some (Ret (2, [7, 8]), st2) \<and>
    linked st2 5000 6000 s2 d2 \<and> ring_ok UNIX_SOCK_BUF_SIZE d2 \<and> ring_contents UNIX_SOCK_BUF_SIZE d2 = [9]"
  using unix_stream_fifo [OF demo_pair_linked(1,2), of "[8, 9]" 2 4096 2 "[7, 8, 9]" 2] demo_pair_linked(3,4) by simp

subsection \<open>Closing one end\<close>

lemma wake_reader_ok:
  assumes "socks st a = Some s"
  obtains st' x where "wake_reader a st = Some st'" and "socks st' = (socks st)(a \<mapsto> s\<lparr>u_blocked_reader := x\<rparr>)" and "u_fs st' = u_fs st"
proof (cases "u_blocked_reader s")
  case None
  then have "s\<lparr>u_blocked_reader := None\<rparr> = s" by simp
  with None assms show ?thesis by (intro that [of st None]) (simp_all add: wake_reader_def fun_upd_idem)
next
  case (Some t)
  with assms show ?thesis
    by (intro that [of "on_sched (sched_unblock (Some t)) (put_sock a (s\<lparr>u_blocked_reader := None\<rparr>) st)" None])
      (auto simp: wake_reader_def sock_ops)
qed

lemma unix_hangup_ok:
  assumes "socks st b = Some d" and "b \<noteq> 0"
  obtains st' x y where "unix_hangup b st = Some st'" and "u_fs st' = u_fs st"
    and "socks st' = (socks st)(b \<mapsto> d\<lparr>u_peer_closed := True, u_blocked_reader := x, u_blocked_writer := y\<rparr>)"
proof -
  let ?st = "on_sched io_wake_all (put_sock b (d\<lparr>u_peer_closed := True\<rparr>) st)"
  have "socks ?st b = Some (d\<lparr>u_peer_closed := True\<rparr>)" by (simp add: sock_ops)
  then obtain st1 x where a: "wake_reader b ?st = Some st1"
    "socks st1 = (socks ?st)(b \<mapsto> d\<lparr>u_peer_closed := True, u_blocked_reader := x\<rparr>)" "u_fs st1 = u_fs ?st" by (rule wake_reader_ok)
  then have "socks st1 b = Some (d\<lparr>u_peer_closed := True, u_blocked_reader := x\<rparr>)" by simp
  then obtain st2 y where b: "wake_writer b st1 = Some st2"
    "socks st2 = (socks st1)(b \<mapsto> d\<lparr>u_peer_closed := True, u_blocked_reader := x, u_blocked_writer := y\<rparr>)" "u_fs st2 = u_fs st1"
    by (rule wake_writer_ok)
  show ?thesis
    by (rule that [of st2 y x]) (use a b assms in \<open>simp_all add: unix_hangup_def sock_ops\<close>)
qed

lemma unix_sock_free_ok:
  assumes "socks st a = Some s" and "\<not> is_large (hmem (fs_heap (u_fs st))) a"
  obtains st' where "unix_sock_free hhdm a st = Some st'" and "socks st' = (socks st)(a := None)"
proof -
  define h where "h = (let h = fs_heap (u_fs st) in
    if u_buffer s \<noteq> 0 then h\<lparr>hpmm := pmm_free_pages (of_nat (u_buffer s - hhdm)) 6 (hpmm h)\<rparr> else h)"
  have "hmem h = hmem (fs_heap (u_fs st))" by (simp add: h_def Let_def)
  with assms(2) have "\<exists>h2. kfree hhdm a h = Some h2" unfolding kfree_def Let_def by (cases "a = 0") simp_all
  then obtain h2 where "kfree hhdm a h = Some h2" ..
  then have "unix_sock_free hhdm a st = Some ((set_heap h2 st)\<lparr>socks := (socks st)(a := None)\<rparr>)"
    using assms(1) by (simp add: unix_sock_free_def h_def Let_def)
  then show ?thesis by (rule that) simp
qed

text \<open>
  C34. Closing one end of a connection releases its socket but leaves the other end's pointer to it. The other end then
  can neither be closed nor deliver the bytes it still holds: both follow the pointer to the released socket.
\<close>

theorem unix_close_dangling:
  assumes "linked st a b s d" and "u_ref_count s = 1" and "\<not> is_large (hmem (fs_heap (u_fs st))) a"
  shows "\<exists>st' d'. unix_socket_close hhdm a st = Some st' \<and> socks st' a = None \<and>
    socks st' b = Some d' \<and> u_peer d' = a \<and> u_peer_closed d' \<and> ring_contents UNIX_SOCK_BUF_SIZE d' = ring_contents UNIX_SOCK_BUF_SIZE d \<and>
    unix_socket_close hhdm b st' = None \<and>
    (count d > 0 \<longrightarrow> unix_socket_read b buf (Suc n) nb st' = (if buf = 0 then Some (Ret (0, []), st') else None))"
proof -
  note l = assms(1) [unfolded linked_def]
  let ?s = "s\<lparr>u_state := UNIX_STATE_CLOSED, u_peer_closed := True\<rparr>"
  have "socks (put_sock a ?s st) b = Some d" using l by (simp add: put_sock_def)
  then obtain st1 x y where h: "unix_hangup b (put_sock a ?s st) = Some st1" "u_fs st1 = u_fs (put_sock a ?s st)"
    "socks st1 = (socks (put_sock a ?s st))(b \<mapsto> d\<lparr>u_peer_closed := True, u_blocked_reader := x, u_blocked_writer := y\<rparr>)"
    using l unix_hangup_ok by blast
  let ?d = "d\<lparr>u_peer_closed := True, u_blocked_reader := x, u_blocked_writer := y\<rparr>"
  obtain st' where c: "unix_socket_close hhdm a st = Some st'" "socks st' = (socks st1)(a := None)"
  proof -
    have e: "unix_socket_close hhdm a st = unix_sock_free hhdm a (put_sock a (?s\<lparr>u_ref_count := 0\<rparr>) st1)"
      using l h assms(2) by (simp add: unix_socket_close_def put_sock_def)
    have "u_fs (put_sock a (?s\<lparr>u_ref_count := 0\<rparr>) st1) = u_fs st" using h(2) by (simp add: put_sock_def)
    with assms(3) obtain st' where "unix_sock_free hhdm a (put_sock a (?s\<lparr>u_ref_count := 0\<rparr>) st1) = Some st'"
      "socks st' = (socks (put_sock a (?s\<lparr>u_ref_count := 0\<rparr>) st1))(a := None)"
      using unix_sock_free_ok [of "put_sock a (?s\<lparr>u_ref_count := 0\<rparr>) st1" a] by (auto simp: put_sock_def)
    with e show ?thesis by (intro that [of st']) (simp_all add: put_sock_def)
  qed
  have b: "socks st' a = None" "socks st' b = Some ?d" using c(2) h(3) l by simp_all
  have "unix_socket_close hhdm b st' = None" using b l by (simp add: unix_socket_close_def unix_hangup_def put_sock_def)
  moreover have "unix_socket_read b buf (Suc n) nb st' = (if buf = 0 then Some (Ret (0, []), st') else None)" if "count d > 0"
  proof -
    obtain bs d' where r: "ring_read UNIX_SOCK_BUF_SIZE (min (Suc n) (count d)) ?d = (bs, d')" by fastforce
    with ring_read_fields [OF r] that b l show ?thesis
      by (auto simp: unix_socket_read_def unix_read_wait_def wake_writer_def put_sock_def)
  qed
  moreover have "ring_contents UNIX_SOCK_BUF_SIZE ?d = ring_contents UNIX_SOCK_BUF_SIZE d" by (simp add: ring_contents_def)
  ultimately show ?thesis using b c(1) l by (intro exI [of _ st'] exI [of _ ?d]) simp
qed

theorem unix_close_dangling_witness:
  "\<exists>st' d'. unix_socket_close 0 5000 demo_pair = Some st' \<and> socks st' 6000 = Some d' \<and> u_peer d' = 5000 \<and> socks st' 5000 = None \<and>
    ring_contents UNIX_SOCK_BUF_SIZE d' = [7] \<and>
    unix_socket_close 0 6000 st' = None \<and> unix_socket_read 6000 4096 1 True st' = None"
proof -
  have "\<not> is_large (hmem (fs_heap (u_fs demo_pair))) 5000" by (simp add: is_large_def)
  from unix_close_dangling [OF demo_pair_linked(1,5) this, of 0 4096 0 True] demo_pair_linked(3,4) show ?thesis
    by fastforce
qed

subsection \<open>Binding in the root directory\<close>

lemma strrchr_from_none: "c \<notin> set s \<Longrightarrow> 0 \<notin> set s \<Longrightarrow> c \<noteq> 0 \<Longrightarrow> strrchr_from (s @ [0]) c i l = Some l"
  by (induction s arbitrary: i) (auto simp: Let_def)

lemma split_path_root:
  assumes "47 \<notin> set nm" and "0 \<notin> set nm"
  shows "split_path (47 # nm) = Some ([47], [])"
proof -
  have "47 \<notin> set (take 106 nm)" "0 \<notin> set (take 106 nm)" using assms by (auto dest: in_set_takeD)
  then have "strrchr (47 # take 106 nm @ [0]) 47 = Some (Some 0)"
    using strrchr_from_none [of 47 "take 106 nm" 1 "Some 0"] by (simp add: strrchr_def)
  moreover have "(take 106 nm @ [0])[0 := 0 :: u8] = 0 # drop 1 (take 106 nm @ [0])" by (cases nm) simp_all
  ultimately show ?thesis by (simp add: split_path_def)
qed

text \<open>
  C35. A socket cannot be bound to a name in the root directory: for every path \<open>/name\<close> the call fails and the
  socket is as before.
\<close>

theorem unix_bind_root_fails:
  assumes "47 \<notin> set nm" and "0 \<notin> set nm" and "unix_socket_bind hhdm oom env sock (Some (47 # nm)) st = Some (r, st')"
  shows "r \<in> {- EINVAL, - ENOENT, - EIO} \<and> socks st' = socks st"
  using assms(3) split_path_root [OF assms(1,2)]
  by (auto simp: unix_socket_bind_def vfs_create_def split: if_splits bind_splits prod.splits)

definition demo_unbound :: unix_sys where
  "demo_unbound = demo_pair\<lparr>socks := [5000 \<mapsto> zero_socket\<lparr>u_ref_count := 1\<rparr>]\<rparr>"

lemma demo_root_open:
  "vfs_open 0 id env (Some (cstr ''/s'')) 0 demo_root = Some (0, demo_root)"
  "vfs_open 0 id env (Some (cstr ''/'')) 0 demo_root = Some (64, demo_root)"
proof -
  have "components [47, 115] = [[115]]" "components [47] = []" by code_simp+
  then have "vfs_resolve_path 0 id env (Some (cstr ''/s'')) demo_root = Some (0, demo_root)"
    "vfs_resolve_path 0 id env (Some (cstr ''/'')) demo_root = Some (64, demo_root)"
    using path_loop_walk [of "[115]" 64 env "[]" demo_root]
    by (simp_all add: vfs_resolve_path_def demo_root_def cstr_def mounted_def has_flag_def zero_node_def walk_step_def vfs_finddir_def
      tokens_delim)
  then show "vfs_open 0 id env (Some (cstr ''/s'')) 0 demo_root = Some (0, demo_root)"
    "vfs_open 0 id env (Some (cstr ''/'')) 0 demo_root = Some (64, demo_root)"
    by (simp_all add: vfs_open_def demo_root_def zero_node_def)
qed

theorem unix_bind_root_fails_witness:
  "\<forall>env. unix_socket_bind 0 id env 5000 (Some (cstr ''/s'')) demo_unbound = Some (- EIO, demo_unbound) \<and>
    - EIO \<in> {- EINVAL, - ENOENT, - EIO :: int}"
proof
  fix env
  have s: "cstr ''/s'' = 47 # [115]" "cstr ''/'' = [47]" by (simp_all add: cstr_def)
  have "split_path (cstr ''/s'') = Some ([47], [])" using split_path_root [of "[115]"] s by simp
  then have b: "unix_socket_bind 0 id env 5000 (Some (cstr ''/s'')) demo_unbound = Some (- EIO, demo_unbound)"
    using demo_root_open [of env] s(2)
    by (simp add: unix_socket_bind_def unlink_existing_def vfs_create_def demo_unbound_def demo_pair_def zero_socket_def)
  with unix_bind_root_fails [of "[115]" 0 id env 5000 demo_unbound "- EIO" demo_unbound] s(1)
  show "unix_socket_bind 0 id env 5000 (Some (cstr ''/s'')) demo_unbound = Some (- EIO, demo_unbound) \<and>
    - EIO \<in> {- EINVAL, - ENOENT, - EIO :: int}" by simp
qed

end
