(* ===== verification/Net.thy ===== *)
theory Net
  imports Objects Kstring "HOL-Library.Monad_Syntax"
begin

section \<open>The network stack below TCP (\<open>kernel/net\<close>)\<close>

text \<open>
  Ethernet, ARP, IPv4, ICMP, UDP and the DNS, DHCP and NTP clients on top of UDP, with the receive loop and the
  transmit function of the RTL8139 driver below. A received packet is a view of the receive ring: a function from
  offsets to bytes, so that a handler that reads behind the packet reads what the ring holds there. Frames handed to
  the card are recorded in \<open>sent\<close>. The parts of the stack that are not modelled, TCP and the socket layer, are functions
  of the environment \<open>net_env\<close>. Writing over the end of a local buffer has no value (\<open>None\<close>). Output to the
  terminal and the serial port is left out.
\<close>

subsection \<open>Data\<close>

definition HTONS :: "u16 \<Rightarrow> u16" where
  "HTONS n = drop_bit 8 (n AND 0xFF00) OR push_bit 8 (n AND 0x00FF)"

definition HTONL :: "u32 \<Rightarrow> u32" where
  "HTONL n = drop_bit 24 (n AND 0xFF000000) OR drop_bit 8 (n AND 0x00FF0000) OR
     push_bit 8 (n AND 0x0000FF00) OR push_bit 24 (n AND 0x000000FF)"

definition r16 :: "mem \<Rightarrow> nat \<Rightarrow> u16" where
  "r16 m p = ucast (m p) OR push_bit 8 (ucast (m (p + 1)))"

definition view :: "mem \<Rightarrow> nat \<Rightarrow> nat \<Rightarrow> bytes" where
  "view m p n = map (\<lambda>i. m (p + i)) [0..<n]"

record net_interface =
  if_name :: bytes
  if_mac :: bytes
  if_ip :: u32
  if_subnet_mask :: u32
  if_gateway_ip :: u32
  if_send :: bool

record arp_entry =
  ae_ip :: u32
  ae_mac :: bytes
  ae_valid :: bool

text \<open>The functions that are bound to ports.\<close>

datatype udp_callback = NoCallback | NtpCallback | DnsCallback | DhcpCallback

record udp_socket =
  us_local_port :: u16
  us_callback :: udp_callback
  us_active :: bool

text \<open>An entry of the receive ring: status, length with the checksum of the frame, and the bytes.\<close>

type_synonym rx_entry = "u16 \<times> u16 \<times> mem"

text \<open>
  \<open>rx\<close> is what the card has received when the driver looks: one list of entries for every poll to come. A record of
  \<open>sent\<close> is the transmit descriptor, the length in the status register and the bytes.
\<close>

record net_state =
  arp_cache :: "arp_entry list"
  interfaces :: "nat list"
  ifs :: "nat \<Rightarrow> net_interface"
  udp_sockets :: "udp_socket list"
  net_heap :: heap
  resolved_ip :: u32
  last_queried_name :: bytes
  dns_bound :: bool
  ntp_bound :: bool
  dhcp_completed :: bool
  rtl_initialized :: bool
  tx_cur_desc :: nat
  sent :: "(nat \<times> u32 \<times> bytes) list"
  rx :: "rx_entry list list"

record net_env =
  env_hhdm :: nat
  env_oom :: "pmm \<Rightarrow> pmm"
  handle_tcp :: "nat \<Rightarrow> mem \<Rightarrow> u32 \<Rightarrow> net_state \<Rightarrow> net_state option"
  sock_udp_deliver :: "u16 \<Rightarrow> u32 \<Rightarrow> u16 \<Rightarrow> bytes \<Rightarrow> net_state \<Rightarrow> net_state option"

abbreviation (input) ARP_CACHE_SIZE :: nat where "ARP_CACHE_SIZE \<equiv> 32"
abbreviation (input) MAX_UDP_SOCKETS :: nat where "MAX_UDP_SOCKETS \<equiv> 64"
abbreviation (input) MAX_INTERFACES :: nat where "MAX_INTERFACES \<equiv> 4"
abbreviation (input) ETH_HDR :: nat where "ETH_HDR \<equiv> 14"
abbreviation (input) IP_HDR :: nat where "IP_HDR \<equiv> 20"

subsection \<open>Interfaces and frames\<close>

definition net_register_interface :: "nat \<Rightarrow> net_state \<Rightarrow> net_state" where
  "net_register_interface iface st =
     (if length (interfaces st) < MAX_INTERFACES then st\<lparr>interfaces := interfaces st @ [iface]\<rparr> else st)"

definition net_get_interface :: "bytes \<Rightarrow> net_state \<Rightarrow> nat" where
  "net_get_interface name st =
     (case find (\<lambda>i. if_name (ifs st i) = name) (interfaces st) of Some i \<Rightarrow> i | None \<Rightarrow> 0)"

definition net_get_primary_interface :: "net_state \<Rightarrow> nat" where
  "net_get_primary_interface st = (if interfaces st \<noteq> [] then hd (interfaces st) else 0)"

definition rtl8139_send_packet :: "bytes \<Rightarrow> net_state \<Rightarrow> net_state" where
  "rtl8139_send_packet data st =
     (if \<not> rtl_initialized st then st
      else
        let len = length data; send_len = (if len < 60 then 60 else len)
        in st\<lparr>sent := sent st @ [(tx_cur_desc st, of_nat send_len AND 0x1FFF, data @ replicate (60 - len) 0)],
              tx_cur_desc := (tx_cur_desc st + 1) mod 4\<rparr>)"

definition net_send_packet :: "nat \<Rightarrow> bytes \<Rightarrow> u16 \<Rightarrow> bytes \<Rightarrow> net_state \<Rightarrow> net_state" where
  "net_send_packet iface dest_mac ethertype payload st =
     (if length payload > 1500 then st
      else if iface = 0 then st
      else if if_send (ifs st iface)
           then rtl8139_send_packet (dest_mac @ if_mac (ifs st iface) @ le16 (HTONS ethertype) @ payload) st
           else st)"

subsection \<open>ARP\<close>

definition arp_match :: "u32 \<Rightarrow> arp_entry \<Rightarrow> bool" where
  "arp_match ip e \<longleftrightarrow> ae_valid e \<and> ae_ip e = ip"

text \<open>The first index that satisfies a condition, as the search loops find it.\<close>

definition first_index :: "('a \<Rightarrow> bool) \<Rightarrow> 'a list \<Rightarrow> nat option" where
  "first_index P xs = find (\<lambda>i. P (xs ! i)) [0..<length xs]"

definition arp_update_cache :: "u32 \<Rightarrow> bytes \<Rightarrow> arp_entry list \<Rightarrow> arp_entry list" where
  "arp_update_cache ip mac c =
     (case first_index (arp_match ip) c of
        Some i \<Rightarrow> c[i := (c ! i)\<lparr>ae_mac := mac\<rparr>]
      | None \<Rightarrow>
          (case first_index (\<lambda>e. \<not> ae_valid e) c of
             Some i \<Rightarrow> c[i := \<lparr>ae_ip = ip, ae_mac = mac, ae_valid = True\<rparr>]
           | None \<Rightarrow> c))"

definition arp_lookup :: "u32 \<Rightarrow> arp_entry list \<Rightarrow> bytes option" where
  "arp_lookup ip c = map_option (\<lambda>i. ae_mac (c ! i)) (first_index (arp_match ip) c)"

definition arp_payload :: "u16 \<Rightarrow> net_interface \<Rightarrow> bytes \<Rightarrow> u32 \<Rightarrow> bytes" where
  "arp_payload oper iface tha tpa =
     le16 (HTONS 1) @ le16 (HTONS 0x0800) @ [6, 4] @ le16 (HTONS oper) @
     if_mac iface @ le32 (HTONL (if_ip iface)) @ tha @ le32 (HTONL tpa)"

definition send_arp_request :: "nat \<Rightarrow> u32 \<Rightarrow> net_state \<Rightarrow> net_state" where
  "send_arp_request iface target_ip st =
     net_send_packet iface (replicate 6 0xFF) 0x0806 (arp_payload 1 (ifs st iface) (replicate 6 0) target_ip) st"

definition send_arp_reply :: "nat \<Rightarrow> bytes \<Rightarrow> u32 \<Rightarrow> net_state \<Rightarrow> net_state" where
  "send_arp_reply iface dest_mac dest_ip st =
     net_send_packet iface dest_mac 0x0806 (arp_payload 2 (ifs st iface) dest_mac dest_ip) st"

definition handle_arp :: "nat \<Rightarrow> mem \<Rightarrow> net_state \<Rightarrow> net_state" where
  "handle_arp iface packet st =
     (let arp = ETH_HDR;
          sha = view packet (arp + 8) 6;
          spa = HTONL (r32 packet (arp + 14));
          st1 = st\<lparr>arp_cache := arp_update_cache spa sha (arp_cache st)\<rparr>
      in if r16 packet (arp + 6) = HTONS 1 \<and> HTONL (r32 packet (arp + 24)) = if_ip (ifs st1 iface)
         then send_arp_reply iface sha spa st1 else st1)"

subsection \<open>IPv4\<close>

text \<open>The sum over the 16-bit words in memory order; an odd byte at the end counts as a word of its own.\<close>

fun sum16 :: "bytes \<Rightarrow> u32 \<Rightarrow> u32" where
  "sum16 (a # b # bs) s = sum16 bs (s + ucast (ucast a OR push_bit 8 (ucast b) :: u16))"
| "sum16 [a] s = s + ucast a"
| "sum16 [] s = s"

lemma unat_fold16:
  "unat ((s AND 0xFFFF) + drop_bit 16 s) = unat s mod 65536 + unat (s :: u32) div 65536" "unat (drop_bit 16 s) = unat s div 65536"
proof -
  have m: "(0xFFFF :: u32) = mask 16" by (simp add: mask_eq_exp_minus_1)
  have a: "unat (s AND 0xFFFF) = unat s mod 65536"
    unfolding m by (simp add: take_bit_eq_mod unat_mod flip: take_bit_eq_mask)
  show d: "unat (drop_bit 16 s) = unat s div 65536" by (simp add: drop_bit_eq_div unat_div)
  have "unat s < 2 ^ 32" using unsigned_less [of s] by simp
  then have "unat s mod 65536 + unat s div 65536 < 2 ^ 32" by simp
  then show "unat ((s AND 0xFFFF) + drop_bit 16 s) = unat s mod 65536 + unat s div 65536"
    using a d by (simp add: unat_word_ariths)
qed

lemma fold16_less: "drop_bit 16 s \<noteq> 0 \<Longrightarrow> unat ((s AND 0xFFFF) + drop_bit 16 s) < unat (s :: u32)"
proof -
  assume "drop_bit 16 s \<noteq> 0"
  then have "0 < unat s div 65536" using unat_fold16(2) by (metis gr0I unat_eq_zero)
  then show ?thesis unfolding unat_fold16(1) using div_mult_mod_eq [of "unat s" 65536] by linarith
qed

function fold16 :: "u32 \<Rightarrow> u32" where
  "fold16 s = (if drop_bit 16 s \<noteq> 0 then fold16 ((s AND 0xFFFF) + drop_bit 16 s) else s)"
  by auto
termination fold16
  by (relation "measure unat") (simp_all add: fold16_less)

declare fold16.simps [simp del]

definition ip_checksum :: "bytes \<Rightarrow> u16" where
  "ip_checksum data = ucast (NOT (fold16 (sum16 data 0)))"

definition ipv4_header :: "net_interface \<Rightarrow> u32 \<Rightarrow> u8 \<Rightarrow> nat \<Rightarrow> u16 \<Rightarrow> bytes" where
  "ipv4_header iface dest_ip proto payload_len checksum =
     [0x45, 0] @ le16 (HTONS (of_nat (IP_HDR + payload_len))) @ le16 (HTONS 1) @ le16 0 @ [64, proto] @ le16 checksum @
     le32 (HTONL (if_ip iface)) @ le32 (HTONL dest_ip)"

text \<open>The 50 rounds of waiting for an answer to the ARP request.\<close>

fun arp_wait :: "(net_state \<Rightarrow> net_state option) \<Rightarrow> nat \<Rightarrow> u32 \<Rightarrow> net_state \<Rightarrow> (bytes option \<times> net_state) option" where
  "arp_wait poll 0 target_ip st = Some (None, st)"
| "arp_wait poll (Suc n) target_ip st =
     (case poll st of
        None \<Rightarrow> None
      | Some st1 \<Rightarrow>
          (case arp_lookup target_ip (arp_cache st1) of
             Some mac \<Rightarrow> Some (Some mac, st1)
           | None \<Rightarrow> arp_wait poll n target_ip st1))"

definition next_hop :: "net_interface \<Rightarrow> u32 \<Rightarrow> u32" where
  "next_hop iface dest_ip =
     (if dest_ip AND if_subnet_mask iface \<noteq> if_ip iface AND if_subnet_mask iface then if_gateway_ip iface else dest_ip)"

text \<open>The packet is built in a local buffer of 1600 bytes. The interface is read again after the wait.\<close>

definition ipv4_send_packet ::
  "(net_state \<Rightarrow> net_state option) \<Rightarrow> nat \<Rightarrow> u32 \<Rightarrow> u8 \<Rightarrow> bytes \<Rightarrow> net_state \<Rightarrow> net_state option" where
  "ipv4_send_packet poll iface dest_ip proto payload st =
     (if iface = 0 then Some st
      else do {
        let target_ip = next_hop (ifs st iface) dest_ip;
        (dest_mac, st1) \<leftarrow> (case arp_lookup target_ip (arp_cache st) of
            Some mac \<Rightarrow> Some (Some mac, st)
          | None \<Rightarrow> arp_wait poll 50 target_ip (send_arp_request iface target_ip st));
        (case dest_mac of
          None \<Rightarrow> Some st1
        | Some mac \<Rightarrow>
            if IP_HDR + length payload > 1600 then None
            else
              let hdr = ipv4_header (ifs st1 iface) dest_ip proto (length payload);
                  checksum = ip_checksum (hdr 0)
              in Some (net_send_packet iface mac 0x0800 (hdr checksum @ payload) st1))
      })"

subsection \<open>ICMP\<close>

definition icmp_checksum :: "bytes \<Rightarrow> u16" where
  "icmp_checksum data = ucast (NOT (fold16 (sum16 data 0)))"

definition icmp_header :: "u8 \<Rightarrow> u8 \<Rightarrow> u16 \<Rightarrow> u16 \<Rightarrow> u16 \<Rightarrow> bytes" where
  "icmp_header type code checksum ident seq = [type, code] @ le16 checksum @ le16 ident @ le16 seq"

definition handle_icmp :: "(net_state \<Rightarrow> net_state option) \<Rightarrow> nat \<Rightarrow> mem \<Rightarrow> nat \<Rightarrow> net_state \<Rightarrow> net_state option" where
  "handle_icmp poll iface packet ip_hdr_len st =
     (let icmp = ETH_HDR + ip_hdr_len in
      if packet icmp = 8 then
        let ident = r16 packet (icmp + 4);
            seq = r16 packet (icmp + 6);
            checksum = icmp_checksum (icmp_header 0 0 0 ident seq)
        in ipv4_send_packet poll iface (HTONL (r32 packet (ETH_HDR + 12))) 1 (icmp_header 0 0 checksum ident seq) st
      else Some st)"

definition icmp_send_echo_request :: "(net_state \<Rightarrow> net_state option) \<Rightarrow> nat \<Rightarrow> u32 \<Rightarrow> net_state \<Rightarrow> net_state option" where
  "icmp_send_echo_request poll iface dest_ip st =
     (if iface = 0 then Some st
      else
        let checksum = icmp_checksum (icmp_header 8 0 0 (HTONS 0x1234) (HTONS 1))
        in ipv4_send_packet poll iface dest_ip 1 (icmp_header 8 0 checksum (HTONS 0x1234) (HTONS 1)) st)"

subsection \<open>UDP\<close>

definition udp_init :: "net_state \<Rightarrow> net_state" where
  "udp_init st = st\<lparr>udp_sockets := replicate MAX_UDP_SOCKETS \<lparr>us_local_port = 0, us_callback = NoCallback, us_active = False\<rparr>\<rparr>"

definition udp_bind :: "u16 \<Rightarrow> udp_callback \<Rightarrow> net_state \<Rightarrow> bool \<times> net_state" where
  "udp_bind port callback st =
     (case first_index (\<lambda>u. \<not> us_active u) (udp_sockets st) of
        Some i \<Rightarrow> (True, st\<lparr>udp_sockets := (udp_sockets st)[i := \<lparr>us_local_port = port, us_callback = callback, us_active = True\<rparr>]\<rparr>)
      | None \<Rightarrow> (False, st))"

definition store_bytes :: "nat \<Rightarrow> bytes \<Rightarrow> mem \<Rightarrow> mem" where
  "store_bytes p bs m = (\<lambda>x. if p \<le> x \<and> x < p + length bs then bs ! (x - p) else m x)"

definition udp_packet :: "u16 \<Rightarrow> u16 \<Rightarrow> bytes \<Rightarrow> bytes" where
  "udp_packet src_port dest_port data =
     le16 (HTONS src_port) @ le16 (HTONS dest_port) @ le16 (HTONS (of_nat (8 + length data))) @ le16 0 @ data"

text \<open>
  The packet is built in a heap object that is released after the transmission. Its size is computed in 32 bits; where
  that wraps around the copy leaves the object.
\<close>

definition udp_send_packet ::
  "net_env \<Rightarrow> (net_state \<Rightarrow> net_state option) \<Rightarrow> nat \<Rightarrow> u32 \<Rightarrow> u16 \<Rightarrow> u16 \<Rightarrow> bytes \<Rightarrow> net_state \<Rightarrow> net_state option" where
  "udp_send_packet env poll iface dest_ip src_port dest_port data st =
     (if iface = 0 then Some st
      else if 8 + length data \<ge> 2 ^ 32 then None
      else do {
        let packet = udp_packet src_port dest_port data;
        (buffer, h) \<leftarrow> kmalloc (env_hhdm env) (env_oom env) (of_nat (8 + length data)) (net_heap st);
        if buffer = 0 then Some (st\<lparr>net_heap := h\<rparr>)
        else do {
          let st1 = st\<lparr>net_heap := h\<lparr>hmem := store_bytes buffer packet (hmem h)\<rparr>\<rparr>;
          st2 \<leftarrow> ipv4_send_packet poll iface dest_ip 17 packet st1;
          h2 \<leftarrow> kfree (env_hhdm env) buffer (net_heap st2);
          Some (st2\<lparr>net_heap := h2\<rparr>)
        }
      })"

subsection \<open>NTP and DNS\<close>

text \<open>The Unix time of an answer, for the message the callback prints.\<close>

definition ntp_callback :: "mem \<Rightarrow> nat \<Rightarrow> u32 option" where
  "ntp_callback data len =
     (if len < 48 then None
      else
        let ntp_sec = push_bit 24 (ucast (data 40)) OR push_bit 16 (ucast (data 41)) OR push_bit 8 (ucast (data 42)) OR ucast (data 43) :: u32
        in if ntp_sec > 0 then Some (ntp_sec - 2208988800) else None)"

definition send_ntp_request :: "net_env \<Rightarrow> (net_state \<Rightarrow> net_state option) \<Rightarrow> nat \<Rightarrow> net_state \<Rightarrow> net_state option" where
  "send_ntp_request env poll iface st =
     (if iface = 0 then Some st
      else
        let st1 = (if \<not> ntp_bound st then (snd (udp_bind 1234 NtpCallback st))\<lparr>ntp_bound := True\<rparr> else st)
        in udp_send_packet env poll iface 0xA29FC801 1234 123 (0x23 # replicate 47 0) st1)"

text \<open>The loop over the characters: \<open>lck\<close> is the start of the label, \<open>i\<close> the position.\<close>

fun dns_labels :: "bytes \<Rightarrow> nat list \<Rightarrow> nat \<Rightarrow> bytes" where
  "dns_labels temp [] lck = []"
| "dns_labels temp (i # is) lck =
     (if temp ! i = 46 then of_nat (i - lck) # take (i - lck) (drop lck temp) @ dns_labels temp is (i + 1)
      else dns_labels temp is lck)"

definition dns_format_name :: "bytes \<Rightarrow> bytes" where
  "dns_format_name host =
     (if length host > 250 then []
      else let temp = host @ [46] in dns_labels temp [0..<length temp] 0 @ [0])"

function dns_skip_name :: "mem \<Rightarrow> nat \<Rightarrow> nat \<Rightarrow> nat" where
  "dns_skip_name data ptr fin =
     (if ptr < fin then
        let b = data ptr in
        if b = 0 then ptr + 1
        else if b AND 0xC0 = 0xC0 then (if ptr + 2 \<le> fin then ptr + 2 else fin)
        else if ptr + 1 + unat b \<ge> fin then fin
        else dns_skip_name data (ptr + 1 + unat b) fin
      else fin)"
  by auto
termination dns_skip_name
  by (relation "measure (\<lambda>(data, ptr, fin). fin - ptr)") auto

declare dns_skip_name.simps [simp del]

fun dns_questions :: "mem \<Rightarrow> nat \<Rightarrow> nat \<Rightarrow> nat \<Rightarrow> nat" where
  "dns_questions data 0 ptr fin = ptr"
| "dns_questions data (Suc n) ptr fin =
     (if ptr < fin then dns_questions data n (dns_skip_name data ptr fin + 4) fin else ptr)"

definition rd16be :: "mem \<Rightarrow> nat \<Rightarrow> u16" where
  "rd16be m p = push_bit 8 (ucast (m p)) OR ucast (m (p + 1))"

definition rd32be :: "mem \<Rightarrow> nat \<Rightarrow> u32" where
  "rd32be m p = push_bit 24 (ucast (m p)) OR push_bit 16 (ucast (m (p + 1))) OR push_bit 8 (ucast (m (p + 2))) OR ucast (m (p + 3))"

text \<open>The address of the first A record.\<close>

fun dns_answers :: "mem \<Rightarrow> nat \<Rightarrow> nat \<Rightarrow> nat \<Rightarrow> u32 option" where
  "dns_answers data 0 ptr fin = None"
| "dns_answers data (Suc n) ptr fin =
     (if ptr + 10 \<le> fin then
        let p = dns_skip_name data ptr fin in
        if p + 10 > fin then None
        else
          let type = rd16be data p; rdlen = unat (rd16be data (p + 8)); q = p + 10 in
          if q + rdlen > fin then None
          else if type = 1 \<and> rdlen = 4 then Some (rd32be data q)
          else dns_answers data n (q + rdlen) fin
      else None)"

definition dns_callback :: "mem \<Rightarrow> nat \<Rightarrow> net_state \<Rightarrow> net_state" where
  "dns_callback data len st =
     (if len < 12 then st
      else
        let nq = unat (HTONS (r16 data 4)); nan = unat (HTONS (r16 data 6)) in
        if nan = 0 then st
        else case dns_answers data nan (dns_questions data nq 12 len) len of
               Some ip \<Rightarrow> st\<lparr>resolved_ip := ip\<rparr>
             | None \<Rightarrow> st)"

text \<open>The query in its buffer of 512 bytes: header, name, type and class.\<close>

definition dns_packet :: "bytes \<Rightarrow> bytes" where
  "dns_packet hostname =
     (let hdr = le16 (HTONS 0xBEEF) @ le16 (HTONS 0x0100) @ le16 (HTONS 1) @ replicate 6 0;
          buf = hdr @ dns_format_name hostname;
          buffer = buf @ replicate (512 - length buf) 0;
          qname_len = length (takeWhile (\<lambda>c. c \<noteq> 0) (drop 12 buffer)) + 1;
          qinfo = 12 + qname_len
      in take (12 + qname_len + 4) (buffer[qinfo + 1 := 1, qinfo + 3 := 1]))"

definition dns_query :: "net_env \<Rightarrow> (net_state \<Rightarrow> net_state option) \<Rightarrow> nat \<Rightarrow> bytes \<Rightarrow> u32 \<Rightarrow> net_state \<Rightarrow> net_state option" where
  "dns_query env poll iface hostname server_ip st =
     (if iface = 0 then Some st
      else
        let st1 = (if \<not> dns_bound st then (snd (udp_bind 53535 DnsCallback st))\<lparr>dns_bound := True\<rparr> else st);
            st2 = st1\<lparr>resolved_ip := 0, last_queried_name := take 127 hostname\<rparr>
        in udp_send_packet env poll iface server_ip 53535 53 (dns_packet hostname) st2)"

definition dns_get_result :: "bytes \<Rightarrow> net_state \<Rightarrow> u32" where
  "dns_get_result hostname st = (if last_queried_name st = hostname then resolved_ip st else 0)"

subsection \<open>DHCP\<close>

record dhcp_options =
  msg_type :: u8
  server_id :: u32
  subnet_mask :: u32
  gateway :: u32

text \<open>The options are read from 240 on. Every round moves on, so the loop ends at the end of the packet.\<close>

function dhcp_parse :: "mem \<Rightarrow> nat \<Rightarrow> nat \<Rightarrow> dhcp_options \<Rightarrow> dhcp_options" where
  "dhcp_parse data opt len opts =
     (if data opt \<noteq> 0xFF \<and> opt < len then
        if data opt = 0 then dhcp_parse data (opt + 1) len opts
        else
          let code = data opt; opt_len = data (opt + 1); v = opt + 2;
              o1 = (if code = 53 then opts\<lparr>msg_type := data v\<rparr>
                    else if code = 1 \<and> opt_len = 4 then opts\<lparr>subnet_mask := r32 data v\<rparr>
                    else if code = 3 \<and> opt_len \<ge> 4 then opts\<lparr>gateway := r32 data v\<rparr>
                    else if code = 54 \<and> opt_len = 4 then opts\<lparr>server_id := r32 data v\<rparr> else opts)
          in dhcp_parse data (v + unat opt_len) len o1
      else opts)"
  by auto
termination dhcp_parse
  by (relation "measure (\<lambda>(data, opt, len, opts). len - opt)") auto

declare dhcp_parse.simps [simp del]

abbreviation (input) DHCP_XID :: u32 where "DHCP_XID \<equiv> 0x55AA1234"
abbreviation (input) DHCP_MAGIC :: u32 where "DHCP_MAGIC \<equiv> 0x63538263"
abbreviation (input) DHCP_PACKET :: nat where "DHCP_PACKET \<equiv> 548"

text \<open>A packet of the client: the fixed part and the options, filled up with zeros.\<close>

definition dhcp_packet :: "bytes \<Rightarrow> bytes \<Rightarrow> bytes" where
  "dhcp_packet mac options =
     (let pkt = [1, 1, 6, 0] @ le32 DHCP_XID @ le16 0 @ le16 (HTONS 0x8000) @ replicate 16 0 @ mac @ replicate 10 0 @
            replicate 192 0 @ le32 DHCP_MAGIC @ options
      in pkt @ replicate (DHCP_PACKET - length pkt) 0)"

definition dhcp_handle_response :: "net_env \<Rightarrow> (net_state \<Rightarrow> net_state option) \<Rightarrow> mem \<Rightarrow> nat \<Rightarrow> net_state \<Rightarrow> net_state option" where
  "dhcp_handle_response env poll data len st =
     (if len < DHCP_PACKET then Some st
      else if r32 data 236 \<noteq> DHCP_MAGIC \<or> r32 data 4 \<noteq> DHCP_XID then Some st
      else
        let iface = net_get_primary_interface st in
        if iface = 0 then Some st
        else
          let opts = dhcp_parse data 240 len \<lparr>msg_type = 0, server_id = 0, subnet_mask = 0, gateway = 0\<rparr>;
              yiaddr = r32 data 16
          in if msg_type opts = 2 then
               udp_send_packet env poll iface 0xFFFFFFFF 68 67
                 (dhcp_packet (if_mac (ifs st iface)) ([53, 1, 3, 50, 4] @ le32 yiaddr @ [54, 4] @ le32 (server_id opts) @ [0xFF])) st
             else if msg_type opts = 5 then
               let i = ifs st iface;
                   i1 = i\<lparr>if_ip := HTONL yiaddr,
                          if_subnet_mask := (if subnet_mask opts \<noteq> 0 then HTONL (subnet_mask opts) else if_subnet_mask i),
                          if_gateway_ip := (if gateway opts \<noteq> 0 then HTONL (gateway opts) else if_gateway_ip i)\<rparr>
               in Some (st\<lparr>ifs := (ifs st)(iface := i1), dhcp_completed := True\<rparr>)
             else Some st)"

text \<open>The waiting loop over the values of \<open>tick\<close> it reads; no value when they do not end the wait.\<close>

fun dhcp_wait :: "(net_state \<Rightarrow> net_state option) \<Rightarrow> u32 \<Rightarrow> u32 list \<Rightarrow> net_state \<Rightarrow> net_state option" where
  "dhcp_wait poll timeout [] st = None"
| "dhcp_wait poll timeout (t # ts) st =
     (if t < timeout \<and> \<not> dhcp_completed st
      then (case poll st of None \<Rightarrow> None | Some st1 \<Rightarrow> dhcp_wait poll timeout ts st1)
      else Some st)"

definition dhcp_discover ::
  "net_env \<Rightarrow> (net_state \<Rightarrow> net_state option) \<Rightarrow> u32 \<Rightarrow> u32 list \<Rightarrow> nat \<Rightarrow> net_state \<Rightarrow> (bool \<times> net_state) option" where
  "dhcp_discover env poll tick ticks iface st =
     (if iface = 0 then Some (False, st)
      else do {
        let st1 = (snd (udp_bind 68 DhcpCallback st))\<lparr>dhcp_completed := False\<rparr>;
        st2 \<leftarrow> udp_send_packet env poll iface 0xFFFFFFFF 68 67
          (dhcp_packet (if_mac (ifs st1 iface)) [53, 1, 1, 55, 3, 1, 3, 6, 0xFF]) st1;
        st3 \<leftarrow> dhcp_wait poll (tick + 100) ticks st2;
        Some (dhcp_completed st3, st3)
      })"

subsection \<open>Dispatch\<close>

definition run_callback ::
  "net_env \<Rightarrow> (net_state \<Rightarrow> net_state option) \<Rightarrow> udp_callback \<Rightarrow> mem \<Rightarrow> nat \<Rightarrow> net_state \<Rightarrow> net_state option" where
  "run_callback env poll cb data len st =
     (case cb of
        NoCallback \<Rightarrow> Some st
      | NtpCallback \<Rightarrow> Some st
      | DnsCallback \<Rightarrow> Some (dns_callback data len st)
      | DhcpCallback \<Rightarrow> dhcp_handle_response env poll data len st)"

text \<open>The length of the payload is the length field of the packet, whatever was received.\<close>

definition handle_udp :: "net_env \<Rightarrow> (net_state \<Rightarrow> net_state option) \<Rightarrow> mem \<Rightarrow> nat \<Rightarrow> net_state \<Rightarrow> net_state option" where
  "handle_udp env poll packet ip_hdr_len st =
     (let udp = ETH_HDR + ip_hdr_len;
          src_port = HTONS (r16 packet udp);
          dest_port = HTONS (r16 packet (udp + 2));
          len = HTONS (r16 packet (udp + 4)) - 8;
          payload = (\<lambda>i. packet (udp + 8 + i))
      in if HTONS (r16 packet (udp + 4)) < 8 then Some st
         else case first_index (\<lambda>u. us_active u \<and> us_local_port u = dest_port) (udp_sockets st) of
                Some i \<Rightarrow> run_callback env poll (us_callback (udp_sockets st ! i)) payload (unat len) st
              | None \<Rightarrow> sock_udp_deliver env dest_port (HTONL (r32 packet (ETH_HDR + 12))) src_port (view payload 0 (unat len)) st)"

definition handle_ipv4 :: "net_env \<Rightarrow> (net_state \<Rightarrow> net_state option) \<Rightarrow> nat \<Rightarrow> mem \<Rightarrow> net_state \<Rightarrow> net_state option" where
  "handle_ipv4 env poll iface packet st =
     (let ip_hdr_len = unat (packet ETH_HDR AND 0x0F) * 4; proto = packet (ETH_HDR + 9) in
      if proto = 1 then handle_icmp poll iface packet ip_hdr_len st
      else if proto = 17 then handle_udp env poll packet ip_hdr_len st
      else if proto = 6 then handle_tcp env iface packet (of_nat ip_hdr_len) st
      else Some st)"

definition net_handle_packet :: "net_env \<Rightarrow> (net_state \<Rightarrow> net_state option) \<Rightarrow> nat \<Rightarrow> mem \<Rightarrow> net_state \<Rightarrow> net_state option" where
  "net_handle_packet env poll iface packet st =
     (let type = HTONS (r16 packet 12) in
      if type = 0x0806 then Some (handle_arp iface packet st)
      else if type = 0x0800 then handle_ipv4 env poll iface packet st
      else Some st)"

text \<open>
  The receive loop. The flag \<open>polling\<close> makes a poll from inside a handler return at once, so the handlers run with
  \<open>Some\<close> as their poll. A damaged entry resets the ring and drops what is left in it.
\<close>

abbreviation (input) rtl_iface :: nat where "rtl_iface \<equiv> 1"

fun rtl8139_loop :: "net_env \<Rightarrow> rx_entry list \<Rightarrow> net_state \<Rightarrow> net_state option" where
  "rtl8139_loop env [] st = Some st"
| "rtl8139_loop env ((status, len, packet) # es) st =
     (if status AND 1 = 0 \<or> len < 20 \<or> len > 1522 then Some st
      else case net_handle_packet env Some rtl_iface packet st of
             None \<Rightarrow> None
           | Some st1 \<Rightarrow> rtl8139_loop env es st1)"

definition rtl8139_poll :: "net_env \<Rightarrow> net_state \<Rightarrow> net_state option" where
  "rtl8139_poll env st =
     (if \<not> rtl_initialized st then Some st
      else case rx st of
             [] \<Rightarrow> Some st
           | es # rest \<Rightarrow> rtl8139_loop env es (st\<lparr>rx := rest\<rparr>))"

section \<open>Well-formed states\<close>

definition arp_ok :: "arp_entry list \<Rightarrow> bool" where
  "arp_ok c \<longleftrightarrow> length c = ARP_CACHE_SIZE \<and> (\<forall>e \<in> set c. ae_valid e \<longrightarrow> length (ae_mac e) = 6) \<and>
     distinct (map ae_ip (filter ae_valid c))"

definition net_ok :: "net_state \<Rightarrow> bool" where
  "net_ok st \<longleftrightarrow> arp_ok (arp_cache st) \<and> length (udp_sockets st) = MAX_UDP_SOCKETS \<and> length (interfaces st) \<le> MAX_INTERFACES \<and>
     (\<forall>i. length (if_mac (ifs st i)) = 6) \<and> tx_cur_desc st < 4 \<and>
     (\<forall>(d, len, frame) \<in> set (sent st). d < 4 \<and> 60 \<le> length frame \<and> length frame \<le> 1514 \<and> unat len = length frame)"

text \<open>The search loops.\<close>

lemma first_index_some: "first_index P xs = Some i \<Longrightarrow> i < length xs \<and> P (xs ! i)"
  unfolding first_index_def by (auto simp: find_Some_iff)

lemma first_index_none: "first_index P xs = None \<longleftrightarrow> (\<forall>x \<in> set xs. \<not> P x)"
  by (auto simp: first_index_def find_None_iff all_set_conv_all_nth)

lemma in_update: "x \<in> set (xs[i := y]) \<Longrightarrow> x = y \<or> x \<in> set xs"
  using set_update_subset_insert [of xs i y] by blast

text \<open>The addresses of the valid entries, with one of them replaced.\<close>

lemma valid_ips_same:
  "i < length c \<Longrightarrow> map ae_ip (filter ae_valid (c[i := (c ! i)\<lparr>ae_mac := mac\<rparr>])) = map ae_ip (filter ae_valid c)"
  by (induction c arbitrary: i) (auto split: nat.splits)

lemma valid_ips_new:
  "i < length c \<Longrightarrow> \<not> ae_valid (c ! i) \<Longrightarrow> \<forall>e \<in> set c. \<not> arp_match ip e \<Longrightarrow> distinct (map ae_ip (filter ae_valid c)) \<Longrightarrow>
   distinct (map ae_ip (filter ae_valid (c[i := \<lparr>ae_ip = ip, ae_mac = mac, ae_valid = True\<rparr>])))"
proof (induction c arbitrary: i)
  case (Cons e c)
  show ?case
  proof (cases i)
    case 0
    with Cons.prems show ?thesis by (auto simp: arp_match_def)
  next
    case (Suc j)
    have "\<forall>x \<in> set (c[j := \<lparr>ae_ip = ip, ae_mac = mac, ae_valid = True\<rparr>]). ae_valid e \<longrightarrow> ae_valid x \<longrightarrow> ae_ip e \<noteq> ae_ip x"
      using Cons.prems(3,4) by (auto simp: arp_match_def rev_image_eqI dest!: in_update)
    with Cons Suc show ?thesis by auto
  qed
qed simp

lemma arp_update_ok [inv_intros]:
  assumes "arp_ok c" and "length mac = 6"
  shows "arp_ok (arp_update_cache ip mac c)"
proof (cases "first_index (arp_match ip) c")
  case (Some i)
  then have "i < length c" "c ! i \<in> set c" using first_index_some [OF Some] by auto
  with Some assms show ?thesis
    using valid_ips_same [of i c mac] by (auto simp: arp_update_cache_def arp_ok_def dest!: in_update)
next
  case None
  show ?thesis
  proof (cases "first_index (\<lambda>e. \<not> ae_valid e) c")
    case (Some i)
    with None assms show ?thesis
      using valid_ips_new [of i c ip mac] first_index_some [OF Some] first_index_none [of "arp_match ip" c]
      by (auto simp: arp_update_cache_def arp_ok_def dest!: in_update)
  qed (use None assms in \<open>simp add: arp_update_cache_def\<close>)
qed

text \<open>The cache as a map: an update is found, and no other entry changes.\<close>

lemma arp_lookup_valid:
  assumes "arp_ok c" and "e \<in> set c" and "arp_match ip e"
  shows "arp_lookup ip c = Some (ae_mac e)"
proof -
  have "first_index (arp_match ip) c \<noteq> None" using assms(2,3) by (auto simp: first_index_none)
  then obtain i where i: "first_index (arp_match ip) c = Some i" by blast
  note f = first_index_some [OF i]
  have "c ! i = e"
  proof (rule ccontr)
    assume "c ! i \<noteq> e"
    moreover have "c ! i \<in> set (filter ae_valid c)" "e \<in> set (filter ae_valid c)" "ae_ip (c ! i) = ae_ip e"
      using f assms(2,3) by (auto simp: arp_match_def)
    ultimately show False using assms(1) by (metis arp_ok_def distinct_map inj_onD)
  qed
  with i show ?thesis by (simp add: arp_lookup_def)
qed

subsection \<open>Every handler keeps the state well-formed\<close>

lemma net_ok_mac: "net_ok st \<Longrightarrow> length (if_mac (ifs st i)) = 6"
  by (simp add: net_ok_def)

lemma net_ok_fields [simp]:
  "net_ok (st\<lparr>net_heap := h\<rparr>) = net_ok st" "net_ok (st\<lparr>resolved_ip := a\<rparr>) = net_ok st" "net_ok (st\<lparr>rx := r\<rparr>) = net_ok st"
  by (simp_all add: net_ok_def)

lemma rtl_send_ok [inv_intros]:
  assumes "net_ok st" and "length data \<le> 1514"
  shows "net_ok (rtl8139_send_packet data st)"
proof -
  have "unat (of_nat (max 60 (length data)) AND 0x1FFF :: u32) = max 60 (length data)"
  proof -
    have m: "(0x1FFF :: u32) = mask 13" by (simp add: mask_eq_exp_minus_1)
    have "max 60 (length data) < 2 ^ 13" using assms(2) by simp
    then show ?thesis unfolding m by (simp add: take_bit_eq_mod unat_mod unat_of_nat flip: take_bit_eq_mask)
  qed
  moreover have "(if length data < 60 then 60 else length data) = max 60 (length data)" by simp
  ultimately show ?thesis using assms by (auto simp: rtl8139_send_packet_def net_ok_def Let_def)
qed

lemma net_send_ok [inv_intros]:
  "net_ok st \<Longrightarrow> length mac = 6 \<Longrightarrow> net_ok (net_send_packet iface mac ty payload st)"
  using net_ok_mac [of st iface] by (simp add: net_send_packet_def rtl_send_ok)

lemma arp_lookup_length: "arp_ok c \<Longrightarrow> arp_lookup ip c = Some mac \<Longrightarrow> length mac = 6"
  by (auto simp: arp_lookup_def arp_match_def arp_ok_def dest!: first_index_some)

lemma handle_arp_ok [inv_intros]: "net_ok st \<Longrightarrow> net_ok (handle_arp iface packet st)"
proof -
  assume ok: "net_ok st"
  have "length (view packet (ETH_HDR + 8) 6) = 6" by (simp add: view_def)
  moreover from this have "net_ok (st\<lparr>arp_cache := arp_update_cache spa (view packet (ETH_HDR + 8) 6) (arp_cache st)\<rparr>)" for spa
    using ok arp_update_ok by (simp add: net_ok_def)
  ultimately show ?thesis by (simp add: handle_arp_def Let_def send_arp_reply_def net_send_ok)
qed

text \<open>\<open>keeps f\<close>: wherever \<open>f\<close> has a value, it keeps the state well-formed.\<close>

definition keeps :: "(net_state \<Rightarrow> net_state option) \<Rightarrow> bool" where
  "keeps f \<longleftrightarrow> (\<forall>st st'. net_ok st \<longrightarrow> f st = Some st' \<longrightarrow> net_ok st')"

lemma keepsD: "keeps f \<Longrightarrow> net_ok st \<Longrightarrow> f st = Some st' \<Longrightarrow> net_ok st'"
  by (auto simp: keeps_def)

lemma arp_wait_ok:
  "keeps poll \<Longrightarrow> net_ok st \<Longrightarrow> arp_wait poll n ip st = Some (m, st') \<Longrightarrow> net_ok st' \<and> (\<forall>mac. m = Some mac \<longrightarrow> length mac = 6)"
proof (induction n arbitrary: st)
  case (Suc n)
  from Suc.prems(3) obtain st1 where p: "poll st = Some st1" by (auto split: option.splits)
  then have ok: "net_ok st1" using Suc.prems(1,2) by (rule keepsD [rotated 2])
  then have "arp_ok (arp_cache st1)" by (simp add: net_ok_def)
  with p ok Suc show ?case by (auto split: option.splits dest: arp_lookup_length)
qed simp

lemma ipv4_send_keeps [inv_intros]: "keeps poll \<Longrightarrow> keeps (ipv4_send_packet poll iface dest_ip proto payload)"
  unfolding keeps_def
proof (intro allI impI)
  fix st st'
  assume poll: "\<forall>st st'. net_ok st \<longrightarrow> poll st = Some st' \<longrightarrow> net_ok st'" and ok: "net_ok st"
    and s: "ipv4_send_packet poll iface dest_ip proto payload st = Some st'"
  let ?t = "next_hop (ifs st iface) dest_ip"
  have a: "net_ok (send_arp_request iface ?t st)" unfolding send_arp_request_def by (rule net_send_ok [OF ok]) simp
  have l: "length mac = 6" if "arp_lookup ?t (arp_cache st) = Some mac" for mac
    using that ok by (auto simp: net_ok_def intro: arp_lookup_length)
  have w: "net_ok st1 \<and> (\<forall>mac. m = Some mac \<longrightarrow> length mac = 6)" if "arp_wait poll 50 ?t (send_arp_request iface ?t st) = Some (m, st1)" for m st1
    using arp_wait_ok [OF _ a that] poll by (simp add: keeps_def)
  show "net_ok st'"
    using s ok l w unfolding ipv4_send_packet_def Let_def
    by (auto intro!: net_send_ok split: if_splits option.splits bind_splits)
qed

lemma keepsI: "(\<And>st st'. net_ok st \<Longrightarrow> f st = Some st' \<Longrightarrow> net_ok st') \<Longrightarrow> keeps f"
  by (auto simp: keeps_def)

lemma handle_icmp_keeps [inv_intros]:
  assumes "keeps poll"
  shows "keeps (handle_icmp poll iface packet n)"
  by (rule keepsI) (auto simp: handle_icmp_def Let_def split: if_splits intro: keepsD [OF ipv4_send_keeps [OF assms]])

lemma udp_send_keeps [inv_intros]:
  assumes "keeps poll"
  shows "keeps (udp_send_packet env poll iface dest_ip sp dp data)"
proof (rule keepsI)
  fix st st'
  assume ok: "net_ok st" and s: "udp_send_packet env poll iface dest_ip sp dp data st = Some st'"
  then show "net_ok st'"
    unfolding udp_send_packet_def Let_def
    by (auto split: if_splits bind_splits prod.splits dest!: keepsD [OF ipv4_send_keeps [OF assms], rotated])
qed

lemma dhcp_keeps [inv_intros]:
  assumes "keeps poll"
  shows "keeps (dhcp_handle_response env poll data len)"
proof (rule keepsI)
  fix st st'
  assume ok: "net_ok st" and s: "dhcp_handle_response env poll data len st = Some st'"
  have u: "net_ok (st\<lparr>ifs := (ifs st)(i := x), dhcp_completed := True\<rparr>)" if "length (if_mac x) = 6" for i x
    using ok that by (simp add: net_ok_def)
  show "net_ok st'"
    using ok s unfolding dhcp_handle_response_def Let_def
    by (auto simp: net_ok_mac split: if_splits intro!: u intro: keepsD [OF udp_send_keeps [OF assms]])
qed

lemma run_callback_keeps [inv_intros]:
  assumes "keeps poll"
  shows "keeps (run_callback env poll cb data len)"
proof (rule keepsI)
  fix st st'
  assume ok: "net_ok st" and s: "run_callback env poll cb data len st = Some st'"
  have "net_ok (dns_callback data len st)" using ok by (simp add: dns_callback_def Let_def split: option.splits)
  with ok s show "net_ok st'"
    by (cases cb) (auto simp: run_callback_def intro: keepsD [OF dhcp_keeps [OF assms]])
qed

text \<open>What the model expects of TCP and of the socket layer.\<close>

definition env_keeps :: "net_env \<Rightarrow> bool" where
  "env_keeps env \<longleftrightarrow> (\<forall>i p n. keeps (handle_tcp env i p n)) \<and> (\<forall>d ip s bs. keeps (sock_udp_deliver env d ip s bs))"

lemma handle_udp_keeps [inv_intros]:
  assumes "env_keeps env" and "keeps poll"
  shows "keeps (handle_udp env poll packet n)"
proof (rule keepsI)
  fix st st'
  have d: "keeps (sock_udp_deliver env a b c bs)" for a b c bs using assms(1) by (simp add: env_keeps_def)
  assume "net_ok st" and "handle_udp env poll packet n st = Some st'"
  then show "net_ok st'"
    by (auto simp: handle_udp_def Let_def split: if_splits option.splits
      intro: keepsD [OF run_callback_keeps [OF assms(2)]] keepsD [OF d])
qed

lemma net_handle_keeps [inv_intros]:
  assumes "env_keeps env" and "keeps poll"
  shows "keeps (net_handle_packet env poll iface packet)"
proof (rule keepsI)
  fix st st'
  have t: "keeps (handle_tcp env a b c)" for a b c using assms(1) by (simp add: env_keeps_def)
  assume "net_ok st" and "net_handle_packet env poll iface packet st = Some st'"
  then show "net_ok st'"
    by (auto simp: net_handle_packet_def handle_ipv4_def Let_def split: if_splits
      intro: handle_arp_ok keepsD [OF handle_udp_keeps [OF assms]] keepsD [OF handle_icmp_keeps [OF assms(2)]] keepsD [OF t])
qed

lemma rtl8139_loop_ok: "env_keeps env \<Longrightarrow> net_ok st \<Longrightarrow> rtl8139_loop env es st = Some st' \<Longrightarrow> net_ok st'"
proof (induction es arbitrary: st)
  case (Cons e es)
  have "keeps Some" by (simp add: keeps_def)
  note k = keepsD [OF net_handle_keeps [OF Cons.prems(1) this]]
  show ?case
    using Cons.prems(2,3) by (cases e) (auto split: if_splits option.splits intro: Cons.IH [OF Cons.prems(1)] k)
qed simp


definition demo_env :: net_env where
  "demo_env = \<lparr>env_hhdm = 0, env_oom = id, handle_tcp = \<lambda>_ _ _. Some, sock_udp_deliver = \<lambda>_ _ _ _. Some\<rparr>"

definition demo_if :: net_interface where
  "demo_if = \<lparr>if_name = [101, 116, 104, 48], if_mac = [0x52, 0x54, 0, 0x12, 0x34, 0x56], if_ip = 0x0A00020F, if_subnet_mask = 0xFFFFFF00,
     if_gateway_ip = 0x0A000202, if_send = True\<rparr>"

text \<open>An ARP request for \<open>10.0.2.15\<close> from \<open>10.0.2.2\<close>.\<close>

definition demo_arp :: mem where
  "demo_arp i =
     (let bs = replicate 12 0 @ [8, 6, 0, 1, 8, 0, 6, 4, 0, 1, 1, 2, 3, 4, 5, 6, 10, 0, 2, 2, 0, 0, 0, 0, 0, 0, 10, 0, 2, 15]
      in if i < length bs then bs ! i else 0)"

definition demo_net :: net_state where
  "demo_net = \<lparr>arp_cache = replicate 32 \<lparr>ae_ip = 0, ae_mac = replicate 6 0, ae_valid = False\<rparr>, interfaces = [1], ifs = \<lambda>_. demo_if,
     udp_sockets = replicate 64 \<lparr>us_local_port = 0, us_callback = NoCallback, us_active = False\<rparr>, net_heap = demo_heap,
     resolved_ip = 0, last_queried_name = [], dns_bound = False, ntp_bound = False, dhcp_completed = False, rtl_initialized = True,
     tx_cur_desc = 0, sent = [], rx = [[(1, 64, demo_arp)]]\<rparr>"

lemma demo_net_ok: "net_ok demo_net" "env_keeps demo_env"
  by (simp_all add: net_ok_def demo_net_def arp_ok_def demo_if_def env_keeps_def demo_env_def keeps_def)


section \<open>Checksums\<close>

text \<open>The sum without a width.\<close>

fun word_sum :: "bytes \<Rightarrow> nat" where
  "word_sum (a # b # bs) = unat a + 256 * unat b + word_sum bs"
| "word_sum [a] = unat a"
| "word_sum [] = 0"

lemma byte_less: "unat (a :: u8) < 256" "unat (c :: u16) < 65536"
  using unsigned_less [of a, where 'a = nat] unsigned_less [of c, where 'a = nat] by simp_all

lemma unat_pair: "unat (ucast (ucast a OR push_bit 8 (ucast b) :: u16) :: u32) = unat (a :: u8) + 256 * unat (b :: u8)"
proof -
  have "(ucast a :: u16) AND push_bit 8 (ucast b) = 0" by (rule bit_word_eqI) (auto simp: bit_simps dest: bit_imp_le_length)
  then have "ucast a OR push_bit 8 (ucast b) = ucast a + push_bit 8 (ucast b :: u16)" by (simp add: disjunctive_add_eq_or)
  moreover have "unat (push_bit 8 (ucast b :: u16)) = 256 * unat b"
    using byte_less(1) [of b] by (simp add: push_bit_eq_mult unat_word_ariths unsigned_ucast_eq take_bit_nat_eq_self)
  moreover have "unat (ucast a :: u16) = unat a" using byte_less(1) [of a] by (simp add: unsigned_ucast_eq take_bit_nat_eq_self)
  moreover have "unat a + 256 * unat b < 65536" using byte_less(1) [of a] byte_less(1) [of b] by simp
  ultimately show ?thesis by (simp add: unsigned_ucast_eq unat_word_ariths take_bit_nat_eq_self)
qed

lemma sum16_word_sum: "unat s + word_sum bs < 2 ^ 32 \<Longrightarrow> unat (sum16 bs s) = unat s + word_sum bs"
proof (induction bs s rule: sum16.induct)
  case (1 a b bs s)
  have "unat (s + ucast (ucast a OR push_bit 8 (ucast b) :: u16)) = unat s + (unat a + 256 * unat b)"
    using 1(2) by (simp add: unat_word_ariths unat_pair)
  with 1 show ?case by simp
next
  case (2 a s)
  have "unat (ucast a :: u32) = unat a" using byte_less(1) [of a] by (simp add: unsigned_ucast_eq take_bit_nat_eq_self)
  with 2 show ?case by (simp add: unat_word_ariths)
qed simp

lemma word_sum_append: "even (length xs) \<Longrightarrow> word_sum (xs @ ys) = word_sum xs + word_sum ys"
  by (induction xs rule: word_sum.induct) auto

lemma word_sum_bound: "word_sum bs \<le> 65535 * length bs"
proof (induction bs rule: word_sum.induct)
  case (1 a b bs)
  then show ?case using byte_less(1) [of a] byte_less(1) [of b] by simp
next
  case (2 a)
  then show ?case using byte_less(1) [of a] by simp
qed simp

lemma word_sum_le16: "word_sum (le16 c) = unat c"
proof -
  have "unat (ucast c :: u8) = unat c mod 256" "unat (ucast (drop_bit 8 c) :: u8) = unat c div 256"
    using byte_less(2) [of c] by (simp_all add: unsigned_ucast_eq take_bit_eq_mod drop_bit_eq_div unat_div)
  then show ?thesis by (simp add: le16_def)
qed

text \<open>Folding keeps the sum modulo \<open>65535\<close> and gives zero only for zero.\<close>

lemma fold16_mod:
  "unat (fold16 s) \<le> 65535 \<and> unat (fold16 s) mod 65535 = unat s mod 65535 \<and> (unat (fold16 s) = 0 \<longleftrightarrow> unat s = 0)"
proof (induction s rule: fold16.induct)
  case (1 s)
  let ?t = "(s AND 0xFFFF) + drop_bit 16 s"
  show ?case
  proof (cases "drop_bit 16 s = 0")
    case True
    then have "unat s div 65536 = 0" using unat_fold16(2) [of s] by simp
    with True show ?thesis by (subst (1 2 3) fold16.simps) simp
  next
    case False
    then have "0 < unat s div 65536" using unat_fold16(2) [of s] by (metis gr0I unat_eq_zero)
    moreover have "unat s = unat s mod 65536 + unat s div 65536 + 65535 * (unat s div 65536)"
      using div_mult_mod_eq [of "unat s" 65536] by simp
    then have "unat ?t mod 65535 = unat s mod 65535" unfolding unat_fold16(1) by (metis mod_mult_self2)
    ultimately have "unat ?t mod 65535 = unat s mod 65535" "unat ?t \<noteq> 0" "unat s \<noteq> 0" unfolding unat_fold16(1) by auto
    moreover have "fold16 s = fold16 ?t" using False by (subst fold16.simps) simp
    ultimately show ?thesis using 1 [OF False] by simp
  qed
qed

lemma unat_checksum: "unat (ip_checksum bs) = 65535 - unat (fold16 (sum16 bs 0))"
proof -
  let ?f = "fold16 (sum16 bs 0)"
  have "NOT ?f = - 1 - ?f" by (simp add: not_eq_complement)
  moreover have "unat (- 1 - ?f) = unat (- 1 :: u32) - unat ?f" by (rule unat_sub) simp
  moreover have "unat (- 1 :: u32) = 4294967295" by (simp add: unsigned_minus_1_eq_mask mask_eq_exp_minus_1)
  ultimately have "unat (NOT ?f) = 4294967295 - unat ?f" by simp
  moreover have "unat ?f \<le> 65535" using fold16_mod by blast
  then have "4294967295 - unat ?f = (65535 - unat ?f) + 65535 * 65536" by simp
  then have "(4294967295 - unat ?f) mod 65536 = (65535 - unat ?f) mod 65536" by (simp only: mod_mult_self1)
  ultimately show ?thesis by (simp add: ip_checksum_def unsigned_ucast_eq take_bit_eq_mod)
qed

lemma checksum_verifies:
  assumes "even (length pre)" and "length pre + length post \<le> 60000"
  shows "ip_checksum (pre @ le16 (ip_checksum (pre @ le16 0 @ post)) @ post) = 0"
proof -
  let ?z = "pre @ le16 0 @ post" and ?S = "word_sum pre + word_sum post"
  let ?f = "unat (fold16 (sum16 ?z 0))"
  let ?c = "ip_checksum ?z"
  have w: "word_sum (pre @ le16 c @ post) = ?S + unat c" for c
    using assms(1) by (simp add: word_sum_append word_sum_le16)
  have b: "?S \<le> 65535 * 60000"
    using word_sum_bound [of pre] word_sum_bound [of post] assms(2) by simp
  have "?S + unat c < 2 ^ 32" for c :: u16 using byte_less(2) [of c] b by simp
  then have s: "unat (sum16 (pre @ le16 c @ post) 0) = ?S + unat c" for c
    using sum16_word_sum [of 0 "pre @ le16 c @ post"] w [of c] by simp
  have f: "?f \<le> 65535" "?f mod 65535 = ?S mod 65535" "?f = 0 \<longleftrightarrow> ?S = 0" using fold16_mod [of "sum16 ?z 0"] s [of 0] by simp_all
  have c: "unat ?c = 65535 - ?f" by (rule unat_checksum)
  let ?g = "unat (fold16 (sum16 (pre @ le16 ?c @ post) 0))"
  have "?g \<le> 65535" "?g mod 65535 = (?S + (65535 - ?f)) mod 65535" "?g = 0 \<longleftrightarrow> ?S + (65535 - ?f) = 0"
    using fold16_mod [of "sum16 (pre @ le16 ?c @ post) 0"] s [of ?c] c by simp_all
  moreover have "(?S + (65535 - ?f)) mod 65535 = (?f + (65535 - ?f)) mod 65535" using f(2) by (metis mod_add_left_eq)
  moreover have "?f + (65535 - ?f) = 65535" using f(1) by simp
  moreover have "?S + (65535 - ?f) \<noteq> 0" using f by auto
  ultimately have "?g = 65535" by (metis le_neq_implies_less mod_less mod_self)
  then show ?thesis using unat_checksum [of "pre @ le16 ?c @ post"] by (simp add: unat_eq_zero)
qed

lemma ipv4_header_checksum:
  "ip_checksum (ipv4_header i dest proto n (ip_checksum (ipv4_header i dest proto n 0))) = 0"
proof -
  let ?pre = "[0x45, 0] @ le16 (HTONS (of_nat (IP_HDR + n))) @ le16 (HTONS 1) @ le16 0 @ [64, proto]"
  let ?post = "le32 (HTONL (if_ip i)) @ le32 (HTONL dest)"
  have h: "ipv4_header i dest proto n c = ?pre @ le16 c @ ?post" for c by (simp add: ipv4_header_def)
  have "even (length ?pre)" "length ?pre + length ?post \<le> 60000" by simp_all
  then show ?thesis unfolding h by (rule checksum_verifies)
qed

lemma low_bits: "n < 8 \<Longrightarrow> bit (255 :: int) n \<and> \<not> bit (65280 :: int) n"
proof -
  assume "n < 8"
  then have "n \<in> {0, 1, 2, 3, 4, 5, 6, 7}" by auto
  then show ?thesis by auto
qed

text \<open>A swapped field in the memory of a little-endian machine is the field in network order.\<close>

lemma le16_HTONS: "le16 (HTONS a) = be16 a" and le32_HTONL: "le32 (HTONL c) = be32 c"
  by (simp_all add: le16_def be16_def le32_def be32_def HTONS_def HTONL_def)
    (auto intro!: bit_word_eqI simp: bit_simps dest: low_bits)

lemma length_ipv4_header [simp]: "length (ipv4_header i dest proto n c) = IP_HDR"
  by (simp add: ipv4_header_def)

text \<open>
  C37. A packet to a next hop with a known hardware address goes out as one Ethernet frame: to the address ARP has for
  the next hop, from the address of the interface, with type IPv4, a 20-byte header whose checksum a receiver verifies
  to zero, and the payload unchanged. The next hop is the destination when it is in the subnet of the interface and
  the gateway otherwise. Nothing else of the state changes but the transmit descriptor.
\<close>

theorem ipv4_send_frame:
  assumes "iface \<noteq> 0" and "i = ifs st iface" and "if_send i" and "rtl_initialized st" and "length payload \<le> 1480"
    and "arp_lookup (if dest AND if_subnet_mask i = if_ip i AND if_subnet_mask i then dest else if_gateway_ip i) (arp_cache st) = Some mac"
  shows "\<exists>hdr. length hdr = 20 \<and> ip_checksum hdr = 0 \<and> take 10 hdr = [0x45, 0] @ be16 (of_nat (20 + length payload)) @ [0, 1, 0, 0, 64, proto] \<and>
    drop 12 hdr = be32 (if_ip i) @ be32 dest \<and>
    (let frame = mac @ if_mac i @ [8, 0] @ hdr @ payload; pad = replicate (60 - length frame) 0
     in ipv4_send_packet poll iface dest proto payload st =
        Some (st\<lparr>sent := sent st @ [(tx_cur_desc st, of_nat (max 60 (length frame)) AND 0x1FFF, frame @ pad)],
                 tx_cur_desc := (tx_cur_desc st + 1) mod 4\<rparr>))"
proof -
  let ?hdr = "ipv4_header i dest proto (length payload) (ip_checksum (ipv4_header i dest proto (length payload) 0))"
  note b = le16_HTONS le32_HTONL
  have t: "le16 (HTONS 0x0800) = [8, 0]" "le16 (HTONS 1) = [0, 1]" by code_simp+
  have n: "next_hop i dest = (if dest AND if_subnet_mask i = if_ip i AND if_subnet_mask i then dest else if_gateway_ip i)"
    by (simp add: next_hop_def)
  have h: "take 10 ?hdr = [0x45, 0] @ be16 (of_nat (20 + length payload)) @ [0, 1, 0, 0, 64, proto]"
    "drop 12 ?hdr = be32 (if_ip i) @ be32 dest"
    unfolding ipv4_header_def b(2) b(1) [of "of_nat (IP_HDR + length payload)"] t by (simp_all add: be16_def le16_def)
  have "(if k < 60 then 60 else k) = max 60 k" for k :: nat by simp
  then have "ipv4_send_packet poll iface dest proto payload st = Some (rtl8139_send_packet (mac @ if_mac i @ [8, 0] @ ?hdr @ payload) st)"
    using assms n t(1) by (simp add: ipv4_send_packet_def net_send_packet_def Let_def)
  then show ?thesis
    using h ipv4_header_checksum [of i dest proto "length payload"] assms(4)
    by (intro exI [of _ ?hdr]) (simp add: rtl8139_send_packet_def Let_def max_def)
qed

theorem ipv4_send_frame_witness:
  "\<exists>hdr. length hdr = 20 \<and> ip_checksum hdr = 0 \<and> take 10 hdr = [0x45, 0, 0, 22, 0, 1, 0, 0, 64, 17] \<and>
    drop 12 hdr = [10, 0, 2, 15, 1, 1, 1, 1] \<and>
    (\<exists>st'. ipv4_send_packet Some 1 0x01010101 17 [7, 9] (demo_net\<lparr>arp_cache := [\<lparr>ae_ip = 0x0A000202, ae_mac = [1, 2, 3, 4, 5, 6], ae_valid = True\<rparr>]\<rparr>) = Some st' \<and>
      sent st' = [(0, 60, [1, 2, 3, 4, 5, 6, 0x52, 0x54, 0, 0x12, 0x34, 0x56, 8, 0] @ hdr @ [7, 9] @ replicate 24 0)])"
proof -
  let ?st = "demo_net\<lparr>arp_cache := [\<lparr>ae_ip = 0x0A000202, ae_mac = [1, 2, 3, 4, 5, 6], ae_valid = True\<rparr>]\<rparr>"
  have i: "demo_if = ifs ?st 1" "if_send demo_if" "rtl_initialized ?st" "length [7, 9 :: u8] \<le> 1480" "(1 :: nat) \<noteq> 0"
    by (simp_all add: demo_net_def demo_if_def)
  have a: "arp_lookup (if 0x01010101 AND if_subnet_mask demo_if = if_ip demo_if AND if_subnet_mask demo_if then 0x01010101 else if_gateway_ip demo_if)
      (arp_cache ?st) = Some [1, 2, 3, 4, 5, 6]"
    by (simp add: demo_net_def demo_if_def arp_lookup_def first_index_def arp_match_def)
  have b: "be16 22 = [0, 22]" "be32 (if_ip demo_if) = [10, 0, 2, 15]" "be32 0x01010101 = [1, 1, 1, 1]"
    by (simp_all add: be16_def be32_def demo_if_def)
  from ipv4_send_frame [OF i(5,1,2,3,4) a, of 17 Some] obtain hdr where
    h: "length hdr = 20" "ip_checksum hdr = 0" "take 10 hdr = [0x45, 0] @ be16 (of_nat (20 + length [7, 9 :: u8])) @ [0, 1, 0, 0, 64, 17]"
      "drop 12 hdr = be32 (if_ip demo_if) @ be32 0x01010101"
      "let frame = [1, 2, 3, 4, 5, 6] @ if_mac demo_if @ [8, 0] @ hdr @ [7, 9]; pad = replicate (60 - length frame) 0
       in ipv4_send_packet Some 1 0x01010101 17 [7, 9] ?st =
          Some (?st\<lparr>sent := sent ?st @ [(tx_cur_desc ?st, of_nat (max 60 (length frame)) AND 0x1FFF, frame @ pad)],
                   tx_cur_desc := (tx_cur_desc ?st + 1) mod 4\<rparr>)" by blast
  have "length ([1, 2, 3, 4, 5, 6] @ if_mac demo_if @ [8, 0] @ hdr @ [7, 9]) = 36" using h(1) by (simp add: demo_if_def)
  with h b show ?thesis
    by (intro exI [of _ hdr]) (simp add: Let_def demo_net_def demo_if_def)
qed

end
