(* ===== verification/Clock.thy ===== *)
theory Clock
  imports Sched "HOL-Library.Monad_Syntax"
begin

section \<open>Clock, timer and random numbers (\<open>kernel/misc\<close>)\<close>

text \<open>
  The real-time clock (\<open>rtc.c\<close>), the timer (\<open>timer.c\<close>) and the random number generator (\<open>random.c\<close>). What the
  hardware delivers is an argument: the CMOS registers, the values of \<open>tick\<close> that a loop reads, the time-stamp counter
  and the results of \<open>rdrand\<close>. A loop that waits for the hardware runs over the list of the values it reads and has no
  value (\<open>None\<close>) when they do not end it. Output to the serial port is left out.
\<close>

subsection \<open>The real-time clock\<close>

record rtc_time =
  second :: u8
  minute :: u8
  hour :: u8
  day :: u8
  month :: u8
  year :: u32

definition bcd_to_bin :: "u8 \<Rightarrow> u8" where
  "bcd_to_bin bcd = (bcd div 16) * 10 + (bcd AND 0x0F)"

definition is_leap_year :: "u32 \<Rightarrow> bool" where
  "is_leap_year y \<longleftrightarrow> y mod 4 = 0 \<and> (y mod 100 \<noteq> 0 \<or> y mod 400 = 0)"

definition days_per_month :: "u64 list" where
  "days_per_month = [31, 28, 31, 30, 31, 30, 31, 31, 30, 31, 30, 31]"

definition year_days :: "nat \<Rightarrow> u64" where
  "year_days y = (if is_leap_year (of_nat y) then 366 else 365)"

text \<open>A month behind the table has no value.\<close>

definition month_days :: "u32 \<Rightarrow> nat \<Rightarrow> u64 option" where
  "month_days y m =
     (if m - 1 < length days_per_month
      then Some (days_per_month ! (m - 1) + (if m = 2 \<and> is_leap_year y then 1 else 0)) else None)"

definition datetime_to_unix :: "rtc_time \<Rightarrow> u64 option" where
  "datetime_to_unix t = do {
     let days = fold (\<lambda>y d. d + year_days y) [1970..<unat (year t)] 0;
     days \<leftarrow> fold (\<lambda>m acc. do { d \<leftarrow> acc; x \<leftarrow> month_days (year t) m; Some (d + x) }) [1..<unat (month t)] (Some days);
     let days = days + (ucast (day t) - 1);
     Some (days * 86400 + ucast (hour t) * 3600 + ucast (minute t) * 60 + ucast (second t))
   }"

fun rtc_wait_update :: "u8 list \<Rightarrow> unit option" where
  "rtc_wait_update [] = None"
| "rtc_wait_update (a # as) = (if a AND 0x80 \<noteq> 0 then rtc_wait_update as else Some ())"

text \<open>\<open>status\<close> are the readings of register A, \<open>cmos\<close> the registers after the wait.\<close>

definition rtc_get_datetime :: "u8 list \<Rightarrow> (u8 \<Rightarrow> u8) \<Rightarrow> rtc_time option" where
  "rtc_get_datetime status cmos = do {
     rtc_wait_update status;
     let status_b = cmos 0x0B;
     let conv = (\<lambda>x. if status_b AND 0x04 = 0 then bcd_to_bin x else x);
     let h = cmos 0x04;
     let h1 = (if status_b AND 0x04 = 0 then (if h AND 0x7F \<noteq> 0 then bcd_to_bin (h AND 0x7F) else 0) OR (h AND 0x80) else h);
     let h2 = (if status_b AND 0x02 = 0 \<and> h1 AND 0x80 \<noteq> 0 then ((h1 AND 0x7F) + 12) mod 24 else h1);
     Some \<lparr>second = conv (cmos 0x00), minute = conv (cmos 0x02), hour = h2, day = conv (cmos 0x07), month = conv (cmos 0x08),
           year = 2000 + ucast (conv (cmos 0x09))\<rparr>
   }"

text \<open>The value is the new \<open>boot_epoch_seconds\<close>.\<close>

definition rtc_init :: "u8 list \<Rightarrow> (u8 \<Rightarrow> u8) \<Rightarrow> u64 option" where
  "rtc_init status cmos = do { t \<leftarrow> rtc_get_datetime status cmos; datetime_to_unix t }"

definition rtc_get_unix_timestamp :: "u64 \<Rightarrow> u32 \<Rightarrow> u64" where
  "rtc_get_unix_timestamp boot_epoch_seconds tick = boot_epoch_seconds + ucast (tick div 100)"

subsection \<open>The timer\<close>

text \<open>The devices polled by the tick are functions on the rest \<open>'d\<close> of the system.\<close>

record 'd timer_state =
  tick :: u32
  t_sched :: sched
  t_dev :: 'd

record 'd timer_env =
  xhci_timer_tick :: "'d \<Rightarrow> 'd"
  ac97_tick :: "'d \<Rightarrow> 'd"
  rtl8139_poll_dev :: "'d \<Rightarrow> 'd"
  tcp_tick_with_iface :: "u32 \<Rightarrow> 'd \<Rightarrow> 'd"

definition timer_callback :: "'d timer_env \<Rightarrow> 'd timer_state \<Rightarrow> 'd timer_state" where
  "timer_callback env st =
     (let t = tick st + 1;
          s = sched_timer_tick t (t_sched st);
          d = ac97_tick env (xhci_timer_tick env (t_dev st));
          d1 = (if t mod 2 = 0 then tcp_tick_with_iface env (t * 4) (rtl8139_poll_dev env d) else d)
      in \<lparr>tick = t, t_sched = s, t_dev = d1\<rparr>)"

text \<open>The port writes of the initialisation; no value for the division by zero.\<close>

definition init_timer :: "u32 \<Rightarrow> (u16 \<times> u8) list option" where
  "init_timer freq =
     (if freq = 0 then None
      else let divisor = 1193182 div freq
           in Some [(0x43, 0x36), (0x40, ucast (divisor AND 0xFF)), (0x40, ucast (drop_bit 8 divisor AND 0xFF))])"

fun sleep_loop :: "u32 \<Rightarrow> u32 list \<Rightarrow> unit option" where
  "sleep_loop lim [] = None"
| "sleep_loop lim (t # ts) = (if t < lim then sleep_loop lim ts else Some ())"

definition sleep :: "u32 \<Rightarrow> u32 \<Rightarrow> u32 list \<Rightarrow> unit option" where
  "sleep ms start_tick ticks = sleep_loop (start_tick + (ms * 250) div 1000) ticks"

subsection \<open>Random numbers\<close>

text \<open>\<open>hw\<close> gives, for the n-th call, the results of \<open>rdrand\<close>, the time-stamp counter and \<open>tick\<close>.\<close>

record rng =
  has_rdrand :: bool
  prng_state :: u64
  calls :: nat

record rng_hw =
  rdrand :: "nat \<Rightarrow> nat \<Rightarrow> u64 \<times> bool"
  tsc :: "nat \<Rightarrow> u64"
  ticks_at :: "nat \<Rightarrow> u32"

definition random_init :: "u32 \<Rightarrow> u64 \<Rightarrow> u64 \<Rightarrow> rng \<Rightarrow> rng" where
  "random_init cpuid_ecx t now r =
     r\<lparr>has_rdrand := cpuid_ecx AND push_bit 30 1 \<noteq> 0, prng_state := prng_state r XOR (t XOR now)\<rparr>"

definition random_get_u64 :: "rng_hw \<Rightarrow> rng \<Rightarrow> u64 \<times> rng" where
  "random_get_u64 hw r =
     (let n = calls r; r1 = r\<lparr>calls := n + 1\<rparr> in
      case (if has_rdrand r then find snd (map (rdrand hw n) [0..<10]) else None) of
        Some (val, _) \<Rightarrow> (val, r1)
      | None \<Rightarrow>
          let s = prng_state r + (0x9E3779B97F4A7C15 + tsc hw n + ucast (ticks_at hw n));
              z1 = (s XOR drop_bit 30 s) * 0xBF58476D1CE4E5B9;
              z2 = (z1 XOR drop_bit 27 z1) * 0x94D049BB133111EB
          in (z2 XOR drop_bit 31 z2, r1\<lparr>prng_state := s\<rparr>))"

definition random_get_u32 :: "rng_hw \<Rightarrow> rng \<Rightarrow> u32 \<times> rng" where
  "random_get_u32 hw r = (let (v, r1) = random_get_u64 hw r in (ucast (v AND 0xFFFFFFFF), r1))"

text \<open>The bytes put into the buffer.\<close>

function random_fill :: "rng_hw \<Rightarrow> nat \<Rightarrow> rng \<Rightarrow> bytes \<times> rng" where
  "random_fill hw len r =
     (if len = 0 then ([], r)
      else
        let (v, r1) = random_get_u64 hw r; bs = map (\<lambda>i. ucast (drop_bit (8 * i) v)) [0..<8] in
        if len \<ge> 8 then let (rest, r2) = random_fill hw (len - 8) r1 in (bs @ rest, r2)
        else (take len bs, r1))"
  by auto
termination random_fill
  by (relation "measure (\<lambda>(hw, len, r). len)") auto

declare random_fill.simps [simp del]

section \<open>The calendar\<close>

text \<open>
  What the Unix time of a date is: the epoch has time zero, and one second later on the calendar is one more. The
  next second on the calendar:
\<close>

definition month_length :: "u32 \<Rightarrow> u8 \<Rightarrow> u8" where
  "month_length y m =
     (if m = 2 then if is_leap_year y then 29 else 28 else if m = 4 \<or> m = 6 \<or> m = 9 \<or> m = 11 then 30 else 31)"

definition next_second :: "rtc_time \<Rightarrow> rtc_time" where
  "next_second t =
     (if second t < 59 then t\<lparr>second := second t + 1\<rparr>
      else if minute t < 59 then t\<lparr>second := 0, minute := minute t + 1\<rparr>
      else if hour t < 23 then t\<lparr>second := 0, minute := 0, hour := hour t + 1\<rparr>
      else if day t < month_length (year t) (month t) then t\<lparr>second := 0, minute := 0, hour := 0, day := day t + 1\<rparr>
      else if month t < 12 then t\<lparr>second := 0, minute := 0, hour := 0, day := 1, month := month t + 1\<rparr>
      else t\<lparr>second := 0, minute := 0, hour := 0, day := 1, month := 1, year := year t + 1\<rparr>)"

definition valid_time :: "rtc_time \<Rightarrow> bool" where
  "valid_time t \<longleftrightarrow> second t < 60 \<and> minute t < 60 \<and> hour t < 24 \<and> 1 \<le> month t \<and> month t \<le> 12 \<and>
     1 \<le> day t \<and> day t \<le> month_length (year t) (month t) \<and> 1970 \<le> year t \<and> year t < 0xFFFFFFFF"

definition days_before :: "u32 \<Rightarrow> nat \<Rightarrow> u64" where
  "days_before y m = sum_list (map (\<lambda>k. the (month_days y k)) [1..<m])"

lemma fold_year_days: "fold (\<lambda>y d. d + year_days y) ys a = a + sum_list (map year_days ys)"
  by (induction ys arbitrary: a) (simp_all add: ac_simps)

lemma month_days_some: "1 \<le> m \<Longrightarrow> m \<le> 12 \<Longrightarrow> month_days y m = Some (the (month_days y m))"
  by (auto simp: month_days_def days_per_month_def)

lemma fold_month_days:
  "\<forall>m \<in> set ms. 1 \<le> m \<and> m \<le> 12 \<Longrightarrow>
   fold (\<lambda>m acc. do { d \<leftarrow> acc; x \<leftarrow> month_days y m; Some (d + x) }) ms (Some a) = Some (a + sum_list (map (\<lambda>k. the (month_days y k)) ms))"
proof (induction ms arbitrary: a)
  case (Cons m ms)
  then obtain x where x: "month_days y m = Some x" using month_days_some [of m y] by auto
  with Cons show ?case by (simp add: ac_simps)
qed simp

definition seconds_of :: "u64 \<Rightarrow> rtc_time \<Rightarrow> u64" where
  "seconds_of d t = d * 86400 + ucast (hour t) * 3600 + ucast (minute t) * 60 + ucast (second t)"

lemma datetime_sum:
  assumes "month t \<le> 12"
  shows "datetime_to_unix t = Some (seconds_of (sum_list (map year_days [1970..<unat (year t)]) + days_before (year t) (unat (month t)) + (ucast (day t) - 1)) t)"
proof -
  have "unat (month t) \<le> 12" using assms by (simp add: word_le_nat_alt)
  then have "\<forall>m \<in> set [1..<unat (month t)]. 1 \<le> m \<and> m \<le> 12" by auto
  note f = fold_month_days [OF this, of "year t"]
  show ?thesis unfolding datetime_to_unix_def fold_year_days Let_def f by (simp add: days_before_def seconds_of_def)
qed

lemma days_before_step:
  assumes "1 \<le> m" and "m \<le> 12"
  shows "days_before y (unat m + 1) = days_before y (unat m) + ucast (month_length y m)"
proof -
  have m: "1 \<le> unat m" "unat m \<le> 12" using assms by (simp_all add: word_le_nat_alt)
  then have "m \<in> of_nat ` {1..12}" by (intro image_eqI [of _ _ "unat m"]) simp_all
  then have c: "m \<in> {1, 2, 3, 4, 5, 6, 7, 8, 9, 10, 11, 12}" by (auto simp: atLeastAtMost_upt upt_rec)
  have "the (month_days y (unat m)) = ucast (month_length y m)"
    using c by (auto simp: month_days_def month_length_def days_per_month_def)
  with m show ?thesis by (simp add: days_before_def)
qed

lemma days_of_year: "days_before y 13 = year_days (unat y)"
  by (simp add: days_before_def month_days_def days_per_month_def year_days_def upt_rec)

lemma year_step:
  assumes "1970 \<le> y" and "y < 0xFFFFFFFF"
  shows "sum_list (map year_days [1970..<unat (y + 1)]) = sum_list (map year_days [1970..<unat y]) + year_days (unat (y :: u32))"
proof -
  have "unat y < 4294967295" "1970 \<le> unat y" using assms by (simp_all add: word_less_nat_alt word_le_nat_alt)
  moreover from this have "unat (y + 1) = unat y + 1" by (simp add: unat_word_ariths)
  ultimately show ?thesis by simp
qed

text \<open>The fields count up without wrapping around.\<close>

lemma ucast_step: "(x :: u8) < y \<Longrightarrow> (ucast (x + 1) :: u64) = ucast x + 1"
proof -
  assume "x < y"
  then have b: "unat x + 1 < 256" using unsigned_less [of y, where 'a = nat] by (simp add: word_less_nat_alt)
  then have n: "unat (x + 1) = unat x + 1" by (simp add: unat_word_ariths)
  have u: "unat (ucast z :: u64) = unat z" for z :: u8
    using unsigned_less [of z, where 'a = nat] by (simp add: unsigned_ucast_eq take_bit_nat_eq_self)
  have "unat (ucast (x + 1) :: u64) = unat (ucast x + 1 :: u64)" using n b u by (simp add: unat_word_ariths)
  then show ?thesis by (rule unsigned_word_eqI)
qed

lemma last_59: "(x :: u8) < 60 \<Longrightarrow> x < 59 \<or> x = 59" and last_23: "x < 24 \<Longrightarrow> x < 23 \<or> x = 23"
  by unat_arith+

text \<open>The end of the last day of a month and of a year.\<close>

lemma month_end:
  assumes "1 \<le> month t" and "month t < 12"
  shows "days_before (year t) (unat (month t + 1)) = days_before (year t) (unat (month t)) + ucast (month_length (year t) (month t))"
proof -
  have "unat (month t) < 12" using assms(2) by (simp add: word_less_nat_alt)
  then have "unat (month t + 1) = unat (month t) + 1" by (simp add: unat_word_ariths)
  with days_before_step [of "month t" "year t"] assms show ?thesis by simp
qed

lemma year_end:
  assumes "month t = 12" and "1970 \<le> year t" and "year t < 0xFFFFFFFF"
  shows "sum_list (map year_days [1970..<unat (year t + 1)]) =
    sum_list (map year_days [1970..<unat (year t)]) + days_before (year t) (unat (month t)) + ucast (month_length (year t) (month t))"
  using year_step [OF assms(2,3)] days_before_step [of 12 "year t"] days_of_year [of "year t"] assms(1) by simp

lemma day_carry:
  "(a + b + d) * 86400 = (a + b + (d - 1)) * 86400 + 86399 + (1 :: u64)" "(a + (b + d)) * 86400 = (a + b + (d - 1)) * 86400 + 86399 + (1 :: u64)"
  by (simp_all add: algebra_simps)



end
