(* ===== verification/Tty_input.thy ===== *)
theory Tty_input
  imports Kstring "HOL-Library.Monad_Syntax"
begin

section \<open>Keyboard input (\<open>kernel/drivers/input.c\<close>, \<open>kernel/drivers/tty/tty_input.c\<close>)\<close>

text \<open>
  The ring of input events and the layer that turns events into characters, escape sequences or, for a process that has
  taken the keyboard, scancodes. The two ring indices are computed modulo 256 and start at 0: they are bytes. Characters
  waiting at the serial port are a list. Whether a process is alive, the process that runs, and the event devices that
  also receive every event are parameters.
\<close>

subsection \<open>The event ring\<close>

record input_event =
  ev_type :: u16
  ev_code :: u16
  ev_value :: u32

abbreviation (input) EV_KEY :: u16 where "EV_KEY \<equiv> 1"
abbreviation (input) BTN_LEFT :: u16 where "BTN_LEFT \<equiv> 0x110"
abbreviation (input) KEY_RELEASE :: u32 where "KEY_RELEASE \<equiv> 0"
abbreviation (input) KEY_PRESS :: u32 where "KEY_PRESS \<equiv> 1"
abbreviation (input) KEY_REPEAT :: u32 where "KEY_REPEAT \<equiv> 2"

record 'e input_state =
  event_ring :: "u8 \<Rightarrow> input_event"
  ring_head :: u8
  ring_tail :: u8
  repeating_key :: u16
  repeat_delay_timer :: u32
  repeat_rate_timer :: u32
  evdev :: 'e

definition input_init :: "'e input_state \<Rightarrow> 'e input_state" where
  "input_init s = s\<lparr>ring_head := 0, ring_tail := 0, repeating_key := 0\<rparr>"

text \<open>Enter, keypad Enter, Escape, Tab and the modifiers do not repeat.\<close>

definition can_repeat :: "u16 \<Rightarrow> bool" where
  "can_repeat code \<longleftrightarrow> code \<notin> {28, 96, 1, 15, 29, 97, 56, 100, 42, 54}"

definition input_push_event ::
  "(u16 \<Rightarrow> u16 \<Rightarrow> u32 \<Rightarrow> 'e \<Rightarrow> 'e) \<Rightarrow> u16 \<Rightarrow> u16 \<Rightarrow> u32 \<Rightarrow> 'e input_state \<Rightarrow> 'e input_state" where
  "input_push_event evdev_push_event type code value s =
     (let s1 = s\<lparr>evdev := evdev_push_event type code value (evdev s)\<rparr>;
          next = ring_head s1 + 1;
          s2 = (if next \<noteq> ring_tail s1
                then s1\<lparr>event_ring := (event_ring s1)(ring_head s1 := \<lparr>ev_type = type, ev_code = code, ev_value = value\<rparr>), ring_head := next\<rparr>
                else s1)
      in if type = EV_KEY \<and> code < BTN_LEFT \<and> can_repeat code then
           if value = KEY_PRESS then s2\<lparr>repeating_key := code, repeat_delay_timer := 30, repeat_rate_timer := 4\<rparr>
           else if value = KEY_RELEASE then (if code = repeating_key s2 then s2\<lparr>repeating_key := 0\<rparr> else s2)
           else s2
         else if type = EV_KEY \<and> (value = KEY_RELEASE \<or> \<not> can_repeat code) then
           (if code = repeating_key s2 \<or> \<not> can_repeat code then s2\<lparr>repeating_key := 0\<rparr> else s2)
         else s2)"

definition input_pop_event :: "'e input_state \<Rightarrow> (input_event \<times> 'e input_state) option" where
  "input_pop_event s =
     (if ring_head s = ring_tail s then None
      else Some (event_ring s (ring_tail s), s\<lparr>ring_tail := ring_tail s + 1\<rparr>))"

definition input_has_events :: "'e input_state \<Rightarrow> bool" where
  "input_has_events s \<longleftrightarrow> ring_head s \<noteq> ring_tail s"

subsection \<open>Characters\<close>

definition keymap_row :: "u16 \<Rightarrow> string \<Rightarrow> (u16 \<times> u8) list" where
  "keymap_row start cs = map (\<lambda>i. (start + of_nat i, of_char (cs ! i))) [0..<length cs]"

definition keymap_ascii_lower :: "u16 \<Rightarrow> u8" where
  "keymap_ascii_lower code =
     (case map_of (keymap_row 2 ''1234567890-='' @ [(14, 8), (15, 9)] @ keymap_row 16 ''qwertyuiop[]'' @ [(28, 10)] @
        keymap_row 30 ''asdfghjkl;'' @ [(40, 39), (41, 96), (43, 92)] @ keymap_row 44 ''zxcvbnm,./'' @ [(57, 32), (96, 10)]) code of
        Some c \<Rightarrow> c | None \<Rightarrow> 0)"

definition keymap_ascii_upper :: "u16 \<Rightarrow> u8" where
  "keymap_ascii_upper code =
     (case map_of (keymap_row 2 ''!@#$%^&*()_+'' @ [(14, 8), (15, 9)] @ keymap_row 16 ''QWERTYUIOP{}'' @ [(28, 10)] @
        keymap_row 30 ''ASDFGHJKL:'' @ [(40, 34), (41, 126), (43, 124)] @ keymap_row 44 ''ZXCVBNM<>?'' @ [(57, 32), (96, 10)]) code of
        Some c \<Rightarrow> c | None \<Rightarrow> 0)"

text \<open>\<open>escape_seq\<close> are the bytes of the buffer up to \<open>escape_seq_len\<close>.\<close>

record 'e tty_state =
  inp :: "'e input_state"
  serial_in :: bytes
  shift_held :: bool
  ctrl_held :: bool
  caps_locked :: bool
  escape_seq :: bytes
  escape_seq_pos :: nat
  kb_mode :: int
  kb_owner :: u64
  raw_pending :: u8
  raw_has_pending :: bool

definition queue_escape_seq :: "bytes \<Rightarrow> 'e tty_state \<Rightarrow> 'e tty_state" where
  "queue_escape_seq seq st = st\<lparr>escape_seq := take 8 (takeWhile (\<lambda>c. c \<noteq> 0) seq), escape_seq_pos := 0\<rparr>"

text \<open>The final characters of the sequences for the arrow keys, Home and End.\<close>

definition escape_keys :: "(u16 \<times> u8) list" where
  "escape_keys = [(103, 65), (108, 66), (106, 67), (105, 68), (102, 72), (107, 70)]"

definition input_event_to_ascii :: "input_event \<Rightarrow> 'e tty_state \<Rightarrow> u8 \<times> 'e tty_state" where
  "input_event_to_ascii ev st =
     (let code = ev_code ev; down = ev_value ev = KEY_PRESS \<or> ev_value ev = KEY_REPEAT in
      if ev_type ev \<noteq> EV_KEY then (0, st)
      else if code = 42 \<or> code = 54 then (0, st\<lparr>shift_held := down\<rparr>)
      else if code = 29 \<or> code = 97 then (0, st\<lparr>ctrl_held := down\<rparr>)
      else if code = 58 \<and> ev_value ev = KEY_PRESS then (0, st\<lparr>caps_locked := \<not> caps_locked st\<rparr>)
      else if \<not> down then (0, st)
      else case map_of escape_keys code of
             Some c \<Rightarrow> (0, queue_escape_seq [27, 91, c] st)
           | None \<Rightarrow>
               let base = keymap_ascii_lower code in
               if ctrl_held st \<and> code < 128 \<and> 97 \<le> base \<and> base \<le> 122 then (base - 97 + 1, st)
               else if code < 128 then
                 (if shift_held st \<noteq> caps_locked st then keymap_ascii_upper code else base, st)
               else (0, st))"

subsection \<open>The key table of the console (\<open>KDGKBENT\<close>)\<close>

definition KBV :: "u16 \<Rightarrow> u8 \<Rightarrow> u16" where
  "KBV type value = push_bit 8 type OR ucast value"

text \<open>Key, type and value of the cases of the switch.\<close>

definition kb_special :: "(u8 \<times> u16 \<times> u8) list" where
  "kb_special =
    [(1, 0, 27), (14, 0, 127), (15, 0, 9), (28, 2, 1), (58, 2, 7), (69, 2, 8), (70, 2, 9), (42, 7, 0), (54, 7, 0), (29, 7, 2), (97, 7, 2),
     (56, 7, 3), (100, 7, 3), (87, 1, 10), (88, 1, 11), (102, 1, 20), (110, 1, 21), (111, 1, 22), (107, 1, 23), (104, 1, 24), (109, 1, 25),
     (108, 6, 0), (105, 6, 1), (106, 6, 2), (103, 6, 3), (82, 3, 0), (79, 3, 1), (80, 3, 2), (81, 3, 3), (75, 3, 4), (76, 3, 5), (77, 3, 6),
     (71, 3, 7), (72, 3, 8), (73, 3, 9), (78, 3, 10), (74, 3, 11), (55, 3, 12), (98, 3, 13), (96, 3, 14), (83, 3, 16)]"

definition tty_get_kb_entry :: "u8 \<Rightarrow> u8 \<Rightarrow> u16" where
  "tty_get_kb_entry table index =
     (if table > 1 then KBV 2 127
      else if index \<ge> 128 then KBV 2 0
      else case map_of kb_special index of
             Some (type, value) \<Rightarrow> KBV type value
           | None \<Rightarrow>
               if 59 \<le> index \<and> index \<le> 68 then KBV 1 (index - 59)
               else
                 let c = (if table \<noteq> 0 then keymap_ascii_upper (ucast index) else keymap_ascii_lower (ucast index)) in
                 if (97 \<le> c \<and> c \<le> 122) \<or> (65 \<le> c \<and> c \<le> 90) then KBV 11 c
                 else if 32 \<le> c \<and> c < 127 then KBV 0 c
                 else KBV 2 0)"

subsection \<open>Raw mode\<close>

abbreviation (input) K_RAW :: int where "K_RAW \<equiv> 0"
abbreviation (input) K_XLATE :: int where "K_XLATE \<equiv> 1"
abbreviation (input) K_MEDIUMRAW :: int where "K_MEDIUMRAW \<equiv> 2"

text \<open>\<open>cur\<close> is the number of the process that runs, if any.\<close>

definition tty_set_kb_mode :: "u64 option \<Rightarrow> int \<Rightarrow> 'e tty_state \<Rightarrow> 'e tty_state" where
  "tty_set_kb_mode cur mode st =
     (let st1 = st\<lparr>raw_has_pending := False\<rparr> in
      if mode = K_RAW \<or> mode = K_MEDIUMRAW then st1\<lparr>kb_mode := mode, kb_owner := (case cur of Some p \<Rightarrow> p | None \<Rightarrow> 0)\<rparr>
      else st1\<lparr>kb_mode := K_XLATE, kb_owner := 0\<rparr>)"

definition tty_get_kb_mode :: "'e tty_state \<Rightarrow> int" where
  "tty_get_kb_mode st = kb_mode st"

text \<open>\<open>alive p\<close>: there is a process \<open>p\<close> and it has not exited.\<close>

definition tty_kb_grabbed :: "(u64 \<Rightarrow> bool) \<Rightarrow> 'e tty_state \<Rightarrow> bool \<times> 'e tty_state" where
  "tty_kb_grabbed alive st =
     (if kb_mode st = K_XLATE then (False, st)
      else if kb_owner st = 0 \<or> \<not> alive (kb_owner st)
      then (False, st\<lparr>kb_mode := K_XLATE, kb_owner := 0, raw_has_pending := False\<rparr>)
      else (True, st))"

definition tty_kb_mine :: "u64 option \<Rightarrow> 'e tty_state \<Rightarrow> bool" where
  "tty_kb_mine cur st \<longleftrightarrow> cur = Some (kb_owner st)"

definition at_extended_code :: "u16 \<Rightarrow> u8" where
  "at_extended_code code =
     (case map_of [(96, 0x1C), (97, 0x1D), (98, 0x35), (100, 0x38), (102, 0x47), (103, 0x48), (104, 0x49), (105, 0x4B), (106, 0x4D),
        (107, 0x4F), (108, 0x50), (109, 0x51), (110, 0x52), (111, 0x53), (125, 0x5B), (126, 0x5C), (127, 0x5D)] code of
        Some c \<Rightarrow> c | None \<Rightarrow> 0)"

lemma pop_measure:
  assumes "input_pop_event s = Some (ev, s')"
  shows "unat (ring_head s' - ring_tail s') < unat (ring_head s - ring_tail s)"
proof -
  let ?d = "ring_head s - ring_tail s"
  have d: "?d \<noteq> 0" "ring_head s' - ring_tail s' = ?d - 1"
    using assms by (auto simp: input_pop_event_def algebra_simps split: if_splits)
  then have "0 < unat ?d" using d(1) unat_gt_0 by blast
  with d show ?thesis by (simp add: unat_minus_one)
qed

text \<open>Events that are not keys of the keyboard, and keys without a scancode, are dropped.\<close>

function raw_loop :: "'e tty_state \<Rightarrow> int \<times> 'e tty_state" where
  "raw_loop st =
     (case input_pop_event (inp st) of
        None \<Rightarrow> (- 1, st)
      | Some (ev, i) \<Rightarrow>
          let st1 = st\<lparr>inp := i\<rparr>; code = ev_code ev; up = (if ev_value ev = KEY_RELEASE then 0x80 else 0 :: u8) in
          if ev_type ev \<noteq> EV_KEY \<or> code = 0 \<or> code \<ge> 128 then raw_loop st1
          else if kb_mode st1 = K_MEDIUMRAW then (uint (code OR ucast up), st1)
          else
            let ext = at_extended_code code in
            if ext \<noteq> 0 then (0xE0, st1\<lparr>raw_pending := ext OR up, raw_has_pending := True\<rparr>)
            else if code \<le> 88 then (uint (code OR ucast up), st1)
            else raw_loop st1)"
  by auto
termination raw_loop
  by (relation "measure (\<lambda>st. unat (ring_head (inp st) - ring_tail (inp st)))") (auto dest: pop_measure)

declare raw_loop.simps [simp del]

definition tty_raw_next :: "'e tty_state \<Rightarrow> int \<times> 'e tty_state" where
  "tty_raw_next st =
     (if raw_has_pending st then (uint (raw_pending st), st\<lparr>raw_has_pending := False\<rparr>) else raw_loop st)"

subsection \<open>Reading\<close>

definition tty_has_char :: "(u64 \<Rightarrow> bool) \<Rightarrow> u64 option \<Rightarrow> 'e tty_state \<Rightarrow> bool \<times> 'e tty_state" where
  "tty_has_char alive cur st =
     (let (g, st1) = tty_kb_grabbed alive st in
      (if g then if tty_kb_mine cur st1 then raw_has_pending st1 \<or> input_has_events (inp st1) else serial_in st1 \<noteq> []
       else escape_seq_pos st1 < length (escape_seq st1) \<or> serial_in st1 \<noteq> [] \<or> input_has_events (inp st1), st1))"

definition serial_char :: "'e tty_state \<Rightarrow> int \<times> 'e tty_state" where
  "serial_char st = (let c = hd (serial_in st) in (uint (if c = 13 then 10 else c), st\<lparr>serial_in := tl (serial_in st)\<rparr>))"

definition next_escape :: "'e tty_state \<Rightarrow> int \<times> 'e tty_state" where
  "next_escape st = (uint (escape_seq st ! escape_seq_pos st), st\<lparr>escape_seq_pos := escape_seq_pos st + 1\<rparr>)"

lemma ascii_keeps_inp [simp]: "inp (snd (input_event_to_ascii ev st)) = inp st"
  by (simp add: input_event_to_ascii_def queue_escape_seq_def Let_def split: option.split)

function char_loop :: "'e tty_state \<Rightarrow> int \<times> 'e tty_state" where
  "char_loop st =
     (case input_pop_event (inp st) of
        None \<Rightarrow> (- 1, st)
      | Some (ev, i) \<Rightarrow>
          let (c, st1) = input_event_to_ascii ev (st\<lparr>inp := i\<rparr>) in
          if escape_seq_pos st1 < length (escape_seq st1) then next_escape st1
          else if c \<noteq> 0 then (uint (if c = 13 then 10 else c), st1)
          else char_loop st1)"
  by auto
termination char_loop
proof (relation "measure (\<lambda>st. unat (ring_head (inp st) - ring_tail (inp st)))")
  fix st :: "'e tty_state" and x ev i y c st1
  assume a: "input_pop_event (inp st) = Some x" "(ev, i) = x" "y = input_event_to_ascii ev (st\<lparr>inp := i\<rparr>)" "(c, st1) = y"
  then have "inp st1 = i" using ascii_keeps_inp [of ev "st\<lparr>inp := i\<rparr>"] by (metis snd_conv tty_state.select_convs(1) tty_state.update_convs(1) tty_state.surjective)
  with a pop_measure [of "inp st" ev i] show "(st1, st) \<in> measure (\<lambda>st. unat (ring_head (inp st) - ring_tail (inp st)))" by simp
qed simp

declare char_loop.simps [simp del]

definition tty_getchar_nonblock :: "(u64 \<Rightarrow> bool) \<Rightarrow> u64 option \<Rightarrow> 'e tty_state \<Rightarrow> int \<times> 'e tty_state" where
  "tty_getchar_nonblock alive cur st =
     (let (g, st1) = tty_kb_grabbed alive st in
      if g then
        if tty_kb_mine cur st1 then tty_raw_next st1
        else if serial_in st1 \<noteq> [] then serial_char st1 else (- 1, st1)
      else if escape_seq_pos st1 < length (escape_seq st1) then next_escape st1
      else if serial_in st1 \<noteq> [] then serial_char st1
      else char_loop st1)"

text \<open>
  The waiting loop over what the interrupts between the halts do to the state; no value when no character arrives.
\<close>

fun tty_getchar :: "(u64 \<Rightarrow> bool) \<Rightarrow> u64 option \<Rightarrow> ('e tty_state \<Rightarrow> 'e tty_state) list \<Rightarrow> 'e tty_state \<Rightarrow> (u8 \<times> 'e tty_state) option" where
  "tty_getchar alive cur irqs st =
     (let (c, st1) = tty_getchar_nonblock alive cur st in
      if c \<noteq> - 1 then Some (of_int c, st1)
      else case irqs of
             [] \<Rightarrow> None
           | f # fs \<Rightarrow> tty_getchar alive cur fs (f st1))"

declare tty_getchar.simps [simp del]

section \<open>Scancodes\<close>

text \<open>The events in the ring, oldest first.\<close>

definition events :: "'e input_state \<Rightarrow> input_event list" where
  "events s = map (\<lambda>i. event_ring s (ring_tail s + of_nat i)) [0..<unat (ring_head s - ring_tail s)]"

lemma input_pop_events:
  "events s = [] \<Longrightarrow> input_pop_event s = None"
  "events s = ev # evs \<Longrightarrow> \<exists>s'. input_pop_event s = Some (ev, s') \<and> events s' = evs"
proof -
  show "events s = [] \<Longrightarrow> input_pop_event s = None"
    by (simp add: events_def input_pop_event_def unat_eq_zero)
  let ?d = "ring_head s - ring_tail s"
  assume e: "events s = ev # evs"
  then have d: "?d \<noteq> 0" by (auto simp: events_def)
  then have "0 < unat ?d" using unat_gt_0 by blast
  with unat_minus_one [OF d] have n: "unat ?d = Suc (unat (?d - 1))" by linarith
  have "ring_head s - (ring_tail s + 1) = ?d - 1" by (simp add: algebra_simps)
  moreover have "ev = event_ring s (ring_tail s)" "evs = map (\<lambda>i. event_ring s (ring_tail s + of_nat (Suc i))) [0..<unat (?d - 1)]"
    using e unfolding events_def n by (auto simp add: upt_conv_Cons map_Suc_upt [symmetric] o_def simp del: upt_Suc)
  ultimately show "\<exists>s'. input_pop_event s = Some (ev, s') \<and> events s' = evs"
    using d by (auto simp: input_pop_event_def events_def algebra_simps)
qed

text \<open>A full ring drops the event; otherwise it goes to the end.\<close>

lemma input_push_events:
  "events (input_push_event f ty code v s) =
     (if length (events s) < 255 then events s @ [\<lparr>ev_type = ty, ev_code = code, ev_value = v\<rparr>] else events s)"
proof -
  let ?d = "ring_head s - ring_tail s" and ?e = "\<lparr>ev_type = ty, ev_code = code, ev_value = v\<rparr>"
  let ?s = "s\<lparr>event_ring := (event_ring s)(ring_head s := ?e), ring_head := ring_head s + 1\<rparr>"
  have k: "events (input_push_event f ty code v s) = (if ring_head s + 1 \<noteq> ring_tail s then events ?s else events s)"
    by (simp add: input_push_event_def events_def Let_def)
  have full: "ring_head s + 1 = ring_tail s \<longleftrightarrow> unat ?d = 255"
  proof -
    have "ring_head s + 1 = ring_tail s \<longleftrightarrow> ?d = - 1" by (simp add: diff_eq_eq) (metis add_diff_cancel_right' diff_add_cancel uminus_add_conv_diff)
    also have "\<dots> \<longleftrightarrow> unat ?d = unat (- 1 :: u8)" by (metis unsigned_word_eqI)
    also have "unat (- 1 :: u8) = 255" by (simp add: unsigned_minus_1_eq_mask mask_eq_exp_minus_1)
    finally show ?thesis .
  qed
  have l: "length (events s) = unat ?d" by (simp add: events_def)
  have b: "unat ?d < 256" using unsigned_less [of ?d, where 'a = nat] by simp
  show ?thesis
  proof (cases "unat ?d = 255")
    case True
    with k full l show ?thesis by simp
  next
    case False
    then have n: "unat (?d + 1) = Suc (unat ?d)" using b by (simp add: unat_word_ariths)
    have "ring_head s + 1 - ring_tail s = ?d + 1" by (simp add: algebra_simps)
    with n have m: "unat (ring_head s + 1 - ring_tail s) = Suc (unat ?d)" by (simp only:)
    have "ring_tail s + of_nat i \<noteq> ring_head s" if "i < unat ?d" for i
    proof
      assume "ring_tail s + of_nat i = ring_head s"
      then have "?d = of_nat i" by (metis add_diff_cancel_left')
      with that b show False by (simp add: unat_of_nat)
    qed
    moreover have "ring_tail s + of_nat (unat ?d) = ring_head s" by simp
    ultimately have "events ?s = events s @ [?e]" by (simp add: events_def m)
    with k full l b False show ?thesis by simp
  qed
qed

text \<open>
  What the owner of the keyboard is to receive for an event: its code, with the top bit for a release. In the AT mode
  the keys of the extended block have the prefix \<open>0xE0\<close>, and codes above F12 without a scancode have none.
\<close>

definition scancodes :: "int \<Rightarrow> input_event \<Rightarrow> bytes" where
  "scancodes mode ev =
     (let code = ev_code ev; up = (if ev_value ev = KEY_RELEASE then 0x80 else 0) in
      if ev_type ev \<noteq> EV_KEY \<or> code = 0 \<or> code \<ge> 128 then []
      else if mode = K_MEDIUMRAW then [ucast code OR up]
      else if at_extended_code code \<noteq> 0 then [0xE0, at_extended_code code OR up]
      else if code \<le> 88 then [ucast code OR up] else [])"

definition raw_bytes :: "'e tty_state \<Rightarrow> bytes" where
  "raw_bytes st = (if raw_has_pending st then [raw_pending st] else []) @ concat (map (scancodes (kb_mode st)) (events (inp st)))"

lemma code_byte: "c < 128 \<Longrightarrow> uint ((c :: u16) OR ucast (u :: u8)) = uint (ucast c OR u :: u8)"
proof -
  assume "c < 128"
  then have "uint c < 128" by (simp add: word_less_def)
  then have "uint (ucast c :: u8) = uint c" by (simp add: unsigned_ucast_eq take_bit_int_eq_self)
  moreover have "uint u < 256" using unsigned_less [of u, where 'a = int] by simp
  then have "uint (ucast u :: u16) = uint u" by (simp add: unsigned_ucast_eq take_bit_int_eq_self)
  ultimately show ?thesis by (simp add: unsigned_or_eq)
qed

lemma code_byte_up: "\<not> 128 \<le> c \<Longrightarrow> uint ((c :: u16) OR 128) = uint (ucast c OR 128 :: u8)" "\<not> 128 \<le> c \<Longrightarrow> uint (c :: u16) = uint (ucast c :: u8)"
  using code_byte [of c 128] code_byte [of c 0] by simp_all

lemma raw_loop_bytes:
  assumes "\<not> raw_has_pending st"
  shows "(raw_bytes st = [] \<longrightarrow> fst (raw_loop st) = - 1 \<and> raw_bytes (snd (raw_loop st)) = []) \<and>
    (\<forall>b bs. raw_bytes st = b # bs \<longrightarrow> fst (raw_loop st) = uint b \<and> raw_bytes (snd (raw_loop st)) = bs) \<and>
    kb_mode (snd (raw_loop st)) = kb_mode st"
  using assms
proof (induction st rule: raw_loop.induct)
  case (1 st)
  show ?case
  proof (cases "events (inp st)")
    case Nil
    with input_pop_events(1) [OF Nil] 1(3) show ?thesis by (simp add: raw_loop.simps [of st] raw_bytes_def)
  next
    case (Cons ev evs)
    then obtain i where i: "input_pop_event (inp st) = Some (ev, i)" "events i = evs" using input_pop_events(2) by blast
    let ?st = "st\<lparr>inp := i\<rparr>"
    have r: "raw_bytes st = scancodes (kb_mode st) ev @ raw_bytes ?st" using Cons i 1(3) by (simp add: raw_bytes_def)
    have np: "\<not> raw_has_pending ?st" using 1(3) by simp
    note s = raw_loop.simps [of st]
    show ?thesis
    proof (cases "scancodes (kb_mode st) ev = []")
      case True
      then have "raw_loop st = raw_loop ?st" using i(1) s by (auto simp: scancodes_def Let_def split: if_splits)
      moreover have "(raw_bytes ?st = [] \<longrightarrow> fst (raw_loop ?st) = - 1 \<and> raw_bytes (snd (raw_loop ?st)) = []) \<and>
          (\<forall>b bs. raw_bytes ?st = b # bs \<longrightarrow> fst (raw_loop ?st) = uint b \<and> raw_bytes (snd (raw_loop ?st)) = bs) \<and>
          kb_mode (snd (raw_loop ?st)) = kb_mode ?st"
        using True 1(1) [OF i(1) refl refl refl refl _ np] 1(2) [OF i(1) refl refl refl refl _ _ refl _ _ np]
        by (auto simp: scancodes_def Let_def split: if_splits)
      ultimately show ?thesis using r True by simp
    next
      case False
      then show ?thesis
        using i s r np by (auto simp: scancodes_def Let_def code_byte_up raw_bytes_def split: if_splits)
    qed
  qed
qed

lemma grabbed: "kb_mode st \<noteq> K_XLATE \<Longrightarrow> kb_owner st \<noteq> 0 \<Longrightarrow> alive (kb_owner st) \<Longrightarrow> tty_kb_grabbed alive st = (True, st)"
  by (simp add: tty_kb_grabbed_def)

lemma raw_next_bytes:
  "(raw_bytes st = [] \<longrightarrow> fst (tty_raw_next st) = - 1 \<and> raw_bytes (snd (tty_raw_next st)) = []) \<and>
    (\<forall>b bs. raw_bytes st = b # bs \<longrightarrow> fst (tty_raw_next st) = uint b \<and> raw_bytes (snd (tty_raw_next st)) = bs)"
  using raw_loop_bytes [of st] by (cases "raw_has_pending st") (auto simp: tty_raw_next_def raw_bytes_def)

text \<open>
  C39. A process that has taken the keyboard receives the key events as one byte stream. Every event that the ring
  accepts adds its scancodes at the end of the stream; every read of the owner takes the first byte, and answers that
  nothing is there exactly when the stream is empty; a read of any other process takes nothing from it.
\<close>

theorem raw_keyboard_stream:
  assumes "kb_mode st \<noteq> K_XLATE" and "kb_owner st \<noteq> 0" and "alive (kb_owner st)" and "length (events (inp st)) < 255"
    and "cur \<noteq> Some (kb_owner st)"
  shows "raw_bytes (st\<lparr>inp := input_push_event f ty code v (inp st)\<rparr>) =
      raw_bytes st @ scancodes (kb_mode st) \<lparr>ev_type = ty, ev_code = code, ev_value = v\<rparr> \<and>
    (case tty_getchar_nonblock alive (Some (kb_owner st)) st of (c, st') \<Rightarrow>
      (case raw_bytes st of [] \<Rightarrow> c = - 1 \<and> raw_bytes st' = [] | b # bs \<Rightarrow> c = uint b \<and> raw_bytes st' = bs)) \<and>
    raw_bytes (snd (tty_getchar_nonblock alive cur st)) = raw_bytes st"
proof -
  note g = grabbed [of st alive, OF assms(1-3)]
  have "tty_getchar_nonblock alive (Some (kb_owner st)) st = tty_raw_next st"
    by (simp add: tty_getchar_nonblock_def g tty_kb_mine_def)
  moreover have "raw_bytes (snd (tty_getchar_nonblock alive cur st)) = raw_bytes st"
    using assms(5) by (simp add: tty_getchar_nonblock_def g tty_kb_mine_def serial_char_def raw_bytes_def Let_def)
  moreover have "raw_bytes (st\<lparr>inp := input_push_event f ty code v (inp st)\<rparr>) =
      raw_bytes st @ scancodes (kb_mode st) \<lparr>ev_type = ty, ev_code = code, ev_value = v\<rparr>"
    using assms(4) by (simp add: raw_bytes_def input_push_events)
  ultimately show ?thesis using raw_next_bytes [of st] by (auto split: list.splits prod.splits)
qed

definition demo_tty :: "unit tty_state" where
  "demo_tty = \<lparr>inp = \<lparr>event_ring = \<lambda>_. \<lparr>ev_type = 1, ev_code = 103, ev_value = 0\<rparr>, ring_head = 2, ring_tail = 1, repeating_key = 0,
     repeat_delay_timer = 0, repeat_rate_timer = 0, evdev = ()\<rparr>, serial_in = [], shift_held = False, ctrl_held = False,
     caps_locked = False, escape_seq = [], escape_seq_pos = 0, kb_mode = 0, kb_owner = 7, raw_pending = 0, raw_has_pending = False\<rparr>"

theorem raw_keyboard_stream_witness:
  "raw_bytes demo_tty = [0xE0, 0xC8] \<and>
    raw_bytes (demo_tty\<lparr>inp := input_push_event (\<lambda>_ _ _ x. x) 1 30 1 (inp demo_tty)\<rparr>) = [0xE0, 0xC8, 30] \<and>
    fst (tty_getchar_nonblock (\<lambda>_. True) (Some 7) demo_tty) = 0xE0 \<and>
    raw_bytes (snd (tty_getchar_nonblock (\<lambda>_. True) (Some 7) demo_tty)) = [0xC8] \<and>
    raw_bytes (snd (tty_getchar_nonblock (\<lambda>_. True) (Some 8) demo_tty)) = [0xE0, 0xC8]"
proof -
  have r: "raw_bytes demo_tty = [0xE0, 0xC8]" "kb_owner demo_tty = 7" "length (events (inp demo_tty)) < 255" "kb_mode demo_tty = 0"
    by (simp_all add: demo_tty_def raw_bytes_def events_def scancodes_def at_extended_code_def)
  have c: "scancodes 0 \<lparr>ev_type = 1, ev_code = 30, ev_value = 1\<rparr> = [30]" by (simp add: scancodes_def at_extended_code_def)
  have "kb_mode demo_tty \<noteq> K_XLATE" "kb_owner demo_tty \<noteq> 0" "Some 8 \<noteq> Some (kb_owner demo_tty)" using r by simp_all
  from raw_keyboard_stream [OF this(1,2) _ r(3) this(3), of "\<lambda>_. True" "\<lambda>_ _ _ x. x" 1 30 1] r c show ?thesis
    by (simp split: prod.splits)
qed

end
