(* ===== verification/Pagecache.thy ===== *)
theory Pagecache
  imports Objects Vnode Dll "HOL-Library.Monad_Syntax"
begin

section \<open>The page cache (\<open>kernel/fs/pagecache.c\<close>)\<close>

text \<open>
  The cache of file pages: entries in a store at the addresses the heap gives them, chained in 1024 hash buckets and in
  one doubly linked list in order of use; the clock search for a victim; the table of sequential streams; reading with
  read-ahead and write-through writing. Following a pointer to a released entry has no value (\<open>None\<close>), nor has a walk
  along a cyclic chain. The read and write operations of the file system are functions on the heap with its byte memory,
  parameters of the operations here (\<open>None\<close> for a \<open>NULL\<close> pointer). The second part proves that the list of use is a
  list: taking out, pushing to the front and the lookup keep its links consistent.
\<close>

subsection \<open>State\<close>

record page_cache_entry =
  pe_inode :: u64
  pe_index :: u64
  pe_phys :: u64
  pe_dirty :: bool
  pe_referenced :: bool
  hash_next :: "nat option"
  lru_next :: "nat option"
  lru_prev :: "nat option"

record seq_track =
  sq_valid :: bool
  sq_inode :: u64
  sq_next_off :: u64

record pc_state =
  pc_heap :: heap
  entries :: "nat \<Rightarrow> page_cache_entry option"
  hash_table :: "nat \<Rightarrow> nat option"
  lru_head :: "nat option"
  lru_tail :: "nat option"
  cached_page_count :: u64
  seq_table :: "seq_track list"
  seq_victim :: nat

abbreviation (input) PAGE_CACHE_HASH_SIZE :: nat where "PAGE_CACHE_HASH_SIZE \<equiv> 1024"
abbreviation (input) PAGE_CACHE_MAX_PAGES :: u64 where "PAGE_CACHE_MAX_PAGES \<equiv> 2048"
abbreviation (input) PAGE_CACHE_SEQ_TRACK :: nat where "PAGE_CACHE_SEQ_TRACK \<equiv> 16"

text \<open>\<open>sizeof(page_cache_entry_t)\<close>.\<close>

abbreviation (input) PC_ENTRY_SIZE :: u64 where "PC_ENTRY_SIZE \<equiv> 56"

type_synonym dev_io = "u64 \<Rightarrow> u64 \<Rightarrow> nat \<Rightarrow> heap \<Rightarrow> heap"

definition page_cache_hash :: "u64 \<Rightarrow> u64 \<Rightarrow> nat" where
  "page_cache_hash inode page_index = unat ((inode XOR (page_index * 0x9E3779B97F4A7C15)) mod 1024)"

definition upd_entry :: "nat \<Rightarrow> (page_cache_entry \<Rightarrow> page_cache_entry) \<Rightarrow> pc_state \<Rightarrow> pc_state option" where
  "upd_entry a f s = map_option (\<lambda>e. s\<lparr>entries := (entries s)(a \<mapsto> f e)\<rparr>) (entries s a)"

subsection \<open>The list of use\<close>

definition lru_remove :: "nat \<Rightarrow> pc_state \<Rightarrow> pc_state option" where
  "lru_remove a s = do {
     e \<leftarrow> entries s a;
     s1 \<leftarrow> (case lru_prev e of
              Some p \<Rightarrow> upd_entry p (\<lambda>x. x\<lparr>lru_next := lru_next e\<rparr>) s
            | None \<Rightarrow> Some (s\<lparr>lru_head := lru_next e\<rparr>));
     e1 \<leftarrow> entries s1 a;
     s2 \<leftarrow> (case lru_next e1 of
              Some n \<Rightarrow> upd_entry n (\<lambda>x. x\<lparr>lru_prev := lru_prev e1\<rparr>) s1
            | None \<Rightarrow> Some (s1\<lparr>lru_tail := lru_prev e1\<rparr>));
     upd_entry a (\<lambda>x. x\<lparr>lru_next := None, lru_prev := None\<rparr>) s2
   }"

definition lru_push_front :: "nat \<Rightarrow> pc_state \<Rightarrow> pc_state option" where
  "lru_push_front a s = do {
     s1 \<leftarrow> upd_entry a (\<lambda>x. x\<lparr>lru_prev := None, lru_next := lru_head s\<rparr>) s;
     s2 \<leftarrow> (case lru_head s1 of
              Some h \<Rightarrow> upd_entry h (\<lambda>x. x\<lparr>lru_prev := Some a\<rparr>) s1
            | None \<Rightarrow> Some (s1\<lparr>lru_tail := Some a\<rparr>));
     Some (s2\<lparr>lru_head := Some a\<rparr>)
   }"

subsection \<open>Lookup, eviction, allocation\<close>

partial_function (option) chain_find ::
  "(nat \<Rightarrow> page_cache_entry option) \<Rightarrow> u64 \<Rightarrow> u64 \<Rightarrow> nat option \<Rightarrow> nat option option" where
  "chain_find E inode page_index cur =
     (if cur = None then Some None
      else do {
        e \<leftarrow> E (the cur);
        if pe_inode e = inode \<and> pe_index e = page_index then Some cur
        else chain_find E inode page_index (hash_next e)
      })"

definition page_cache_lookup :: "u64 \<Rightarrow> u64 \<Rightarrow> pc_state \<Rightarrow> (nat option \<times> pc_state) option" where
  "page_cache_lookup inode page_index s = do {
     found \<leftarrow> chain_find (entries s) inode page_index (hash_table s (page_cache_hash inode page_index));
     (case found of
        None \<Rightarrow> Some (None, s)
      | Some a \<Rightarrow> do {
          s1 \<leftarrow> upd_entry a (\<lambda>x. x\<lparr>pe_referenced := True\<rparr>) s;
          s2 \<leftarrow> lru_remove a s1;
          s3 \<leftarrow> lru_push_front a s2;
          Some (Some a, s3)
        })
   }"

text \<open>The clock: from the tail on, referenced entries lose the mark and are passed over.\<close>

partial_function (option) clock_search :: "nat option \<Rightarrow> pc_state \<Rightarrow> (nat option \<times> pc_state) option" where
  "clock_search victim s =
     (if victim = None then Some (None, s)
      else do {
        e \<leftarrow> entries s (the victim);
        if pe_referenced e then do {
          s1 \<leftarrow> upd_entry (the victim) (\<lambda>x. x\<lparr>pe_referenced := False\<rparr>) s;
          clock_search (lru_prev e) s1
        } else Some (victim, s)
      })"

text \<open>Taking the victim out of its bucket: \<open>prev\<close> is the entry whose pointer is looked at, \<open>None\<close> for the bucket itself.\<close>

partial_function (option) hash_unlink :: "nat \<Rightarrow> nat \<Rightarrow> nat option \<Rightarrow> nat option \<Rightarrow> pc_state \<Rightarrow> pc_state option" where
  "hash_unlink bucket victim prev cur s =
     (if cur = None then Some s
      else do {
        e \<leftarrow> entries s (the cur);
        if the cur = victim then
          (case prev of
             None \<Rightarrow> Some (s\<lparr>hash_table := (hash_table s)(bucket := hash_next e)\<rparr>)
           | Some p \<Rightarrow> upd_entry p (\<lambda>x. x\<lparr>hash_next := hash_next e\<rparr>) s)
        else hash_unlink bucket victim cur (hash_next e) s
      })"

definition page_cache_evict_one :: "nat \<Rightarrow> pc_state \<Rightarrow> pc_state option" where
  "page_cache_evict_one hhdm s = do {
     (v, s1) \<leftarrow> clock_search (lru_tail s) s;
     (case (if v = None then lru_tail s1 else v) of
        None \<Rightarrow> Some s1
      | Some a \<Rightarrow> do {
          e \<leftarrow> entries s1 a;
          let bucket = page_cache_hash (pe_inode e) (pe_index e);
          s2 \<leftarrow> hash_unlink bucket a None (hash_table s1 bucket) s1;
          s3 \<leftarrow> lru_remove a s2;
          let h = pc_heap s3;
          let h1 = (if pe_phys e \<noteq> 0 then h\<lparr>hpmm := pmm_free (pe_phys e) (hpmm h)\<rparr> else h);
          h2 \<leftarrow> kfree hhdm a h1;
          Some (s3\<lparr>pc_heap := h2, entries := (entries s3)(a := None), cached_page_count := cached_page_count s3 - 1\<rparr>)
        })
   }"

definition page_cache_allocate :: "nat \<Rightarrow> (pmm \<Rightarrow> pmm) \<Rightarrow> u64 \<Rightarrow> u64 \<Rightarrow> pc_state \<Rightarrow> (nat option \<times> pc_state) option" where
  "page_cache_allocate hhdm oom inode page_index s = do {
     s1 \<leftarrow> (if cached_page_count s \<ge> PAGE_CACHE_MAX_PAGES then page_cache_evict_one hhdm s else Some s);
     let (phys, p) = pmm_alloc oom (hpmm (pc_heap s1));
     let h = (pc_heap s1)\<lparr>hpmm := p\<rparr>;
     if phys = 0 then Some (None, s1\<lparr>pc_heap := h\<rparr>)
     else do {
       (a, h1) \<leftarrow> kmalloc hhdm oom PC_ENTRY_SIZE h;
       if a = 0 then Some (None, s1\<lparr>pc_heap := h1\<lparr>hpmm := pmm_free phys (hpmm h1)\<rparr>\<rparr>)
       else do {
         let bucket = page_cache_hash inode page_index;
         let e = \<lparr>pe_inode = inode, pe_index = page_index, pe_phys = phys, pe_dirty = False, pe_referenced = True,
                  hash_next = hash_table s1 bucket, lru_next = None, lru_prev = None\<rparr>;
         s2 \<leftarrow> lru_push_front a (s1\<lparr>pc_heap := h1, entries := (entries s1)(a \<mapsto> e), hash_table := (hash_table s1)(bucket \<mapsto> a)\<rparr>);
         Some (Some a, s2\<lparr>cached_page_count := cached_page_count s2 + 1\<rparr>)
       }
     }
   }"

subsection \<open>Sequential streams\<close>

definition seq_find :: "u64 \<Rightarrow> seq_track list \<Rightarrow> nat option" where
  "seq_find inode tab = find (\<lambda>i. sq_valid (tab ! i) \<and> sq_inode (tab ! i) = inode) [0..<length tab]"

definition page_cache_seq_observe :: "u64 \<Rightarrow> u64 \<Rightarrow> pc_state \<Rightarrow> bool \<times> pc_state" where
  "page_cache_seq_observe inode off s =
     (case seq_find inode (seq_table s) of
        None \<Rightarrow>
          (True, s\<lparr>seq_table := (seq_table s)[seq_victim s := \<lparr>sq_valid = True, sq_inode = inode, sq_next_off = off\<rparr>],
                   seq_victim := (seq_victim s + 1) mod PAGE_CACHE_SEQ_TRACK\<rparr>)
      | Some i \<Rightarrow>
          let t = seq_table s ! i in
          (off = sq_next_off t,
           s\<lparr>seq_table := t\<lparr>sq_next_off := off\<rparr> # take i (seq_table s) @ drop (i + 1) (seq_table s)\<rparr>))"

definition page_cache_seq_anchor :: "u64 \<Rightarrow> u64 \<Rightarrow> pc_state \<Rightarrow> pc_state" where
  "page_cache_seq_anchor inode next_off s =
     (case seq_find inode (seq_table s) of
        None \<Rightarrow> s
      | Some i \<Rightarrow> s\<lparr>seq_table := (seq_table s)[i := (seq_table s ! i)\<lparr>sq_next_off := next_off\<rparr>]\<rparr>)"

subsection \<open>Reading\<close>

definition page_virt :: "nat \<Rightarrow> page_cache_entry \<Rightarrow> nat" where
  "page_virt hhdm e = unat (pe_phys e) + hhdm"

definition on_heap :: "(heap \<Rightarrow> heap) \<Rightarrow> pc_state \<Rightarrow> pc_state" where
  "on_heap f s = s\<lparr>pc_heap := f (pc_heap s)\<rparr>"

text \<open>A new page is cleared and filled by the file system.\<close>

definition fill_page :: "nat \<Rightarrow> dev_io option \<Rightarrow> u64 \<Rightarrow> nat \<Rightarrow> heap \<Rightarrow> heap" where
  "fill_page hhdm rd page_idx virt h =
     (let h1 = h\<lparr>hmem := memset virt 0 4096 (hmem h)\<rparr>
      in case rd of None \<Rightarrow> h1 | Some f \<Rightarrow> f (page_idx * PAGE_SIZE) PAGE_SIZE virt h1)"

fun prefetch_loop :: "nat \<Rightarrow> (pmm \<Rightarrow> pmm) \<Rightarrow> dev_io \<Rightarrow> vfs_node \<Rightarrow> u64 \<Rightarrow> nat \<Rightarrow> pc_state \<Rightarrow> pc_state option" where
  "prefetch_loop hhdm oom f node page_idx 0 s = Some s"
| "prefetch_loop hhdm oom f node page_idx (Suc n) s =
     (if page_idx * PAGE_SIZE \<ge> n_length node then Some s
      else case page_cache_lookup (n_inode node) page_idx s of
        None \<Rightarrow> None
      | Some (Some a, s1) \<Rightarrow> prefetch_loop hhdm oom f node (page_idx + 1) n s1
      | Some (None, s1) \<Rightarrow>
          (case page_cache_allocate hhdm oom (n_inode node) page_idx s1 of
             None \<Rightarrow> None
           | Some (None, s2) \<Rightarrow> Some s2
           | Some (Some a, s2) \<Rightarrow>
               (case entries s2 a of
                  None \<Rightarrow> None
                | Some e \<Rightarrow>
                    prefetch_loop hhdm oom f node (page_idx + 1) n (on_heap (fill_page hhdm (Some f) page_idx (page_virt hhdm e)) s2))))"

definition page_cache_prefetch ::
  "nat \<Rightarrow> (pmm \<Rightarrow> pmm) \<Rightarrow> dev_io option \<Rightarrow> vfs_node \<Rightarrow> u64 \<Rightarrow> nat \<Rightarrow> pc_state \<Rightarrow> pc_state option" where
  "page_cache_prefetch hhdm oom rd node first_idx cnt s =
     (case rd of None \<Rightarrow> Some s | Some f \<Rightarrow> prefetch_loop hhdm oom f node first_idx cnt s)"

text \<open>The page of a read: from the cache, or allocated and filled, with read-ahead of four pages in a stream.\<close>

definition read_page ::
  "nat \<Rightarrow> (pmm \<Rightarrow> pmm) \<Rightarrow> dev_io option \<Rightarrow> vfs_node \<Rightarrow> bool \<Rightarrow> u64 \<Rightarrow> pc_state \<Rightarrow> (nat option \<times> pc_state) option" where
  "read_page hhdm oom rd node sequential page_idx s = do {
     (found, s1) \<leftarrow> page_cache_lookup (n_inode node) page_idx s;
     if found \<noteq> None then Some (found, s1)
     else do {
       (new, s2) \<leftarrow> page_cache_allocate hhdm oom (n_inode node) page_idx s1;
       (case new of
          None \<Rightarrow> Some (None, s2)
        | Some a \<Rightarrow> do {
            e \<leftarrow> entries s2 a;
            let s3 = on_heap (fill_page hhdm rd page_idx (page_virt hhdm e)) s2;
            s4 \<leftarrow> (if sequential then page_cache_prefetch hhdm oom rd node (page_idx + 1) 4 s3 else Some s3);
            Some (Some a, s4)
          })
     }
   }"

partial_function (option) read_loop ::
  "nat \<Rightarrow> (pmm \<Rightarrow> pmm) \<Rightarrow> dev_io option \<Rightarrow> vfs_node \<Rightarrow> bool \<Rightarrow> u64 \<Rightarrow> u64 \<Rightarrow> nat \<Rightarrow> u64 \<Rightarrow> pc_state \<Rightarrow> (u64 \<times> pc_state) option" where
  "read_loop hhdm oom rd node sequential offs bytes_to_read buffer bytes_done s =
     (if bytes_done < bytes_to_read then do {
        let cur_offset = offs + bytes_done;
        let page_off = cur_offset mod PAGE_SIZE;
        let chunk = min (PAGE_SIZE - page_off) (bytes_to_read - bytes_done);
        (cached, s1) \<leftarrow> read_page hhdm oom rd node sequential (cur_offset div PAGE_SIZE) s;
        if cached = None then Some (bytes_done, s1)
        else do {
          e \<leftarrow> entries s1 (the cached);
          let s2 = on_heap (\<lambda>h. h\<lparr>hmem := memcpy (buffer + unat bytes_done) (page_virt hhdm e + unat page_off) (unat chunk) (hmem h)\<rparr>) s1;
          read_loop hhdm oom rd node sequential offs bytes_to_read buffer (bytes_done + chunk) s2
        }
      } else Some (bytes_done, s))"

definition page_cache_read ::
  "nat \<Rightarrow> (pmm \<Rightarrow> pmm) \<Rightarrow> dev_io option \<Rightarrow> vfs_node \<Rightarrow> u64 \<Rightarrow> u64 \<Rightarrow> nat \<Rightarrow> pc_state \<Rightarrow> (u64 \<times> pc_state) option" where
  "page_cache_read hhdm oom rd node offs sz buffer s =
     (if buffer = 0 \<or> offs \<ge> n_length node \<or> sz = 0 then Some (0, s)
      else do {
        let bytes_to_read = (if offs + sz > n_length node then n_length node - offs else sz);
        let (sequential, s1) = page_cache_seq_observe (n_inode node) offs s;
        (bytes_done, s2) \<leftarrow> read_loop hhdm oom rd node sequential offs bytes_to_read buffer 0 s1;
        Some (bytes_done, page_cache_seq_anchor (n_inode node) (offs + bytes_done) s2)
      })"

subsection \<open>Writing\<close>

text \<open>A page that is only partly overwritten is read first, or cleared behind the end of the file.\<close>

definition write_page ::
  "nat \<Rightarrow> (pmm \<Rightarrow> pmm) \<Rightarrow> dev_io option \<Rightarrow> vfs_node \<Rightarrow> u64 \<Rightarrow> u64 \<Rightarrow> pc_state \<Rightarrow> (nat option \<times> pc_state) option" where
  "write_page hhdm oom rd node cur_offset chunk s = do {
     let page_idx = cur_offset div PAGE_SIZE;
     (found, s1) \<leftarrow> page_cache_lookup (n_inode node) page_idx s;
     if found \<noteq> None then Some (found, s1)
     else do {
       (new, s2) \<leftarrow> page_cache_allocate hhdm oom (n_inode node) page_idx s1;
       (case new of
          None \<Rightarrow> Some (None, s2)
        | Some a \<Rightarrow> do {
            e \<leftarrow> entries s2 a;
            Some (Some a,
              if cur_offset mod PAGE_SIZE \<noteq> 0 \<or> chunk \<noteq> PAGE_SIZE then
                on_heap (\<lambda>h. case (cur_offset < n_length node, rd) of
                    (True, Some f) \<Rightarrow> f (page_idx * PAGE_SIZE) PAGE_SIZE (page_virt hhdm e) h
                  | _ \<Rightarrow> h\<lparr>hmem := memset (page_virt hhdm e) 0 4096 (hmem h)\<rparr>) s2
              else s2)
          })
     }
   }"

partial_function (option) write_loop ::
  "nat \<Rightarrow> (pmm \<Rightarrow> pmm) \<Rightarrow> dev_io option \<Rightarrow> dev_io option \<Rightarrow> vfs_node \<Rightarrow> u64 \<Rightarrow> u64 \<Rightarrow> nat \<Rightarrow> u64 \<Rightarrow> pc_state \<Rightarrow> (u64 \<times> pc_state) option" where
  "write_loop hhdm oom rd wr node offs sz buffer bytes_done s =
     (if bytes_done < sz then do {
        let cur_offset = offs + bytes_done;
        let page_off = cur_offset mod PAGE_SIZE;
        let chunk = min (PAGE_SIZE - page_off) (sz - bytes_done);
        let src = buffer + unat bytes_done;
        (cached, s1) \<leftarrow> write_page hhdm oom rd node cur_offset chunk s;
        if cached = None then Some (bytes_done, s1)
        else do {
          e \<leftarrow> entries s1 (the cached);
          let s2 = on_heap (\<lambda>h. h\<lparr>hmem := memcpy (page_virt hhdm e + unat page_off) src (unat chunk) (hmem h)\<rparr>) s1;
          s3 \<leftarrow> upd_entry (the cached) (\<lambda>x. x\<lparr>pe_dirty := True\<rparr>) s2;
          let s4 = (case wr of None \<Rightarrow> s3 | Some f \<Rightarrow> on_heap (f cur_offset chunk src) s3);
          write_loop hhdm oom rd wr node offs sz buffer (bytes_done + chunk) s4
        }
      } else Some (bytes_done, s))"

text \<open>The value is the number of bytes, or \<open>- 1\<close>, and the node with its new length.\<close>

definition page_cache_write ::
  "nat \<Rightarrow> (pmm \<Rightarrow> pmm) \<Rightarrow> dev_io option \<Rightarrow> dev_io option \<Rightarrow> vfs_node \<Rightarrow> u64 \<Rightarrow> u64 \<Rightarrow> nat \<Rightarrow> pc_state \<Rightarrow> (int \<times> vfs_node \<times> pc_state) option" where
  "page_cache_write hhdm oom rd wr node offs sz buffer s =
     (if buffer = 0 \<or> sz = 0 then Some (- 1, node, s)
      else do {
        (bytes_done, s1) \<leftarrow> write_loop hhdm oom rd wr node offs sz buffer 0 s;
        Some (sint bytes_done,
          if offs + bytes_done > n_length node then node\<lparr>n_length := offs + bytes_done\<rparr> else node, s1)
      })"

subsection \<open>Initialisation and sync\<close>

definition page_cache_init :: "pc_state \<Rightarrow> pc_state" where
  "page_cache_init s = s\<lparr>hash_table := \<lambda>_. None, lru_head := None, lru_tail := None, cached_page_count := 0\<rparr>"

partial_function (option) sync_chain :: "u64 option \<Rightarrow> nat option \<Rightarrow> pc_state \<Rightarrow> pc_state option" where
  "sync_chain inode cur s =
     (if cur = None then Some s
      else do {
        e \<leftarrow> entries s (the cur);
        s1 \<leftarrow> (if inode = None \<or> inode = Some (pe_inode e) then upd_entry (the cur) (\<lambda>x. x\<lparr>pe_dirty := False\<rparr>) s else Some s);
        sync_chain inode (hash_next e) s1
      })"

definition sync_buckets :: "u64 option \<Rightarrow> pc_state \<Rightarrow> pc_state option" where
  "sync_buckets inode s =
     fold (\<lambda>b acc. do { t \<leftarrow> acc; sync_chain inode (hash_table t b) t }) [0..<PAGE_CACHE_HASH_SIZE] (Some s)"

definition page_cache_sync_node :: "vfs_node \<Rightarrow> pc_state \<Rightarrow> pc_state option" where
  "page_cache_sync_node node s = sync_buckets (Some (n_inode node)) s"

definition page_cache_sync_all :: "pc_state \<Rightarrow> pc_state option" where
  "page_cache_sync_all s = sync_buckets None s"

section \<open>The list of use is a list\<close>

definition nx :: "pc_state \<Rightarrow> nat \<Rightarrow> nat option" where
  "nx s a = Option.bind (entries s a) lru_next"

definition pv :: "pc_state \<Rightarrow> nat \<Rightarrow> nat option" where
  "pv s a = Option.bind (entries s a) lru_prev"

text \<open>\<open>lru_ok s xs\<close>: the entries \<open>xs\<close>, most recently used first, are chained between head and tail.\<close>

definition lru_ok :: "pc_state \<Rightarrow> nat list \<Rightarrow> bool" where
  "lru_ok s xs \<longleftrightarrow> links (nx s) (pv s) None xs None \<and> distinct xs \<and> lru_head s = first_or None xs \<and> lru_tail s = last_or None xs \<and>
     (\<forall>a \<in> set xs. entries s a \<noteq> None)"

text \<open>What the operations on the list leave alone: everything but the two links.\<close>

definition unlinked :: "page_cache_entry \<Rightarrow> page_cache_entry" where
  "unlinked e = e\<lparr>lru_next := None, lru_prev := None\<rparr>"

definition same_but_links :: "pc_state \<Rightarrow> pc_state \<Rightarrow> bool" where
  "same_but_links s s' \<longleftrightarrow> pc_heap s' = pc_heap s \<and> hash_table s' = hash_table s \<and> cached_page_count s' = cached_page_count s \<and>
     (\<forall>a. map_option unlinked (entries s' a) = map_option unlinked (entries s a))"

lemma same_but_links_trans: "same_but_links s t \<Longrightarrow> same_but_links t u \<Longrightarrow> same_but_links s u"
  by (simp add: same_but_links_def)

lemma same_but_links_dom: "same_but_links s s' \<Longrightarrow> entries s a \<noteq> None \<Longrightarrow> entries s' a \<noteq> None"
  unfolding same_but_links_def by (metis option.map_disc_iff)

lemma lru_push_front_ok:
  assumes ok: "lru_ok s xs" and a: "a \<notin> set xs" and e: "entries s a = Some e"
  shows "\<exists>s'. lru_push_front a s = Some s' \<and> lru_ok s' (a # xs) \<and> same_but_links s s'"
proof (cases xs)
  case Nil
  then show ?thesis
    using ok e by (auto simp: lru_push_front_def upd_entry_def lru_ok_def nx_def pv_def same_but_links_def unlinked_def)
next
  case (Cons h ys)
  then obtain eh where h: "entries s h = Some eh" "lru_head s = Some h" "h \<noteq> a" using ok a by (auto simp: lru_ok_def)
  let ?s = "s\<lparr>entries := (entries s)(a \<mapsto> e\<lparr>lru_prev := None, lru_next := Some h\<rparr>, h \<mapsto> eh\<lparr>lru_prev := Some a\<rparr>), lru_head := Some a\<rparr>"
  have r: "lru_push_front a s = Some ?s" using h e by (simp add: lru_push_front_def upd_entry_def)
  have "links (nx ?s) (pv ?s) None (a # xs) None"
    by (rule links_push [of "nx s" "pv s"]) (use ok a h Cons in \<open>auto simp: lru_ok_def nx_def pv_def\<close>)
  moreover have "same_but_links s ?s" using e h by (auto simp: same_but_links_def unlinked_def)
  ultimately show ?thesis using r ok a e h Cons by (intro exI [of _ ?s]) (auto simp: lru_ok_def last_or_conv)
qed

text \<open>The pointer updates of a removal, for all four positions of the entry.\<close>

lemma lru_remove_links:
  assumes e: "entries s a = Some e"
    and p: "\<forall>y. lru_prev e = Some y \<longrightarrow> y \<noteq> a \<and> entries s y \<noteq> None"
    and n: "\<forall>y. lru_next e = Some y \<longrightarrow> y \<noteq> a \<and> entries s y \<noteq> None"
    and ne: "\<forall>y. lru_prev e = Some y \<longrightarrow> lru_next e \<noteq> Some y"
  shows "\<exists>s'. lru_remove a s = Some s' \<and> same_but_links s s' \<and>
    (\<forall>y. y \<noteq> a \<longrightarrow> nx s' y = (if lru_prev e = Some y then lru_next e else nx s y) \<and>
      pv s' y = (if lru_next e = Some y then lru_prev e else pv s y)) \<and>
    lru_head s' = (if lru_prev e = None then lru_next e else lru_head s) \<and>
    lru_tail s' = (if lru_next e = None then lru_prev e else lru_tail s)"
proof (cases "lru_prev e")
  case None
  show ?thesis
  proof (cases "lru_next e")
    case (Some z)
    with n obtain ez where "entries s z = Some ez" "z \<noteq> a" by blast
    with None Some e show ?thesis
      by (auto simp: lru_remove_def upd_entry_def nx_def pv_def same_but_links_def unlinked_def)
  qed (use None e in \<open>auto simp: lru_remove_def upd_entry_def nx_def pv_def same_but_links_def unlinked_def\<close>)
next
  case (Some q)
  with p obtain eq where q: "entries s q = Some eq" "q \<noteq> a" by blast
  show ?thesis
  proof (cases "lru_next e")
    case None
    with q Some e show ?thesis
      by (auto simp: lru_remove_def upd_entry_def nx_def pv_def same_but_links_def unlinked_def)
  next
    case n': (Some z)
    with n obtain ez where "entries s z = Some ez" "z \<noteq> a" by blast
    moreover have "z \<noteq> q" using ne Some n' by auto
    ultimately show ?thesis
      using q Some n' e by (auto simp: lru_remove_def upd_entry_def nx_def pv_def same_but_links_def unlinked_def)
  qed
qed

lemma lru_remove_ok:
  assumes ok: "lru_ok s (pre @ a # post)"
  shows "\<exists>s'. lru_remove a s = Some s' \<and> lru_ok s' (pre @ post) \<and> same_but_links s s'"
proof -
  note k = ok [unfolded lru_ok_def]
  obtain e where e: "entries s a = Some e" using k by auto
  have x: "nx s a = lru_next e" "pv s a = lru_prev e" using e by (simp_all add: nx_def pv_def)
  have pe: "lru_prev e = last_or None pre" "lru_next e = first_or None post" using k x by (simp_all add: links_append)
  have in1: "y \<in> set pre" if "lru_prev e = Some y" for y using that pe(1) last_or_in by metis
  have in2: "y \<in> set post" if "lru_next e = Some y" for y using that pe(2) first_or_in by metis
  have P: "\<forall>y. lru_prev e = Some y \<longrightarrow> y \<noteq> a \<and> entries s y \<noteq> None" using in1 k by auto
  have N: "\<forall>y. lru_next e = Some y \<longrightarrow> y \<noteq> a \<and> entries s y \<noteq> None" using in2 k by auto
  have NE: "\<forall>y. lru_prev e = Some y \<longrightarrow> lru_next e \<noteq> Some y" using in1 in2 k by fastforce
  obtain s' where r: "lru_remove a s = Some s'" "same_but_links s s'"
    "\<forall>y. y \<noteq> a \<longrightarrow> nx s' y = (if lru_prev e = Some y then lru_next e else nx s y) \<and> pv s' y = (if lru_next e = Some y then lru_prev e else pv s y)"
    "lru_head s' = (if lru_prev e = None then lru_next e else lru_head s)" "lru_tail s' = (if lru_next e = None then lru_prev e else lru_tail s)"
    using lru_remove_links [OF e P N NE] by (elim exE conjE) (rule that)
  have "links (nx s') (pv s') None (pre @ post) None"
  proof (rule links_unlink [of "nx s" "pv s" pre a post])
    show "links (nx s) (pv s) None (pre @ a # post) None" "distinct (pre @ a # post)" using k by simp_all
    have ya: "y \<noteq> a" if "y \<in> set pre \<union> set post" for y using k that by auto
    show "nx s' y = nx s y" if "y \<in> set pre \<union> set post" "pv s a \<noteq> Some y" for y using r(3) ya [OF that(1)] that(2) x by simp
    show "pv s' y = pv s y" if "y \<in> set pre \<union> set post" "nx s a \<noteq> Some y" for y using r(3) ya [OF that(1)] that(2) x by simp
    show "nx s' y = nx s a" if "pv s a = Some y" for y using r(3) P that x by simp
    show "pv s' y = pv s a" if "nx s a = Some y" for y using r(3) N that x by simp
  qed
  moreover have "lru_head s' = first_or None (pre @ post)" "lru_tail s' = last_or None (pre @ post)"
    using r(4,5) pe k by (auto simp: first_or_append last_or_append first_or_conv last_or_conv split: if_splits)
  moreover have "entries s' y \<noteq> None" if "entries s y \<noteq> None" for y
    using same_but_links_dom [OF r(2) that] .
  ultimately have "lru_ok s' (pre @ post)" using k by (auto simp: lru_ok_def)
  with r(1,2) show ?thesis by blast
qed

section \<open>The cache is a map\<close>

text \<open>What does not change when an entry is used: its page and its place in the bucket.\<close>

definition key :: "page_cache_entry \<Rightarrow> u64 \<times> u64 \<times> u64 \<times> bool \<times> nat option" where
  "key e = (pe_inode e, pe_index e, pe_phys e, pe_dirty e, hash_next e)"

definition same_keys :: "pc_state \<Rightarrow> pc_state \<Rightarrow> bool" where
  "same_keys s s' \<longleftrightarrow> pc_heap s' = pc_heap s \<and> hash_table s' = hash_table s \<and> cached_page_count s' = cached_page_count s \<and>
     (\<forall>a. map_option key (entries s' a) = map_option key (entries s a))"

definition holds :: "(nat \<Rightarrow> page_cache_entry option) \<Rightarrow> u64 \<Rightarrow> u64 \<Rightarrow> nat \<Rightarrow> bool" where
  "holds E inode page_index a \<longleftrightarrow> (case E a of Some e \<Rightarrow> pe_inode e = inode \<and> pe_index e = page_index | None \<Rightarrow> False)"

fun hchain :: "(nat \<Rightarrow> page_cache_entry option) \<Rightarrow> nat option \<Rightarrow> nat list \<Rightarrow> bool" where
  "hchain E c [] \<longleftrightarrow> c = None"
| "hchain E c (x # xs) \<longleftrightarrow> c = Some x \<and> (case E x of Some e \<Rightarrow> hchain E (hash_next e) xs | None \<Rightarrow> False)"

lemma chain_find_chain: "hchain E c cs \<Longrightarrow> chain_find E inode page_index c = Some (find (holds E inode page_index) cs)"
proof (induction cs arbitrary: c)
  case Nil
  then show ?case by (simp add: chain_find.simps)
next
  case (Cons x xs)
  then obtain e where "E x = Some e" "c = Some x" "hchain E (hash_next e) xs" by (auto split: option.splits)
  moreover from this have "holds E inode page_index x \<longleftrightarrow> pe_inode e = inode \<and> pe_index e = page_index" by (simp add: holds_def)
  ultimately show ?case using Cons.IH by (subst chain_find.simps) simp
qed

text \<open>
  \<open>cache_ok s xs\<close>: the cache holds the entries \<open>xs\<close>, most recently used first, each in the bucket of its page and no
  two for the same page.
\<close>

definition cache_ok :: "pc_state \<Rightarrow> nat list \<Rightarrow> bool" where
  "cache_ok s xs \<longleftrightarrow> lru_ok s xs \<and>
     (\<forall>i p. \<exists>cs. hchain (entries s) (hash_table s (page_cache_hash i p)) cs \<and> set cs \<subseteq> set xs \<and>
        (\<forall>a \<in> set xs. holds (entries s) i p a \<longrightarrow> a \<in> set cs)) \<and>
     (\<forall>i p. \<forall>a \<in> set xs. \<forall>b \<in> set xs. holds (entries s) i p a \<longrightarrow> holds (entries s) i p b \<longrightarrow> a = b)"

lemma same_keys_holds: "same_keys s s' \<Longrightarrow> holds (entries s') = holds (entries s)"
proof (intro ext)
  fix i p a
  assume "same_keys s s'"
  then have "map_option key (entries s' a) = map_option key (entries s a)" by (simp add: same_keys_def)
  then show "holds (entries s') i p a = holds (entries s) i p a"
    by (cases "entries s a"; cases "entries s' a") (auto simp: holds_def key_def)
qed

lemma same_keys_chain: "same_keys s s' \<Longrightarrow> hchain (entries s') c cs = hchain (entries s) c cs"
proof (induction cs arbitrary: c)
  case (Cons x xs)
  then have "map_option key (entries s' x) = map_option key (entries s x)" by (simp add: same_keys_def)
  with Cons show ?case by (cases "entries s x"; cases "entries s' x") (auto simp: key_def)
qed simp

lemma links_keys: "same_but_links s s' \<Longrightarrow> same_keys s s'"
  unfolding same_but_links_def same_keys_def
proof (intro conjI allI; (elim conjE)?)
  fix a
  assume "\<forall>a. map_option unlinked (entries s' a) = map_option unlinked (entries s a)"
  then have u: "map_option unlinked (entries s' a) = map_option unlinked (entries s a)" ..
  have "key e = key (unlinked e)" for e by (simp add: key_def unlinked_def)
  then have "key = key \<circ> unlinked" by (simp add: fun_eq_iff)
  with u show "map_option key (entries s' a) = map_option key (entries s a)" by (metis option.map_comp)
qed simp_all

lemma same_keys_trans: "same_keys s t \<Longrightarrow> same_keys t u \<Longrightarrow> same_keys s u"
  by (simp add: same_keys_def)

lemma cache_ok_reorder:
  assumes "cache_ok s xs" and "same_keys s s'" and "lru_ok s' ys" and "set ys = set xs"
  shows "cache_ok s' ys"
  using assms by (simp add: cache_ok_def same_keys_holds same_keys_chain) (simp add: same_keys_def)

lemma referenced_ok:
  assumes "lru_ok s xs" and "entries s a = Some e"
  shows "lru_ok (s\<lparr>entries := (entries s)(a \<mapsto> e\<lparr>pe_referenced := b\<rparr>)\<rparr>) xs" and "same_keys s (s\<lparr>entries := (entries s)(a \<mapsto> e\<lparr>pe_referenced := b\<rparr>)\<rparr>)"
proof -
  let ?s = "s\<lparr>entries := (entries s)(a \<mapsto> e\<lparr>pe_referenced := b\<rparr>)\<rparr>"
  have "nx ?s = nx s" "pv ?s = pv s" using assms(2) by (auto simp: nx_def pv_def fun_eq_iff)
  then show "lru_ok ?s xs" using assms by (auto simp: lru_ok_def)
  show "same_keys s ?s" using assms(2) by (simp add: same_keys_def key_def)
qed

text \<open>The clock ends: at an entry that is not referenced, or past the front when all were.\<close>

lemma clock_search_ends:
  assumes "lru_ok s (pre @ post)"
  shows "\<exists>v s'. clock_search (last_or None pre) s = Some (v, s') \<and> lru_ok s' (pre @ post) \<and> same_keys s s' \<and>
    (\<forall>a. v = Some a \<longrightarrow> a \<in> set pre)"
  using assms
proof (induction pre arbitrary: s post rule: rev_induct)
  case Nil
  then show ?case by (simp add: clock_search.simps same_keys_def)
next
  case (snoc a pre)
  obtain e where e: "entries s a = Some e" using snoc.prems by (auto simp: lru_ok_def)
  show ?case
  proof (cases "pe_referenced e")
    case True
    let ?s = "s\<lparr>entries := (entries s)(a \<mapsto> e\<lparr>pe_referenced := False\<rparr>)\<rparr>"
    note r = referenced_ok [OF snoc.prems e, of False]
    have "lru_prev e = last_or None pre" using snoc.prems e by (simp add: lru_ok_def links_append pv_def)
    then have c: "clock_search (last_or None (pre @ [a])) s = clock_search (last_or None pre) ?s"
      using True e by (subst clock_search.simps) (simp add: upd_entry_def)
    obtain v s' where v: "clock_search (last_or None pre) ?s = Some (v, s')" "lru_ok s' (pre @ a # post)" "same_keys ?s s'"
      "\<forall>a. v = Some a \<longrightarrow> a \<in> set pre" using snoc.IH [of ?s "a # post"] r(1) by auto
    with c same_keys_trans [OF r(2) v(3)] show ?thesis by (intro exI [of _ v] exI [of _ s']) auto
  next
    case False
    then have "clock_search (last_or None (pre @ [a])) s = Some (Some a, s)" using e by (subst clock_search.simps) simp
    with snoc.prems show ?thesis by (simp add: same_keys_def)
  qed
qed

text \<open>
  C40. A lookup in the page cache finds a page exactly when the cache holds it, and makes it the most recently used one.
  The pages themselves, the other entries and the order among them stay as they are, and the links of the buckets and of
  the list of use stay consistent.
\<close>

theorem page_cache_lookup_correct:
  assumes "cache_ok s xs"
  shows "\<exists>r s'. page_cache_lookup inode page_index s = Some (r, s') \<and> same_keys s s' \<and>
    (case r of
       None \<Rightarrow> s' = s \<and> (\<forall>a \<in> set xs. \<not> holds (entries s) inode page_index a)
     | Some a \<Rightarrow> a \<in> set xs \<and> holds (entries s) inode page_index a \<and> cache_ok s' (a # remove1 a xs))"
proof -
  obtain cs where cs: "hchain (entries s) (hash_table s (page_cache_hash inode page_index)) cs" "set cs \<subseteq> set xs"
    "\<forall>a \<in> set xs. holds (entries s) inode page_index a \<longrightarrow> a \<in> set cs" using assms unfolding cache_ok_def by blast
  note f = chain_find_chain [OF cs(1), of inode page_index]
  show ?thesis
  proof (cases "find (holds (entries s) inode page_index) cs")
    case None
    then have "page_cache_lookup inode page_index s = Some (None, s)" using f by (simp add: page_cache_lookup_def)
    moreover have "\<forall>a \<in> set xs. \<not> holds (entries s) inode page_index a" using None cs(3) by (auto simp: find_None_iff)
    ultimately show ?thesis by (simp add: same_keys_def)
  next
    case (Some a)
    then have a: "a \<in> set xs" "holds (entries s) inode page_index a" using cs(2) by (auto simp: find_Some_iff)
    then obtain e where e: "entries s a = Some e" by (auto simp: holds_def split: option.splits)
    obtain pre post where xs: "xs = pre @ a # post" "a \<notin> set pre" using split_list_first [OF a(1)] by blast
    let ?s = "s\<lparr>entries := (entries s)(a \<mapsto> e\<lparr>pe_referenced := True\<rparr>)\<rparr>"
    have l: "lru_ok s xs" using assms by (simp add: cache_ok_def)
    note r = referenced_ok [OF l e, of True]
    obtain s2 where s2: "lru_remove a ?s = Some s2" "lru_ok s2 (pre @ post)" "same_but_links ?s s2"
      using lru_remove_ok r(1) xs(1) by blast
    have "entries s2 a \<noteq> None" by (rule same_but_links_dom [OF s2(3)]) simp
    moreover have na: "a \<notin> set (pre @ post)" using l xs by (auto simp: lru_ok_def)
    ultimately obtain s3 where s3: "lru_push_front a s2 = Some s3" "lru_ok s3 (a # pre @ post)" "same_but_links s2 s3"
      using lru_push_front_ok [OF s2(2) na] by blast
    have k: "same_keys s s3" using r(2) links_keys [OF s2(3)] links_keys [OF s3(3)] same_keys_trans by blast
    have "remove1 a xs = pre @ post" using xs by (simp add: remove1_append)
    moreover have "cache_ok s3 (a # pre @ post)" using cache_ok_reorder [OF assms k s3(2)] xs by auto
    moreover have "page_cache_lookup inode page_index s = Some (Some a, s3)"
      using f Some e s2(1) s3(1) by (simp add: page_cache_lookup_def upd_entry_def)
    ultimately show ?thesis using a k by (intro exI [of _ "Some a"] exI [of _ s3]) simp
  qed
qed

definition demo_entry :: "u64 \<Rightarrow> nat option \<Rightarrow> nat option \<Rightarrow> page_cache_entry" where
  "demo_entry idx n p = \<lparr>pe_inode = 5, pe_index = idx, pe_phys = 4096, pe_dirty = False, pe_referenced = False, hash_next = None,
     lru_next = n, lru_prev = p\<rparr>"

definition demo_cache :: pc_state where
  "demo_cache = \<lparr>pc_heap = demo_heap, entries = [100 \<mapsto> demo_entry 0 (Some 200) None, 200 \<mapsto> demo_entry 1 None (Some 100)],
     hash_table = [5 \<mapsto> 100, 16 \<mapsto> 200], lru_head = Some 100, lru_tail = Some 200, cached_page_count = 2, seq_table = [], seq_victim = 0\<rparr>"

lemma demo_cache_ok: "cache_ok demo_cache [100, 200]"
proof -
  have h: "page_cache_hash 5 0 = 5" "page_cache_hash 5 1 = 16" by code_simp+
  have l: "lru_ok demo_cache [100, 200]" by (simp add: lru_ok_def demo_cache_def nx_def pv_def demo_entry_def)
  have v: "holds (entries demo_cache) i p a \<longleftrightarrow> i = 5 \<and> (a = 100 \<and> p = 0 \<or> a = 200 \<and> p = 1)" for i p a
    by (auto simp: holds_def demo_cache_def demo_entry_def)
  have c: "\<exists>cs. hchain (entries demo_cache) (hash_table demo_cache (page_cache_hash i p)) cs \<and> set cs \<subseteq> set [100, 200] \<and>
      (\<forall>a \<in> set [100, 200]. holds (entries demo_cache) i p a \<longrightarrow> a \<in> set cs)" for i p
  proof -
    let ?b = "page_cache_hash i p"
    let ?cs = "if ?b = 5 then [100] else if ?b = 16 then [200] else []"
    have "hchain (entries demo_cache) (hash_table demo_cache ?b) ?cs" by (simp add: demo_cache_def demo_entry_def)
    moreover have "\<forall>a \<in> set [100, 200]. holds (entries demo_cache) i p a \<longrightarrow> a \<in> set ?cs" using h by (auto simp: v)
    moreover have "set ?cs \<subseteq> set [100, 200]" by auto
    ultimately show ?thesis by blast
  qed
  have u: "a = b" if "holds (entries demo_cache) i p a" "holds (entries demo_cache) i p b" for i p a b using that by (auto simp: v)
  show ?thesis unfolding cache_ok_def using l c u by blast
qed

theorem page_cache_lookup_correct_witness:
  "\<exists>s'. page_cache_lookup 5 1 demo_cache = Some (Some 200, s') \<and> cache_ok s' [200, 100]"
proof -
  obtain r s' where r: "page_cache_lookup 5 1 demo_cache = Some (r, s')"
    "case r of None \<Rightarrow> s' = demo_cache \<and> (\<forall>a \<in> set [100, 200]. \<not> holds (entries demo_cache) 5 1 a)
     | Some a \<Rightarrow> a \<in> set [100, 200] \<and> holds (entries demo_cache) 5 1 a \<and> cache_ok s' (a # remove1 a [100, 200])"
    using page_cache_lookup_correct [OF demo_cache_ok, of 5 1] by blast
  have "holds (entries demo_cache) 5 1 200" "\<not> holds (entries demo_cache) 5 1 100"
    by (simp_all add: holds_def demo_cache_def demo_entry_def)
  with r show ?thesis by (cases r) auto
qed

end
