(* ===== verification/Spec2Isabelle.thy ===== *)
theory Spec2Isabelle
  imports Prelude Dll Sched Pmm Pages Kmem Kheap Kstring Kstdio Objects Blocking Ring Vnode Pipe Pipe_Runs Eventfd Vmm Vfs Ramfs Partition Af_unix Net Clock Tty_input Pagecache
begin

section \<open>Verification of the EquantOS kernel\<close>

text \<open>
  EquantOS is a small x86-64 operating system. This development models the parts of its kernel that are algorithms and
  data structures rather than access to hardware, and proves what each of them promises to the rest. All paths below are
  relative to \<open>src/src\<close>.

  \<^bold>\<open>The parts and how they interact.\<close> The page allocator (\<open>kernel/core/mem/pmm.c\<close>) owns physical memory. The heap
  (\<open>kernel/core/mem/memory.c\<close>) takes pages from it and gives objects to everyone else; the page tables
  (\<open>kernel/core/mem/vmm.c\<close>) take pages from it for address spaces. The scheduler (\<open>kernel/proc/sched.c\<close>) owns the run
  queues, the sleepers and the I/O waiters; pipes (\<open>kernel/proc/pipe.c\<close>), event counters (\<open>kernel/ipc/eventfd.c\<close>) and
  local sockets (\<open>kernel/ipc/af_unix.c\<close>) block and wake tasks through it, and hang on nodes of the virtual file system
  (\<open>kernel/fs/vfs.c\<close>). The RAM file system (\<open>kernel/fs/ramfs.c\<close>) is the root file system. Partition tables
  (\<open>kernel/fs/mbr.c\<close>, \<open>gpt.c\<close>, \<open>partition.c\<close>) are parsed from block devices. The network stack (\<open>kernel/net\<close>) runs
  from the poll of the network card. The timer (\<open>kernel/misc/timer.c\<close>) drives the scheduler. Key events
  pass from the drivers through a ring (\<open>kernel/drivers/input.c\<close>) to the terminal (\<open>kernel/drivers/tty/tty_input.c\<close>). All of them use the string
  and output functions of \<open>libs/string.c\<close> and \<open>libs/stdio.c\<close>.

  \<^bold>\<open>Conventions.\<close> Machine integers are words of their width where the code computes with them. \<open>NULL\<close> is \<open>0\<close> for an
  address and \<open>None\<close> for a pointer that is only tested and followed. An operation that has no defined result in C (a
  read outside an object, a pointer to a released object, a shift or an overflow that is undefined), that panics, or that
  does not end, has the value \<open>None\<close> of an option type; where a theorem says that an operation returns, it says that
  the value is \<open>Some\<close>. Byte memory is a function from addresses to bytes. Kernel objects with a fixed struct (nodes,
  pipes, sockets) live in typed stores at the addresses the heap gives them, and a released object is removed from its
  store. A blocking operation is cut at its calls of \<open>sched_yield\<close> into sections (\<open>outcome\<close> in \<open>Blocking\<close>: return,
  yield, or spin), which is what can interleave, since a system call runs with interrupts disabled.

  \<^bold>\<open>The theories.\<close>
  \<^item> \<open>Prelude\<close>: machine types, error numbers, packed little- and big-endian fields, lemmas on lists and words.
  \<^item> \<open>Dll\<close>: doubly linked lists threaded through objects, related to HOL lists (\<open>links\<close>); used by \<open>Sched\<close> and \<open>Pmm\<close>.
  \<^item> \<open>Sched\<close> (\<open>kernel/proc/sched.c\<close>): the record \<open>sched\<close> holds the globals; one definition per function, under its name.
    The locale \<open>prio_queues\<close> is the contract of 32 FIFO queues, interpreted (\<open>rq\<close>) on \<open>sched_enqueue\<close> and
    \<open>sched_dequeue\<close> with their links, heads, tails and bitmap. On top of it: the context switch serves runnable tasks in
    turn, and the tick wakes exactly the sleepers whose deadline has come.
  \<^item> \<open>Pmm\<close> (\<open>kernel/core/mem/pmm.c\<close>): the buddy allocator over its descriptor array. The invariant \<open>buddy_inv\<close> relates
    the state to the free and the allocated blocks. Lemmas: initialisation establishes it, allocation returns a free block
    and fails only without one, release coalesces, the accounting is exact. \<open>Pages\<close> is its interface for clients (locale
    \<open>page_provider\<close>, interpretation \<open>pg\<close>).
  \<^item> \<open>Kmem\<close> and \<open>Kheap\<close> (\<open>libs/string.c\<close>, \<open>kernel/core/mem/memory.c\<close>): block operations on byte memory, and the slab and
    large-object heap with all its headers and free lists as bytes of memory. Lemmas: \<open>kmalloc\<close> ends and returns a fresh
    object, \<open>kfree\<close> removes exactly one, \<open>krealloc\<close> keeps the contents; and that \<open>kmalloc\<close> does not notice a size that
    wraps around. \<open>Objects\<close> is the interface (locales \<open>object_heap\<close> and \<open>object_memory\<close>, interpretations \<open>hp\<close>, \<open>hz\<close>,
    \<open>hm\<close>), with the frame rules clients use.
  \<^item> \<open>Kstring\<close>, \<open>Kstdio\<close> (\<open>libs/string.c\<close>, \<open>libs/stdio.c\<close>): the string functions with reads past an object as \<open>None\<close>, and
    \<open>vsnprintf\<close> over typed arguments: first occurrences, tokenising, number round trips, bounds of every buffer, the
    printed text.
  \<^item> \<open>Blocking\<close>: what blocking primitives rely on in the scheduler (locale \<open>blocking\<close>, interpretation \<open>wt\<close>).
    \<open>Ring\<close>: the byte ring of pipes and sockets (locale \<open>fifo\<close>, interpretation \<open>rb\<close>).
  \<^item> \<open>Vnode\<close>: the node struct and the descriptor table. \<open>Pipe\<close>, \<open>Pipe_Runs\<close> (\<open>kernel/proc/pipe.c\<close>): operations and the
    step relation \<open>pipe_step\<close>; in every reachable state the bytes come out in order, with one reader and one writer no
    wake-up is lost, with two readers one can be stuck; creation and closing own and release their objects.
  \<^item> \<open>Eventfd\<close> (\<open>kernel/ipc/eventfd.c\<close>): the counter is conserved in every interleaving, writers wake readers, closing
    leaves the node behind.
  \<^item> \<open>Vmm\<close> (\<open>kernel/core/mem/vmm.c\<close>): page tables in byte memory. Mapping and unmapping are updates of the translation
    function; a write fault on a copy-on-write page gives the writer its own copy.
  \<^item> \<open>Vfs\<close>, \<open>Ramfs\<close> (\<open>kernel/fs/vfs.c\<close>, \<open>kernel/fs/ramfs.c\<close>): path resolution is a function of the components of the
    path; a directory is a map from names to nodes (locale \<open>directory\<close>, interpretation \<open>rd\<close>); a file is a byte array.
  \<^item> \<open>Pagecache\<close> (\<open>kernel/fs/pagecache.c\<close>): hash chains, the list of use, eviction, read-ahead, reading and writing. A lookup
    finds exactly the pages the cache holds and keeps chains and list consistent. The operations work on the state of the
    cache; the virtual file system takes the cache as a parameter.
  \<^item> \<open>Partition\<close>: the parsers of both formats and the scan: parsing gives back what was written, and the guard of
    the EFI system partition never takes effect.
  \<^item> \<open>Af_unix\<close> (\<open>kernel/ipc/af_unix.c\<close>): the life cycle of local sockets. A connection is a byte stream in each
    direction; closing one end leaves the other with a dangling pointer; no name in the root directory can be bound.
  \<^item> \<open>Net\<close> (\<open>kernel/net\<close> up to UDP, with the NTP, DNS and DHCP clients, and the two data paths of
    \<open>kernel/drivers/net/rtl8139.c\<close>): the state stays well-formed whatever arrives, and a packet goes out as one frame
    whose header checksum verifies.
  \<^item> \<open>Clock\<close> (\<open>kernel/misc/rtc.c\<close>, \<open>timer.c\<close>, \<open>random.c\<close>): the conversion of a date counts seconds; the tick of the
    timer; the generator.
  \<^item> \<open>Tty_input\<close> (\<open>kernel/drivers/input.c\<close>, \<open>kernel/drivers/tty/tty_input.c\<close>): the event ring and its translation into
    characters, escape sequences and scancodes. The owner of the keyboard reads one byte stream of scancodes, and nobody
    else takes from it.

  \<^bold>\<open>Parameters and what is expected of them.\<close> \<open>hhdm\<close> is the offset of the direct map. \<open>oom\<close> is the effect of
  \<open>oom_killer\<close> on the page allocator; the heap theorems expect that it keeps the allocator's invariant and the
  kernel's own blocks (\<open>oom_ok\<close>), which the identity satisfies. The operation tables of file systems other than the RAM file system and the
  page cache are fields of \<open>vfs_env\<close>. TCP and the socket layer are fields of \<open>net_env\<close>, expected to keep the network
  state well-formed (\<open>env_keeps\<close>). Block devices are read functions. Hardware readings (CMOS registers, ticks, received
  frames, time-stamp counter) are arguments.

  \<^bold>\<open>Loops and bounds.\<close> No model uses fuel. Loops over arrays are structural recursions with the bounds of the code: 32
  run queues, 16 orders, 8 slab buckets, 50 rounds of waiting for an ARP answer, 64 UDP sockets. Other loops are functions
  with a termination proof: the coalescing loop by the order, the checksum fold by the sum, the loops over DNS and DHCP
  data by the bytes left, the path loop by the path left, the loops over key events by the events in the ring. Loops over linked structures that the code cannot bound (the
  slab list, the children of a node, the entries of the page cache) are partial functions, and the theorems about them prove that they end on well-formed
  structures. The loop that unlinks a node when a socket is bound and, in the page cache, the unlinking from a
  bucket and the loops over the pages of a request have no such theorem. A loop that waits for the hardware runs over the list of
  values it reads.

  \<^bold>\<open>Not modelled.\<close>
  \<^item> Hardware access: the drivers under \<open>kernel/drivers\<close> for serial ports, USB, NVMe, ATA, AC97, PCI, display, keyboard and
    event devices, the probe and the registers of the RTL8139, and \<open>kernel/core/gen\<close> (descriptor tables, interrupts,
    APIC, PIC). Their behaviour is that of the devices.
  \<^item> The console and the pseudo terminals (\<open>tty.c\<close> and \<open>pty.c\<close> in \<open>kernel/drivers/tty\<close>) and the installer, user accounts and power management of \<open>kernel/misc\<close>.
  \<^item> The disk file systems \<open>ext2.c\<close>, \<open>fat32.c\<close>, \<open>iso9660.c\<close>, and the synthetic file systems \<open>devfs.c\<close> and
    \<open>procfs.c\<close>: parameters of the virtual file system here. The prewarming of the page cache at boot.
  \<^item> TCP and the socket layer (\<open>kernel/net/tcp.c\<close>, \<open>socket.c\<close>), shared memory (\<open>kernel/ipc/shm.c\<close>), which
    works on the address spaces of processes.
  \<^item> The system call table, the program loader and process creation (\<open>kernel/proc/syscall.c\<close>, \<open>loader.c\<close>, \<open>task.c\<close>,
    \<open>initproc.c\<close>), and \<open>oom_killer\<close>, which works on the process table.
  \<^item> The kernel shell and terminal emulator (\<open>equterm\<close>), the start-up in \<open>main.c\<close>, and everything outside \<open>src/src\<close>
    (user programs, ports, the C library, the boot loader).
  \<^item> Output to the terminal and the serial port, everywhere.
\<close>

end
